(* ===== verification/Prelude.thy ===== *)
theory Prelude
  imports Main "HOL-Library.Word" "HOL-Library.List_Lexorder"
begin

text \<open>
  Shared vocabulary of the development: bytes and byte strings, the two's complement
  conversions the C++ sources perform with \<open>static_cast\<close>, the decimal rendering of
  \<open>std::to_string\<close>, little- and big-endian integer layouts, and generic list facts.

  Conventions used by every component theory:
  \<^item> a \<open>std::string\<close>, a \<open>std::string_view\<close> and a \<open>std::vector<std::uint8_t>\<close> are all lists
    of bytes (\<open>bytes\<close>); a literal of the source is written \<open>str ''OK''\<close>;
  \<^item> sizes and indices (\<open>std::size_t\<close>) are \<open>nat\<close>; signed 64-bit values are \<open>int\<close> with the
    range predicate \<open>is_int64\<close>; a narrowing cast is \<open>take_bit\<close> or \<open>signed_take_bit\<close>;
  \<^item> values whose wrap-around matters (hashes, scan cursors, checksums) are words.
\<close>

unbundle bit_operations_syntax

named_theorems byte_simps
  \<open>rewrite rules for byte layouts: lengths and round trips of the integer codecs\<close>

type_synonym byte = "8 word"
type_synonym bytes = "byte list"

section \<open>Byte strings\<close>

definition str :: "string \<Rightarrow> bytes" where
  "str s = map of_char s"

lemma str_Nil [simp]: "str [] = []"
  by (simp add: str_def)

lemma str_Cons [simp]: "str (c # s) = of_char c # str s"
  by (simp add: str_def)

lemma length_str [simp]: "length (str s) = length s"
  by (simp add: str_def)

section \<open>Signed 64-bit range\<close>

abbreviation int64_min :: int where
  "int64_min \<equiv> - 9223372036854775808"

abbreviation int64_max :: int where
  "int64_max \<equiv> 9223372036854775807"

definition is_int64 :: "int \<Rightarrow> bool" where
  "is_int64 n \<longleftrightarrow> int64_min \<le> n \<and> n \<le> int64_max"

section \<open>Decimal text\<close>

text \<open>The decimal rendering of \<open>std::to_string\<close>: no leading zeros, a minus sign in front.\<close>

fun nat_digits :: "nat \<Rightarrow> bytes" where
  "nat_digits n = (if n < 10 then [48 + of_nat n]
                   else nat_digits (n div 10) @ [48 + of_nat (n mod 10)])"

declare nat_digits.simps [simp del]

definition to_string :: "int \<Rightarrow> bytes" where
  "to_string i = (if i < 0 then 45 # nat_digits (nat (- i)) else nat_digits (nat i))"

definition is_digit :: "byte \<Rightarrow> bool" where
  "is_digit c \<longleftrightarrow> 48 \<le> c \<and> c \<le> 57"

definition digit_val :: "byte \<Rightarrow> nat" where
  "digit_val c = unat (c - 48)"

definition dec_value :: "nat \<Rightarrow> bytes \<Rightarrow> nat" where
  "dec_value acc cs = foldl (\<lambda>a c. a * 10 + digit_val c) acc cs"

lemma dec_value_simps [simp]:
  "dec_value acc [] = acc"
  "dec_value acc (c # cs) = dec_value (acc * 10 + digit_val c) cs"
  by (simp_all add: dec_value_def)

lemma dec_value_append [simp]: "dec_value acc (xs @ ys) = dec_value (dec_value acc xs) ys"
  by (simp add: dec_value_def)

lemma dec_value_ge: "acc \<le> dec_value acc cs"
proof (induction cs arbitrary: acc)
  case (Cons c cs)
  have "acc \<le> acc * 10 + digit_val c" by simp
  also have "\<dots> \<le> dec_value (acc * 10 + digit_val c) cs" by (rule Cons.IH)
  finally show ?case by simp
qed simp

lemma digit_of_nat:
  assumes "d < 10"
  shows "is_digit (48 + of_nat d)" and "digit_val (48 + of_nat d) = d"
    and "(48 + of_nat d = (48 :: byte)) = (d = 0)"
proof -
  have d: "unat (of_nat d :: byte) = d"
    using assms by (simp add: unat_of_nat)
  have u: "unat (48 + of_nat d :: byte) = 48 + d"
    using assms by (subst unat_word_ariths) (simp add: d)
  show "is_digit (48 + of_nat d)"
    using assms u by (simp add: is_digit_def word_le_nat_alt)
  show "digit_val (48 + of_nat d) = d"
    by (simp add: digit_val_def d)
  show "(48 + of_nat d = (48 :: byte)) = (d = 0)"
    using u by (auto simp del: unat_word_ariths)
qed

lemma digit_val_less: "is_digit c \<Longrightarrow> digit_val c < 10"
  by (auto simp: is_digit_def digit_val_def word_le_nat_alt unat_sub)

lemma digit_val_inv: "is_digit c \<Longrightarrow> 48 + of_nat (digit_val c) = c"
  by (simp add: digit_val_def)

lemma nat_digits_digits: "list_all is_digit (nat_digits n)"
proof (induction n rule: nat_digits.induct)
  case (1 n)
  then show ?case
    by (subst nat_digits.simps) (auto simp: digit_of_nat)
qed

lemma nat_digits_nonempty [simp]: "nat_digits n \<noteq> []"
  by (subst nat_digits.simps) simp

lemma dec_value_nat_digits [simp]: "dec_value 0 (nat_digits n) = n"
proof (induction n rule: nat_digits.induct)
  case (1 n)
  then show ?case
    by (subst nat_digits.simps) (auto simp: digit_of_nat)
qed

lemma nat_digits_hd: "0 < n \<Longrightarrow> hd (nat_digits n) \<noteq> 48"
proof (induction n rule: nat_digits.induct)
  case (1 n)
  show ?case
  proof (cases "n < 10")
    case True
    then show ?thesis
      using 1 digit_of_nat(3) [of n] by (subst nat_digits.simps) simp
  next
    case False
    then have "hd (nat_digits (n div 10)) \<noteq> 48" using 1 by simp
    with False show ?thesis by (subst nat_digits.simps) simp
  qed
qed

lemma nat_digits_length: "0 < k \<Longrightarrow> n < 10 ^ k \<Longrightarrow> length (nat_digits n) \<le> k"
proof (induction k arbitrary: n)
  case (Suc k)
  show ?case
  proof (cases "n < 10")
    case True
    then show ?thesis by (subst nat_digits.simps) simp
  next
    case False
    then have "0 < k" using Suc.prems by (cases k) auto
    moreover have "n div 10 < 10 ^ k" using Suc.prems by (simp add: div_less_iff_less_mult mult.commute)
    ultimately have "length (nat_digits (n div 10)) \<le> k" by (rule Suc.IH)
    with False show ?thesis by (subst nat_digits.simps) simp
  qed
qed simp

text \<open>A digit string with no leading zero is the rendering of its value.\<close>

lemma dec_value_pos: "ds \<noteq> [] \<Longrightarrow> list_all is_digit ds \<Longrightarrow> hd ds \<noteq> 48 \<Longrightarrow> 0 < dec_value 0 ds"
proof (cases ds)
  case (Cons d ds')
  assume "list_all is_digit ds" "hd ds \<noteq> 48"
  with Cons have "digit_val d \<noteq> 0"
    using digit_val_inv [of d] by (cases "digit_val d = 0") auto
  moreover have "digit_val d \<le> dec_value (digit_val d) ds'" by (rule dec_value_ge)
  ultimately show ?thesis using Cons by simp
qed simp

lemma nat_digits_dec_value:
  "ds \<noteq> [] \<Longrightarrow> list_all is_digit ds \<Longrightarrow> hd ds \<noteq> 48 \<Longrightarrow> nat_digits (dec_value 0 ds) = ds"
proof (induction ds rule: rev_induct)
  case (snoc d ds)
  have d: "digit_val d < 10" "48 + of_nat (digit_val d) = d"
    using snoc.prems by (simp_all add: digit_val_less digit_val_inv)
  show ?case
  proof (cases "ds = []")
    case True
    then show ?thesis using d by (subst nat_digits.simps) simp
  next
    case False
    then have ds: "list_all is_digit ds" "hd ds \<noteq> 48" using snoc.prems by simp_all
    let ?v = "dec_value 0 ds"
    have "0 < ?v" by (rule dec_value_pos [OF False ds])
    moreover have "(?v * 10 + digit_val d) div 10 = ?v" "(?v * 10 + digit_val d) mod 10 = digit_val d"
      using d by simp_all
    ultimately show ?thesis
      using d snoc.IH [OF False ds] by (subst nat_digits.simps) simp
  qed
qed simp

lemma nat_digits_inj: "nat_digits m = nat_digits n \<Longrightarrow> m = n"
  by (metis dec_value_nat_digits)

lemma nat_digits_no_minus: "nat_digits n \<noteq> 45 # ds"
proof
  assume "nat_digits n = 45 # ds"
  then have "is_digit 45" using nat_digits_digits [of n] by simp
  then show False by (simp add: is_digit_def)
qed

lemma to_string_inj: "to_string m = to_string n \<Longrightarrow> m = n"
  using nat_digits_no_minus
  by (auto simp: to_string_def split: if_splits dest: nat_digits_inj)
     (metis nat_digits_no_minus)+

lemma to_string_nonempty [simp]: "to_string n \<noteq> []"
  by (simp add: to_string_def)

section \<open>Fixed-width integer layouts\<close>

text \<open>
  \<open>le_bytes n v\<close> is the loop \<open>out.push_back((v >> (8 * i)) & 0xFF)\<close> for \<open>i = 0, \<dots>, n - 1\<close>;
  \<open>le_value\<close> is the loop \<open>raw |= p[i] << (8 * i)\<close>.
\<close>

definition le_bytes :: "nat \<Rightarrow> int \<Rightarrow> bytes" where
  "le_bytes n v = map (\<lambda>i. word_of_int (drop_bit (8 * i) v)) [0..<n]"

fun le_value :: "bytes \<Rightarrow> int" where
  "le_value [] = 0"
| "le_value (b # bs) = uint b + 256 * le_value bs"

lemma length_le_bytes [simp, byte_simps]: "length (le_bytes n v) = n"
  by (simp add: le_bytes_def)

lemma le_bytes_0 [simp]: "le_bytes 0 v = []"
  by (simp add: le_bytes_def)

lemma le_bytes_Suc: "le_bytes (Suc n) v = word_of_int v # le_bytes n (drop_bit 8 v)"
proof -
  have "map (\<lambda>i. word_of_int (drop_bit (8 * i) v) :: byte) [0..<Suc n]
      = word_of_int v # map (\<lambda>i. word_of_int (drop_bit (8 * Suc i) v)) [0..<n]"
    by (simp add: upt_conv_Cons map_Suc_upt [symmetric] comp_def del: upt_Suc)
  then show ?thesis by (simp add: le_bytes_def add.commute)
qed

text \<open>Unfolds a layout of literal width byte by byte, for evaluating closed instances.\<close>

lemma le_bytes_numeral:
  "le_bytes (numeral k) v = word_of_int v # le_bytes (pred_numeral k) (drop_bit 8 v)"
  by (simp only: numeral_eq_Suc le_bytes_Suc)

lemma le_value_le_bytes [byte_simps]: "le_value (le_bytes n v) = take_bit (8 * n) v"
proof (induction n arbitrary: v)
  case (Suc n)
  have "take_bit (8 * Suc n) v = v mod (256 * 2 ^ (8 * n))"
    by (simp add: take_bit_eq_mod power_add)
  also have "\<dots> = 256 * (v div 256 mod 2 ^ (8 * n)) + v mod 256"
    by (rule zmod_zmult2_eq) simp
  finally show ?case
    by (simp add: le_bytes_Suc Suc.IH uint_word_of_int take_bit_eq_mod drop_bit_eq_div)
qed simp

lemma le_value_nonneg: "0 \<le> le_value bs"
  by (induction bs) simp_all

lemma le_value_less: "le_value bs < 256 ^ length bs"
proof (induction bs)
  case (Cons b bs)
  have "uint b < 256" using uint_lt2p [of b] by simp
  moreover have "256 * le_value bs \<le> 256 * (256 ^ length bs - 1)" using Cons by simp
  ultimately show ?case by simp
qed simp

lemma le_bytes_le_value [byte_simps]: "le_bytes (length bs) (le_value bs) = bs"
proof (induction bs)
  case (Cons b bs)
  have b: "0 \<le> uint b" "uint b < 256" using uint_lt2p [of b] by simp_all
  have "(uint b + 256 * le_value bs) div 256 = le_value bs"
    using b by simp
  moreover have "word_of_int (uint b + 256 * le_value bs) = b"
  proof -
    have "word_of_int (uint b + 256 * le_value bs) = (word_of_int (take_bit 8 (uint b + 256 * le_value bs)) :: byte)"
      by (simp add: wi_bintr)
    also have "take_bit 8 (uint b + 256 * le_value bs) = uint b"
      using b by (simp add: take_bit_eq_mod)
    finally show ?thesis by simp
  qed
  ultimately show ?case using Cons by (simp add: le_bytes_Suc drop_bit_eq_div)
qed simp

text \<open>Sign extension undoes truncation on the values that fit.\<close>

lemma signed_take_bit_fits:
  fixes v :: int
  assumes "- (2 ^ n) \<le> v" and "v < 2 ^ n" and "n < m"
  shows "signed_take_bit n (take_bit m v) = v"
  using assms by (simp add: signed_take_bit_take_bit signed_take_bit_int_eq_self)

lemma take_bit_fits:
  fixes v :: int
  assumes "0 \<le> v" and "v < 2 ^ n"
  shows "take_bit n v = v"
  using assms by (simp add: take_bit_int_eq_self)

section \<open>Bit masks on promoted bytes\<close>

text \<open>
  C++ promotes a byte to \<open>int\<close> before a bitwise operation, so the models apply masks to
  \<open>uint b\<close>. A low mask is a remainder, a high mask a multiple of a power of two, and the union
  of disjoint bit fields is their sum.
\<close>

lemma uint_byte_bounds [simp]: "uint (b :: byte) < 256"
  using uint_lt2p [of b] by simp

lemma int_and_low: "x AND (2 ^ n - 1) = x mod 2 ^ n" for x :: int
  by (simp add: take_bit_eq_mod [symmetric] take_bit_eq_mask mask_eq_exp_minus_1)

lemma low_masks [byte_simps]:
  "x AND 15 = x mod 16" "x AND 31 = x mod 32" "x AND 63 = x mod 64"
  "x AND 127 = x mod 128" "x AND 255 = x mod 256" "x AND 8191 = x mod 8192" for x :: int
  using int_and_low [of x 4] int_and_low [of x 5] int_and_low [of x 6] int_and_low [of x 7]
    int_and_low [of x 8] int_and_low [of x 13] by simp_all

lemma int_and_high:
  fixes x :: int
  assumes "0 \<le> x" and "x < 2 ^ (k + n)"
  shows "x AND push_bit k (mask n) = 2 ^ k * (x div 2 ^ k)"
proof -
  have "x AND push_bit k (mask n) = push_bit k (take_bit n (drop_bit k x))"
    by (rule bit_eqI) (auto simp: bit_simps)
  moreover have "take_bit n (drop_bit k x) = drop_bit k x"
  proof (rule take_bit_fits)
    have "0 \<le> x mod 2 ^ k" by simp
    then have "x div 2 ^ k * 2 ^ k \<le> x" using div_mult_mod_eq [of x "2 ^ k"] by linarith
    also have "x < 2 ^ n * 2 ^ k" using assms(2) by (simp add: power_add mult.commute)
    finally show "drop_bit k x < 2 ^ n"
      by (simp add: drop_bit_eq_div)
  qed (use assms in simp)
  ultimately show ?thesis by (simp add: push_bit_eq_mult drop_bit_eq_div mult.commute)
qed

lemma high_masks:
  "uint b AND 128 = 128 * (uint b div 128)" "uint b AND 192 = 64 * (uint b div 64)"
  "uint b AND 224 = 32 * (uint b div 32)" "uint b AND 240 = 16 * (uint b div 16)"
  "uint b AND 248 = 8 * (uint b div 8)" for b :: byte
  using int_and_high [of "uint b" 7 1] int_and_high [of "uint b" 6 2] int_and_high [of "uint b" 5 3]
    int_and_high [of "uint b" 4 4] int_and_high [of "uint b" 3 5]
  by (simp_all add: push_bit_eq_mult mask_eq_exp_minus_1)

lemma byte_classes [byte_simps]:
  "(uint b AND 128 = 0) = (uint b < 128)"
  "(uint b AND 192 = 128) = (128 \<le> uint b \<and> uint b < 192)"
  "(uint b AND 224 = 192) = (192 \<le> uint b \<and> uint b < 224)"
  "(uint b AND 240 = 224) = (224 \<le> uint b \<and> uint b < 240)" for b :: byte
proof -
  have "0 \<le> uint b" by simp
  then show "(uint b AND 128 = 0) = (uint b < 128)"
    "(uint b AND 192 = 128) = (128 \<le> uint b \<and> uint b < 192)"
    "(uint b AND 224 = 192) = (192 \<le> uint b \<and> uint b < 224)"
    "(uint b AND 240 = 224) = (224 \<le> uint b \<and> uint b < 240)"
    unfolding high_masks by presburger+
qed

lemma int_or_disjoint:
  fixes x y :: int
  assumes "0 \<le> y" and "y < 2 ^ k"
  shows "x * 2 ^ k OR y = x * 2 ^ k + y"
proof -
  have "x * 2 ^ k + y = x * 2 ^ k OR y"
  proof (rule disjunctive_add)
    fix n
    have "y = take_bit k y" using assms by (simp add: take_bit_fits)
    then have "bit y n \<Longrightarrow> n < k" by (metis bit_take_bit_iff)
    moreover have "bit (x * 2 ^ k) n \<Longrightarrow> k \<le> n"
      by (simp add: push_bit_eq_mult [symmetric] bit_simps)
    ultimately show "\<not> bit (x * 2 ^ k) n \<or> \<not> bit y n" by auto
  qed
  then show ?thesis by simp
qed

lemma uint_byte_of_int: "0 \<le> v \<Longrightarrow> v < 256 \<Longrightarrow> uint (word_of_int v :: byte) = v"
  by (simp add: uint_word_of_int)

section \<open>Lists\<close>

lemma take_drop_split3:
  "i \<le> j \<Longrightarrow> j \<le> length xs \<Longrightarrow> take i xs @ take (j - i) (drop i xs) @ drop j xs = xs"
  by (metis append_take_drop_id drop_drop le_add_diff_inverse2)

text \<open>Reading the \<open>i\<close>-th fixed-width chunk of a concatenation, and the converse.\<close>

lemma chunk_nth:
  assumes "\<And>x. x \<in> set xs \<Longrightarrow> length (f x) = w" and "i < length xs"
  shows "take w (drop (i * w) (concat (map f xs) @ rest)) = f (xs ! i)"
  using assms
proof (induction xs arbitrary: i)
  case (Cons x xs)
  then show ?case by (cases i) auto
qed simp

lemma length_concat_chunks:
  "(\<And>x. x \<in> set xs \<Longrightarrow> length (f x) = w) \<Longrightarrow> length (concat (map f xs)) = length xs * w"
  by (induction xs) auto

lemma concat_chunks:
  "length bs = n * w \<Longrightarrow> concat (map (\<lambda>i. take w (drop (i * w) bs)) [0..<n]) = bs"
proof (induction n arbitrary: bs)
  case (Suc n)
  have "map (\<lambda>i. take w (drop (i * w) bs)) [0..<Suc n]
      = take w bs # map (\<lambda>i. take w (drop (i * w) (drop w bs))) [0..<n]"
    by (simp add: upt_conv_Cons map_Suc_upt [symmetric] comp_def add.commute del: upt_Suc)
  moreover have "concat (map (\<lambda>i. take w (drop (i * w) (drop w bs))) [0..<n]) = drop w bs"
    using Suc.prems by (intro Suc.IH) simp
  ultimately show ?case by simp
qed simp

text \<open>The first index that satisfies a predicate on the index and the element.\<close>

fun find_idx :: "(nat \<Rightarrow> 'a \<Rightarrow> bool) \<Rightarrow> nat \<Rightarrow> 'a list \<Rightarrow> nat option" where
  "find_idx P i [] = None"
| "find_idx P i (x # xs) = (if P i x then Some i else find_idx P (Suc i) xs)"

lemma find_idx_None: "find_idx P i xs = None \<longleftrightarrow> (\<forall>j < length xs. \<not> P (i + j) (xs ! j))"
  by (induction xs arbitrary: i) (auto simp: less_Suc_eq_0_disj)

lemma find_idx_Some:
  "find_idx P i xs = Some k \<longleftrightarrow>
   (\<exists>m < length xs. k = i + m \<and> P k (xs ! m) \<and> (\<forall>j < m. \<not> P (i + j) (xs ! j)))"
proof (induction xs arbitrary: i)
  case Nil
  then show ?case by simp
next
  case (Cons x xs)
  show ?case
    by (cases "P i x") (auto simp: Cons.IH [of "Suc i"] Ex_less_Suc2 All_less_Suc2)
qed

end
