(* ===== verification/Interfaces.thy ===== *)
theory Interfaces
  imports Prelude
begin

text \<open>
  The contracts between the components, as locales. \<open>seq_impl\<close> is what the collections need of
  a listpack, \<open>map_impl\<close> what the keyspace and the collections need of a hash table, and
  \<open>set_impl\<close> what the set commands need of a set encoding. Client lemmas are proved here once;
  each locale is interpreted on the models that provide it.
\<close>

section \<open>Flat pairs\<close>

text \<open>Hashes and sorted sets keep their pairs flat in one sequence.\<close>

fun flat :: "('a \<times> 'a) list \<Rightarrow> 'a list" where
  "flat [] = []"
| "flat ((k, v) # ps) = k # v # flat ps"

lemma length_flat [simp]: "length (flat ps) = 2 * length ps"
  by (induction ps rule: flat.induct) simp_all

lemma flat_append [simp]: "flat (ps @ qs) = flat ps @ flat qs"
  by (induction ps rule: flat.induct) simp_all

lemma flat_nth: "i < length ps \<Longrightarrow> flat ps ! (2 * i) = fst (ps ! i) \<and> flat ps ! Suc (2 * i) = snd (ps ! i)"
proof (induction ps arbitrary: i rule: flat.induct)
  case (2 k v ps)
  then show ?case by (cases i) simp_all
qed simp

lemma take_flat: "take (2 * i) (flat ps) = flat (take i ps)"
proof (induction ps arbitrary: i rule: flat.induct)
  case (2 k v ps)
  then show ?case by (cases i) simp_all
qed simp

lemma drop_flat: "drop (2 * i) (flat ps) = flat (drop i ps)"
proof (induction ps arbitrary: i rule: flat.induct)
  case (2 k v ps)
  then show ?case by (cases i) simp_all
qed simp

lemma flat_update: "i < length ps \<Longrightarrow> (flat ps)[Suc (2 * i) := v] = flat (ps[i := (fst (ps ! i), v)])"
proof (induction ps arbitrary: i rule: flat.induct)
  case (2 k w ps)
  then show ?case by (cases i) simp_all
qed simp

lemma find_flat:
  "find_idx (\<lambda>i u. i mod 2 = 0 \<and> u = k) (2 * n) (flat ps) =
   map_option ((*) 2) (find_idx (\<lambda>_ p. fst p = k) n ps)"
proof (induction ps arbitrary: n rule: flat.induct)
  case (2 k' v ps)
  from 2 [of "Suc n"] show ?case by simp
qed simp

lemma find_key_Some_shift:
  "find_idx (\<lambda>_ p. fst p = k) n ps = Some m \<Longrightarrow>
   \<exists>i < length ps. m = n + i \<and> fst (ps ! i) = k \<and> map_of ps k = Some (snd (ps ! i)) \<and>
     (\<forall>j < i. fst (ps ! j) \<noteq> k)"
proof (induction ps arbitrary: n)
  case (Cons p ps)
  show ?case
  proof (cases "fst p = k")
    case True
    with Cons.prems show ?thesis by (intro exI [of _ 0]) (cases p, auto)
  next
    case False
    with Cons obtain i where "i < length ps" "m = Suc n + i" "fst (ps ! i) = k"
      "map_of ps k = Some (snd (ps ! i))" "\<forall>j < i. fst (ps ! j) \<noteq> k" by fastforce
    with False show ?thesis by (intro exI [of _ "Suc i"]) (cases p, auto simp: All_less_Suc2)
  qed
qed simp

lemma find_key_Some:
  assumes "find_idx (\<lambda>_ p. fst p = k) 0 ps = Some i"
  shows "i < length ps" "fst (ps ! i) = k" "map_of ps k = Some (snd (ps ! i))" "\<forall>j < i. fst (ps ! j) \<noteq> k"
  using find_key_Some_shift [OF assms] by auto

lemma find_key_None: "find_idx (\<lambda>_ p. fst p = k) n ps = None \<longleftrightarrow> map_of ps k = None"
  by (induction ps arbitrary: n) auto

text \<open>Deleting and overwriting the pair at a position, on the map the pairs stand for.\<close>

lemma map_of_delete_at:
  "distinct (map fst ps) \<Longrightarrow> i < length ps \<Longrightarrow>
   map_of (take i ps @ drop (Suc i) ps) = (map_of ps)(fst (ps ! i) := None)"
proof (induction ps arbitrary: i)
  case (Cons p ps)
  show ?case
  proof (cases i)
    case 0
    with Cons.prems have "map_of ps (fst p) = None" by (simp add: map_of_eq_None_iff)
    with 0 show ?thesis by (cases p) auto
  next
    case (Suc j)
    with Cons.prems have "fst p \<noteq> fst (ps ! j)" by (metis distinct.simps(2) length_Cons length_map
      list.simps(9) not_less_eq nth_map nth_mem)
    with Cons.IH [of j] Cons.prems Suc show ?thesis by (cases p) (auto simp: fun_upd_twist)
  qed
qed simp

lemma distinct_delete_at:
  assumes "distinct (map fst ps)"
  shows "distinct (map fst (take i ps @ drop (Suc i) ps))"
proof (cases "i < length ps")
  case True
  then have "ps = take i ps @ ps ! i # drop (Suc i) ps" by (simp add: id_take_nth_drop)
  with assms have "distinct (map fst (take i ps @ ps ! i # drop (Suc i) ps))" by metis
  then show ?thesis by auto
qed (use assms in simp)

lemma map_of_update_at:
  assumes "i < length ps" and "\<forall>j < i. fst (ps ! j) \<noteq> fst (ps ! i)"
  shows "map_of (ps[i := (fst (ps ! i), v)]) = (map_of ps)(fst (ps ! i) \<mapsto> v)"
  using assms
proof (induction ps arbitrary: i)
  case (Cons p ps)
  show ?case
  proof (cases i)
    case 0
    then show ?thesis by (cases p) auto
  next
    case (Suc j)
    with Cons.prems have "fst p \<noteq> fst (ps ! j)" "\<forall>m < j. fst (ps ! m) \<noteq> fst (ps ! j)" by auto
    with Cons.IH [of j] Cons.prems Suc show ?thesis by (cases p) (auto simp: fun_upd_twist)
  qed
qed simp

lemma keys_update_at: "i < length ps \<Longrightarrow> map fst (ps[i := (fst (ps ! i), v)]) = map fst ps"
  by (simp add: map_update list_update_same_conv)

section \<open>Sequences\<close>

text \<open>
  The contract of a packed sequence. \<open>rep s xs\<close> says that \<open>s\<close> stores \<open>xs\<close>; an element must
  satisfy \<open>fits\<close> to be stored. The client lemmas treat a sequence that stores flat pairs with
  distinct keys as the finite map of those pairs.
\<close>

locale seq_impl =
  fixes rep :: "'s \<Rightarrow> 'a list \<Rightarrow> bool"
    and fits :: "'a \<Rightarrow> bool"
    and new :: 's
    and append :: "'a \<Rightarrow> 's \<Rightarrow> 's"
    and count :: "'s \<Rightarrow> nat"
    and get :: "'s \<Rightarrow> nat \<Rightarrow> 'a option"
    and find :: "'s \<Rightarrow> 'a \<Rightarrow> nat \<Rightarrow> nat \<Rightarrow> nat option"
    and erase :: "nat \<Rightarrow> nat \<Rightarrow> 's \<Rightarrow> bool \<times> 's"
    and replace :: "nat \<Rightarrow> 'a \<Rightarrow> 's \<Rightarrow> bool \<times> 's"
    and insert :: "nat \<Rightarrow> 'a \<Rightarrow> 's \<Rightarrow> bool \<times> 's"
  assumes rep_new: "rep new []"
    and rep_append: "rep s xs \<Longrightarrow> fits x \<Longrightarrow> rep (append x s) (xs @ [x])"
    and rep_count: "rep s xs \<Longrightarrow> count s = length xs"
    and rep_get: "rep s xs \<Longrightarrow> get s i = (if i < length xs then Some (xs ! i) else None)"
    and rep_find: "rep s xs \<Longrightarrow>
      find s x start step = find_idx (\<lambda>i u. start \<le> i \<and> (i - start) mod step = 0 \<and> u = x) 0 xs"
    and rep_erase: "rep s xs \<Longrightarrow> i < length xs \<Longrightarrow> i + n \<le> length xs \<Longrightarrow>
      \<exists>s'. erase i n s = (True, s') \<and> rep s' (take i xs @ drop (i + n) xs)"
    and rep_replace: "rep s xs \<Longrightarrow> i < length xs \<Longrightarrow> fits x \<Longrightarrow>
      \<exists>s'. replace i x s = (True, s') \<and> rep s' (xs[i := x])"
    and rep_insert: "rep s xs \<Longrightarrow> i \<le> length xs \<Longrightarrow> fits x \<Longrightarrow>
      \<exists>s'. insert i x s = (True, s') \<and> rep s' (take i xs @ x # drop i xs)"
begin

lemma append_all: "rep s xs \<Longrightarrow> list_all fits ys \<Longrightarrow> rep (fold append ys s) (xs @ ys)"
proof (induction ys arbitrary: s xs)
  case (Cons y ys)
  from Cons.IH [of "append y s" "xs @ [y]"] Cons.prems show ?case by (simp add: rep_append)
qed simp

lemma find_plain_None: "rep s xs \<Longrightarrow> find s x 0 1 = None \<longleftrightarrow> x \<notin> set xs"
  by (auto simp: rep_find find_idx_None in_set_conv_nth)

lemma find_plain_Some: "rep s xs \<Longrightarrow> find s x 0 1 = Some i \<Longrightarrow> i < length xs \<and> xs ! i = x"
  by (auto simp: rep_find find_idx_Some)

lemma find_pair:
  "rep s (flat ps) \<Longrightarrow> find s k 0 2 = map_option ((*) 2) (find_idx (\<lambda>_ p. fst p = k) 0 ps)"
  using find_flat [of k 0 ps] by (simp add: rep_find)

lemma find_pair_None: "rep s (flat ps) \<Longrightarrow> find s k 0 2 = None \<longleftrightarrow> map_of ps k = None"
  by (simp add: find_pair find_key_None)

lemma find_pair_Some:
  assumes "rep s (flat ps)" and "find s k 0 2 = Some j"
  obtains i where "j = 2 * i" "i < length ps" "fst (ps ! i) = k" "map_of ps k = Some (snd (ps ! i))"
    "\<forall>m < i. fst (ps ! m) \<noteq> k"
  using assms find_key_Some [of k ps] by (auto simp: find_pair)

lemma get_pair:
  assumes "rep s (flat ps)" and "find s k 0 2 = Some j"
  shows "get s (j + 1) = map_of ps k"
proof -
  from assms obtain i where i: "j = 2 * i" "i < length ps" "map_of ps k = Some (snd (ps ! i))"
    by (rule find_pair_Some)
  with assms(1) flat_nth [of i ps] show ?thesis by (simp add: rep_get)
qed

lemma erase_pair:
  assumes "rep s (flat ps)" and "distinct (map fst ps)" and "find s k 0 2 = Some j"
  obtains s' qs where "erase j 2 s = (True, s')" "rep s' (flat qs)" "distinct (map fst qs)"
    "map_of qs = (map_of ps)(k := None)" "set qs \<subseteq> set ps"
proof -
  from assms(1,3) obtain i where i: "j = 2 * i" "i < length ps" "fst (ps ! i) = k"
    by (rule find_pair_Some)
  let ?qs = "take i ps @ drop (Suc i) ps"
  have "take j (flat ps) @ drop (j + 2) (flat ps) = flat ?qs"
    using take_flat [of i ps] drop_flat [of "Suc i" ps] i(1) by simp
  moreover have "j < length (flat ps)" "j + 2 \<le> length (flat ps)" using i by simp_all
  ultimately obtain s' where "erase j 2 s = (True, s')" "rep s' (flat ?qs)"
    using rep_erase [OF assms(1), of j 2] by auto
  moreover have "distinct (map fst ?qs)" using assms(2) by (rule distinct_delete_at)
  moreover have "map_of ?qs = (map_of ps)(k := None)"
    using map_of_delete_at [OF assms(2) i(2)] i(3) by simp
  moreover have "set ?qs \<subseteq> set ps" by (auto dest: in_set_takeD in_set_dropD)
  ultimately show thesis by (rule that)
qed

lemma replace_pair:
  assumes "rep s (flat ps)" and "find s k 0 2 = Some j" and "fits v"
  obtains s' qs where "replace (j + 1) v s = (True, s')" "rep s' (flat qs)"
    "map fst qs = map fst ps" "map_of qs = (map_of ps)(k \<mapsto> v)"
proof -
  from assms(1,2) obtain i where i: "j = 2 * i" "i < length ps" "fst (ps ! i) = k"
      "\<forall>m < i. fst (ps ! m) \<noteq> k"
    by (rule find_pair_Some)
  let ?qs = "ps[i := (fst (ps ! i), v)]"
  have "(flat ps)[j + 1 := v] = flat ?qs" using flat_update [OF i(2), of v] i(1) by simp
  moreover have "j + 1 < length (flat ps)" using i by simp
  ultimately obtain s' where "replace (j + 1) v s = (True, s')" "rep s' (flat ?qs)"
    using rep_replace [OF assms(1) _ assms(3), of "j + 1"] by auto
  moreover have "map fst ?qs = map fst ps" using i(2) by (rule keys_update_at)
  moreover have "map_of ?qs = (map_of ps)(k \<mapsto> v)" using map_of_update_at [OF i(2), of v] i(3,4) by simp
  ultimately show thesis by (rule that)
qed

lemma append_pair:
  assumes "rep s (flat ps)" and "fits k" and "fits v"
  shows "rep (append v (append k s)) (flat (ps @ [(k, v)]))"
  using rep_append [OF rep_append [OF assms(1,2)] assms(3)] by simp

end

section \<open>Finite maps\<close>

text \<open>
  The contract of a mutable map: \<open>find\<close> may reorganise the structure but not its contents,
  \<open>insert\<close> and \<open>erase\<close> are function update, and the boolean results say whether the key was
  new or present.
\<close>

locale map_impl =
  fixes invar :: "'m \<Rightarrow> bool"
    and fits :: "'k \<Rightarrow> 'v \<Rightarrow> bool"
    and lookup :: "'m \<Rightarrow> 'k \<Rightarrow> 'v option"
    and find :: "'k \<Rightarrow> 'm \<Rightarrow> 'v option \<times> 'm"
    and insert :: "'k \<Rightarrow> 'v \<Rightarrow> 'm \<Rightarrow> bool \<times> 'm"
    and erase :: "'k \<Rightarrow> 'm \<Rightarrow> bool \<times> 'm"
    and size :: "'m \<Rightarrow> nat"
    and entries :: "'m \<Rightarrow> ('k \<times> 'v) list"
  assumes find: "invar m \<Longrightarrow> find k m = (r, m') \<Longrightarrow> r = lookup m k \<and> invar m' \<and> lookup m' = lookup m"
    and insert: "invar m \<Longrightarrow> fits k v \<Longrightarrow> insert k v m = (new, m') \<Longrightarrow>
      new = (lookup m k = None) \<and> invar m' \<and> lookup m' = (lookup m)(k \<mapsto> v)"
    and erase: "invar m \<Longrightarrow> erase k m = (found, m') \<Longrightarrow>
      found = (lookup m k \<noteq> None) \<and> invar m' \<and> lookup m' = (lookup m)(k := None)"
    and size: "invar m \<Longrightarrow> size m = length (entries m)"
    and entries: "invar m \<Longrightarrow> distinct (map fst (entries m)) \<and> map_of (entries m) = lookup m"
begin

lemma fst_find: "invar m \<Longrightarrow> fst (find k m) = lookup m k"
  using find [of m k] by (cases "find k m") simp

lemma fst_insert: "invar m \<Longrightarrow> fits k v \<Longrightarrow> fst (insert k v m) \<longleftrightarrow> lookup m k = None"
  using insert [of m k v] by (cases "insert k v m") simp

lemma snd_insert: "invar m \<Longrightarrow> fits k v \<Longrightarrow> invar (snd (insert k v m)) \<and> lookup (snd (insert k v m)) = (lookup m)(k \<mapsto> v)"
  using insert [of m k v] by (cases "insert k v m") simp

lemma fst_erase: "invar m \<Longrightarrow> fst (erase k m) \<longleftrightarrow> lookup m k \<noteq> None"
  using erase [of m k] by (cases "erase k m") simp

lemma snd_erase: "invar m \<Longrightarrow> invar (snd (erase k m)) \<and> lookup (snd (erase k m)) = (lookup m)(k := None)"
  using erase [of m k] by (cases "erase k m") simp

lemma size_card: "invar m \<Longrightarrow> size m = card (dom (lookup m))"
proof -
  assume i: "invar m"
  then have "dom (lookup m) = fst ` set (entries m)" by (metis dom_map_of_conv_image_fst entries)
  moreover have "card (fst ` set (entries m)) = length (entries m)"
    using entries [OF i] distinct_card [of "map fst (entries m)"] by simp
  ultimately show ?thesis using size [OF i] by simp
qed

lemma finite_dom: "invar m \<Longrightarrow> finite (dom (lookup m))"
  by (metis entries finite_dom_map_of)

text \<open>Bulk insertion, as the encoding conversions do it.\<close>

lemma insert_all:
  "invar m \<Longrightarrow> distinct (map fst ps) \<Longrightarrow> \<forall>(k, v) \<in> set ps. fits k v \<Longrightarrow>
   invar (fold (\<lambda>(k, v) m. snd (insert k v m)) ps m) \<and>
   lookup (fold (\<lambda>(k, v) m. snd (insert k v m)) ps m) = lookup m ++ map_of ps"
proof (induction ps arbitrary: m)
  case (Cons p ps)
  obtain k v where p: "p = (k, v)" by (cases p)
  let ?m = "snd (insert k v m)"
  have m: "invar ?m" "lookup ?m = (lookup m)(k \<mapsto> v)" using snd_insert [OF Cons.prems(1)] Cons.prems(3) by (simp_all add: p)
  have "map_of ps k = None" using Cons.prems(2) by (simp add: p map_of_eq_None_iff)
  then have e: "lookup ?m ++ map_of ps = lookup m ++ map_of ((k, v) # ps)"
    by (auto simp: m(2) map_add_def fun_eq_iff split: option.splits)
  have "distinct (map fst ps)" using Cons.prems(2) by simp
  moreover have "\<forall>(k, v) \<in> set ps. fits k v" using Cons.prems(3) by simp
  ultimately show ?case using Cons.IH [OF m(1)] e by (simp only: p fold_simps prod.case)
qed simp

end

section \<open>Sets\<close>

locale set_impl =
  fixes invar :: "'s \<Rightarrow> bool"
    and elems :: "'s \<Rightarrow> 'a set"
    and fits :: "'a \<Rightarrow> bool"
    and contains :: "'a \<Rightarrow> 's \<Rightarrow> bool \<times> 's"
    and add :: "'a \<Rightarrow> 's \<Rightarrow> bool \<times> 's"
    and remove :: "'a \<Rightarrow> 's \<Rightarrow> bool \<times> 's"
    and size :: "'s \<Rightarrow> nat"
  assumes contains: "invar s \<Longrightarrow> fits x \<Longrightarrow> contains x s = (found, s') \<Longrightarrow>
      found = (x \<in> elems s) \<and> invar s' \<and> elems s' = elems s"
    and add: "invar s \<Longrightarrow> fits x \<Longrightarrow> add x s = (new, s') \<Longrightarrow>
      new = (x \<notin> elems s) \<and> invar s' \<and> elems s' = insert x (elems s)"
    and remove: "invar s \<Longrightarrow> fits x \<Longrightarrow> remove x s = (found, s') \<Longrightarrow>
      found = (x \<in> elems s) \<and> invar s' \<and> elems s' = elems s - {x}"
    and size: "invar s \<Longrightarrow> finite (elems s) \<and> size s = card (elems s)"
begin

text \<open>Adding a list of members while counting the new ones, the loop of \<open>SADD\<close>.\<close>

lemma add_all:
  "invar s \<Longrightarrow> list_all fits xs \<Longrightarrow>
   fold (\<lambda>x (n, s). let (new, s') = add x s in (if new then n + 1 else n, s')) xs (n, s) = (n', s') \<Longrightarrow>
   invar s' \<and> elems s' = elems s \<union> set xs \<and> n' = n + card (set xs - elems s)"
proof (induction xs arbitrary: n s)
  case (Cons x xs)
  obtain new s1 where a: "add x s = (new, s1)" by (cases "add x s")
  have s1: "new = (x \<notin> elems s)" "invar s1" "elems s1 = insert x (elems s)"
    using add [OF _ _ a] Cons.prems by auto
  have "invar s' \<and> elems s' = elems s1 \<union> set xs \<and>
      n' = (if new then n + 1 else n) + card (set xs - elems s1)"
    using Cons.IH [of s1 "if new then n + 1 else n"] Cons.prems s1(2) by (simp add: a)
  moreover have "card (set (x # xs) - elems s) = (if new then 1 else 0) + card (set xs - elems s1)"
  proof (cases new)
    case True
    with s1 have "set (x # xs) - elems s = insert x (set xs - elems s1)" by auto
    with True s1(3) show ?thesis by simp
  next
    case False
    with s1 have "set (x # xs) - elems s = set xs - elems s1" by auto
    with False show ?thesis by simp
  qed
  ultimately show ?case using s1(3) by auto
qed simp

end

end
