(* ===== verification/Intset.thy ===== *)
theory Intset
  imports Interfaces
begin

text \<open>
  Model of \<open>src/core/intset.h\<close> and \<open>src/core/intset.cpp\<close>: the sorted integer array behind a
  small all-integer set. The record keeps the two members of the class, the binary search of
  the standard library is modelled as the loop it runs, and every member function is one
  definition. The lemmas show that the array stays strictly sorted and within its width,
  that the operations are those of a finite set of integers, and that the serialised form
  used by the snapshot writer is a bijective encoding of the well-formed values.
\<close>

section \<open>State\<close>

datatype Width = Int16 | Int32 | Int64

fun widthBytes :: "Width \<Rightarrow> nat" where
  "widthBytes Int16 = 2"
| "widthBytes Int32 = 4"
| "widthBytes Int64 = 8"

record intset =
  is_values :: "int list"
  is_width :: Width

definition intset_new :: intset where
  "intset_new = \<lparr>is_values = [], is_width = Int16\<rparr>"

section \<open>Operations\<close>

text \<open>\<open>std::lower_bound\<close> on a random-access range, and \<open>std::binary_search\<close> on top of it.\<close>

function lowerBoundLoop :: "int list \<Rightarrow> int \<Rightarrow> nat \<Rightarrow> nat \<Rightarrow> nat" where
  "lowerBoundLoop xs v first len =
     (if len = 0 then first
      else let half = len div 2; mid = first + half in
        if xs ! mid < v then lowerBoundLoop xs v (mid + 1) (len - half - 1)
        else lowerBoundLoop xs v first half)"
  by pat_completeness auto
termination
  by (relation "measure (\<lambda>(xs, v, first, len). len)") auto

declare lowerBoundLoop.simps [simp del]

definition lower_bound :: "int list \<Rightarrow> int \<Rightarrow> nat" where
  "lower_bound xs v = lowerBoundLoop xs v 0 (length xs)"

definition binary_search :: "int list \<Rightarrow> int \<Rightarrow> bool" where
  "binary_search xs v =
     (let it = lower_bound xs v in it \<noteq> length xs \<and> \<not> v < xs ! it)"

definition widthFor :: "int \<Rightarrow> Width" where
  "widthFor value =
     (if - 32768 \<le> value \<and> value \<le> 32767 then Int16
      else if - 2147483648 \<le> value \<and> value \<le> 2147483647 then Int32
      else Int64)"

definition upgradeTo :: "Width \<Rightarrow> intset \<Rightarrow> intset" where
  "upgradeTo width s =
     (if widthBytes width > widthBytes (is_width s) then s\<lparr>is_width := width\<rparr> else s)"

definition is_contains :: "intset \<Rightarrow> int \<Rightarrow> bool" where
  "is_contains s value = binary_search (is_values s) value"

definition is_add :: "int \<Rightarrow> intset \<Rightarrow> bool \<times> intset" where
  "is_add value s =
     (let it = lower_bound (is_values s) value in
      if it \<noteq> length (is_values s) \<and> is_values s ! it = value then (False, s)
      else let s' = upgradeTo (widthFor value) s in
        (True, s'\<lparr>is_values := take it (is_values s') @ value # drop it (is_values s')\<rparr>))"

definition is_remove :: "int \<Rightarrow> intset \<Rightarrow> bool \<times> intset" where
  "is_remove value s =
     (let it = lower_bound (is_values s) value in
      if it = length (is_values s) \<or> is_values s ! it \<noteq> value then (False, s)
      else (True, s\<lparr>is_values := take it (is_values s) @ drop (Suc it) (is_values s)\<rparr>))"

definition is_size :: "intset \<Rightarrow> nat" where
  "is_size s = length (is_values s)"

definition is_byteSize :: "intset \<Rightarrow> nat" where
  "is_byteSize s = 8 + length (is_values s) * widthBytes (is_width s)"

definition is_clear :: "intset \<Rightarrow> intset" where
  "is_clear s = s\<lparr>is_values := [], is_width := Int16\<rparr>"

definition is_toBytes :: "intset \<Rightarrow> bytes" where
  "is_toBytes s =
     le_bytes 4 (int (widthBytes (is_width s))) @
     le_bytes 4 (int (length (is_values s))) @
     concat (map (le_bytes (widthBytes (is_width s))) (is_values s))"

definition is_readLE32 :: "bytes \<Rightarrow> nat" where
  "is_readLE32 p = nat (le_value (take 4 p))"

definition readSigned :: "bytes \<Rightarrow> nat \<Rightarrow> int" where
  "readSigned p width =
     (let raw = le_value (take width p) in
      if width = 2 then signed_take_bit 15 raw
      else if width = 4 then signed_take_bit 31 raw
      else signed_take_bit 63 raw)"

fun widthOf :: "nat \<Rightarrow> Width option" where
  "widthOf n = (if n = 2 then Some Int16 else if n = 4 then Some Int32
                else if n = 8 then Some Int64 else None)"

text \<open>The final loop of \<open>fromBytes\<close>: every element is greater than its predecessor.\<close>

fun ascending :: "int list \<Rightarrow> bool" where
  "ascending (x # y # xs) = (\<not> y \<le> x \<and> ascending (y # xs))"
| "ascending _ = True"

definition is_fromBytes :: "bytes \<Rightarrow> intset option" where
  "is_fromBytes bytes =
     (if length bytes < 8 then None
      else case widthOf (is_readLE32 bytes) of
        None \<Rightarrow> None
      | Some w \<Rightarrow>
          let count = is_readLE32 (drop 4 bytes); width = widthBytes w in
          if length bytes \<noteq> 8 + count * width then None
          else
            let vals = map (\<lambda>i. readSigned (drop (8 + i * width) bytes) width) [0..<count] in
            if ascending vals then Some \<lparr>is_values = vals, is_width = w\<rparr> else None)"

section \<open>Invariant\<close>

definition intset_invar :: "intset \<Rightarrow> bool" where
  "intset_invar s \<longleftrightarrow>
     sorted_wrt (<) (is_values s) \<and>
     (\<forall>v \<in> set (is_values s). is_int64 v \<and> widthBytes (widthFor v) \<le> widthBytes (is_width s))"

lemma intset_invar_new: "intset_invar intset_new"
  by (simp add: intset_invar_def intset_new_def)

section \<open>Binary search\<close>

lemma lowerBoundLoop_correct:
  assumes "sorted_wrt (<) xs" and "first + len \<le> length xs"
    and "\<forall>j < first. xs ! j < v" and "\<forall>j. first + len \<le> j \<and> j < length xs \<longrightarrow> v \<le> xs ! j"
  shows "let k = lowerBoundLoop xs v first len in
      k \<le> length xs \<and> (\<forall>j < k. xs ! j < v) \<and> (\<forall>j. k \<le> j \<and> j < length xs \<longrightarrow> v \<le> xs ! j)"
  using assms
proof (induction xs v first len rule: lowerBoundLoop.induct)
  case (1 xs v first len)
  note srt = 1(3) and bnd = 1(4) and lo = 1(5) and hi = 1(6)
  show ?case
  proof (cases "len = 0")
    case True
    then show ?thesis using 1 by (simp add: lowerBoundLoop.simps Let_def)
  next
    case False
    let ?half = "len div 2" let ?mid = "first + ?half"
    have mid: "?mid < length xs" using False bnd by linarith
    have nth: "xs ! i < xs ! j" if "i < j" "j < length xs" for i j
      using srt that by (simp add: sorted_wrt_nth_less)
    show ?thesis
    proof (cases "xs ! ?mid < v")
      case True
      have "\<forall>j < ?mid + 1. xs ! j < v"
        using True nth mid by (metis Suc_eq_plus1 less_Suc_eq less_trans)
      moreover have "?mid + 1 + (len - ?half - 1) = first + len" using False by linarith
      ultimately have "let k = lowerBoundLoop xs v (?mid + 1) (len - ?half - 1) in
          k \<le> length xs \<and> (\<forall>j < k. xs ! j < v) \<and> (\<forall>j. k \<le> j \<and> j < length xs \<longrightarrow> v \<le> xs ! j)"
        using 1(1) [OF False refl refl True srt] bnd hi by simp
      then show ?thesis
        using False True by (subst lowerBoundLoop.simps) (simp add: Let_def)
    next
      case F: False
      have "\<forall>j. first + ?half \<le> j \<and> j < length xs \<longrightarrow> v \<le> xs ! j"
        using F nth by (metis le_neq_implies_less not_less order.strict_trans1 order_less_imp_le)
      then have "let k = lowerBoundLoop xs v first ?half in
          k \<le> length xs \<and> (\<forall>j < k. xs ! j < v) \<and> (\<forall>j. k \<le> j \<and> j < length xs \<longrightarrow> v \<le> xs ! j)"
        using 1(2) [OF False refl refl F srt] mid lo by simp
      then show ?thesis
        using False F by (subst lowerBoundLoop.simps) (simp add: Let_def)
    qed
  qed
qed

lemma lower_bound_spec:
  assumes "sorted_wrt (<) xs"
  shows "lower_bound xs v \<le> length xs"
    and "\<And>j. j < lower_bound xs v \<Longrightarrow> xs ! j < v"
    and "\<And>j. lower_bound xs v \<le> j \<Longrightarrow> j < length xs \<Longrightarrow> v \<le> xs ! j"
  using lowerBoundLoop_correct [OF assms, of 0 "length xs" v]
  by (simp_all add: lower_bound_def Let_def)

lemma lower_bound_mem:
  assumes "sorted_wrt (<) xs"
  shows "(lower_bound xs v \<noteq> length xs \<and> xs ! lower_bound xs v = v) = (v \<in> set xs)"
proof
  assume "lower_bound xs v \<noteq> length xs \<and> xs ! lower_bound xs v = v"
  then show "v \<in> set xs"
    using lower_bound_spec(1) [OF assms, of v] by (metis le_neq_implies_less nth_mem)
next
  assume "v \<in> set xs"
  then obtain j where j: "j < length xs" "xs ! j = v" by (auto simp: in_set_conv_nth)
  let ?k = "lower_bound xs v"
  have "?k \<le> j" using lower_bound_spec(2) [OF assms, of j v] j by force
  moreover have "\<not> ?k < j"
  proof
    assume "?k < j"
    then have "xs ! ?k < v" using assms j by (metis sorted_wrt_nth_less)
    moreover have "v \<le> xs ! ?k"
      using lower_bound_spec(3) [OF assms, of v ?k] \<open>?k < j\<close> j by simp
    ultimately show False by simp
  qed
  ultimately show "?k \<noteq> length xs \<and> xs ! ?k = v" using j by simp
qed

lemma binary_search_mem:
  assumes "sorted_wrt (<) xs"
  shows "binary_search xs v = (v \<in> set xs)"
proof -
  let ?k = "lower_bound xs v"
  have "(?k \<noteq> length xs \<and> \<not> v < xs ! ?k) = (?k \<noteq> length xs \<and> xs ! ?k = v)"
    using lower_bound_spec(1,3) [OF assms, of v] by (metis le_neq_implies_less order.order_iff_strict order_less_irrefl)
  then show ?thesis using lower_bound_mem [OF assms, of v] by (simp add: binary_search_def Let_def)
qed

lemma sorted_insert_at:
  assumes "sorted_wrt (<) xs" and "v \<notin> set xs"
  shows "sorted_wrt (<) (take (lower_bound xs v) xs @ v # drop (lower_bound xs v) xs)"
proof -
  let ?k = "lower_bound xs v"
  have "\<forall>x \<in> set (take ?k xs). x < v"
    using lower_bound_spec(2) [OF assms(1)] by (auto simp: in_set_conv_nth)
  moreover have "\<forall>x \<in> set (drop ?k xs). v < x"
  proof
    fix x assume x: "x \<in> set (drop ?k xs)"
    then obtain j where "j < length (drop ?k xs)" "x = drop ?k xs ! j" by (auto simp: in_set_conv_nth)
    then have "v \<le> x" using lower_bound_spec(3) [OF assms(1), of v "?k + j"] by simp
    moreover have "v \<noteq> x" using x assms(2) by (meson in_set_dropD)
    ultimately show "v < x" by simp
  qed
  ultimately show ?thesis
    using assms(1) by (fastforce simp: sorted_wrt_append sorted_wrt_take sorted_wrt_drop)
qed

section \<open>Operations keep the invariant and implement a finite set\<close>

lemma upgradeTo_simps [simp]:
  "is_values (upgradeTo w s) = is_values s"
  "widthBytes (is_width (upgradeTo w s)) = max (widthBytes w) (widthBytes (is_width s))"
  by (auto simp: upgradeTo_def)

lemma is_contains_correct: "intset_invar s \<Longrightarrow> is_contains s v = (v \<in> set (is_values s))"
  by (simp add: intset_invar_def is_contains_def binary_search_mem)

lemma is_add_present: "intset_invar s \<Longrightarrow> v \<in> set (is_values s) \<Longrightarrow> is_add v s = (False, s)"
  using lower_bound_mem [of "is_values s" v] by (simp add: intset_invar_def is_add_def Let_def)

lemma is_add_absent:
  assumes "intset_invar s" and "v \<notin> set (is_values s)" and "is_int64 v"
  shows "\<exists>s'. is_add v s = (True, s') \<and> intset_invar s' \<and>
              set (is_values s') = insert v (set (is_values s)) \<and>
              length (is_values s') = Suc (length (is_values s))"
proof -
  let ?k = "lower_bound (is_values s) v" and ?u = "upgradeTo (widthFor v) s"
  let ?s = "?u\<lparr>is_values := take ?k (is_values ?u) @ v # drop ?k (is_values ?u)\<rparr>"
  have srt: "sorted_wrt (<) (is_values s)" using assms(1) by (simp add: intset_invar_def)
  have eq: "is_add v s = (True, ?s)"
    using lower_bound_mem [OF srt, of v] assms(2) by (simp add: is_add_def Let_def)
  have elems: "set (take ?k (is_values s)) \<union> set (drop ?k (is_values s)) = set (is_values s)"
    by (metis append_take_drop_id set_append)
  have "intset_invar ?s"
    using assms sorted_insert_at [OF srt assms(2)] elems
    by (auto simp: intset_invar_def dest: in_set_takeD in_set_dropD)
  moreover have "set (is_values ?s) = insert v (set (is_values s))" using elems by auto
  moreover have "length (is_values ?s) = Suc (length (is_values s))"
    using lower_bound_spec(1) [OF srt, of v] by simp
  ultimately show ?thesis using eq by blast
qed

lemma is_remove_absent: "intset_invar s \<Longrightarrow> v \<notin> set (is_values s) \<Longrightarrow> is_remove v s = (False, s)"
  using lower_bound_mem [of "is_values s" v] by (auto simp: intset_invar_def is_remove_def Let_def)

lemma is_remove_present:
  assumes "intset_invar s" and "v \<in> set (is_values s)"
  shows "\<exists>s'. is_remove v s = (True, s') \<and> intset_invar s' \<and> is_width s' = is_width s \<and>
              set (is_values s') = set (is_values s) - {v} \<and>
              Suc (length (is_values s')) = length (is_values s)"
proof -
  let ?xs = "is_values s" let ?k = "lower_bound ?xs v"
  let ?s = "s\<lparr>is_values := take ?k ?xs @ drop (Suc ?k) ?xs\<rparr>"
  have srt: "sorted_wrt (<) ?xs" using assms(1) by (simp add: intset_invar_def)
  have k: "?k < length ?xs" "?xs ! ?k = v"
    using lower_bound_mem [OF srt, of v] lower_bound_spec(1) [OF srt, of v] assms(2) by auto
  then have split: "take ?k ?xs @ v # drop (Suc ?k) ?xs = ?xs" by (metis id_take_nth_drop)
  have eq: "is_remove v s = (True, ?s)" using k by (simp add: is_remove_def Let_def)
  have dist: "distinct ?xs" using srt by (simp add: strict_sorted_iff)
  have srt': "sorted_wrt (<) (take ?k ?xs @ drop (Suc ?k) ?xs)"
  proof -
    have "sorted_wrt (<) (take ?k ?xs @ v # drop (Suc ?k) ?xs)" using srt by (simp only: split)
    then show ?thesis by (simp add: sorted_wrt_append)
  qed
  have set': "set (take ?k ?xs @ drop (Suc ?k) ?xs) = set ?xs - {v}"
  proof -
    have d: "distinct (take ?k ?xs @ v # drop (Suc ?k) ?xs)" using dist by (simp only: split)
    have "set ?xs = set (take ?k ?xs @ v # drop (Suc ?k) ?xs)" by (simp only: split)
    then show ?thesis using d by auto
  qed
  have "intset_invar ?s" using assms(1) srt' set' by (auto simp: intset_invar_def)
  moreover have "Suc (length (is_values ?s)) = length ?xs" using k by simp
  ultimately show ?thesis using eq set' by auto
qed

lemma intset_invar_clear: "intset_invar (is_clear s)"
  by (simp add: intset_invar_def is_clear_def)

section \<open>The serialised form\<close>

lemma widthOf_widthBytes [simp]: "widthOf (widthBytes w) = Some w"
  by (cases w) simp_all

lemma widthBytes_inj: "widthBytes v = widthBytes w \<Longrightarrow> v = w"
  by (cases v; cases w) simp_all

lemma widthOf_Some: "widthOf n = Some w \<longleftrightarrow> n = widthBytes w"
  by (cases w) auto

lemma widthBytes_pos [simp]: "0 < widthBytes w"
  by (cases w) simp_all

text \<open>Which values a width can hold, as the range of the two's complement read.\<close>

lemma widthFor_fits:
  assumes "is_int64 v"
  shows "widthBytes (widthFor v) \<le> widthBytes w \<longleftrightarrow>
         - (2 ^ (8 * widthBytes w - 1)) \<le> v \<and> v < 2 ^ (8 * widthBytes w - 1)"
  using assms by (cases w) (auto simp: widthFor_def is_int64_def)

lemma readSigned_eq:
  "readSigned p (widthBytes w) = signed_take_bit (8 * widthBytes w - 1) (le_value (take (widthBytes w) p))"
  by (cases w) (simp_all add: readSigned_def)

lemma readSigned_le_bytes:
  assumes "is_int64 v" and "widthBytes (widthFor v) \<le> widthBytes w"
  shows "readSigned (le_bytes (widthBytes w) v @ rest) (widthBytes w) = v"
proof -
  let ?n = "8 * widthBytes w"
  have b: "- (2 ^ (?n - 1)) \<le> v" "v < 2 ^ (?n - 1)" using widthFor_fits [of v w] assms by blast+
  have "?n - 1 < ?n" by simp
  then show ?thesis
    using signed_take_bit_fits [OF b] by (simp add: readSigned_eq le_value_le_bytes)
qed

lemma readSigned_bounds:
  "is_int64 (readSigned p (widthBytes w)) \<and> widthBytes (widthFor (readSigned p (widthBytes w))) \<le> widthBytes w"
proof -
  let ?n = "8 * widthBytes w - 1" let ?r = "readSigned p (widthBytes w)"
  have r: "- (2 ^ ?n) \<le> ?r" "?r < 2 ^ ?n"
    unfolding readSigned_eq by (rule signed_take_bit_int_greater_eq_minus_exp, rule signed_take_bit_int_less_exp)
  have "is_int64 ?r" using r by (cases w) (auto simp: is_int64_def)
  then show ?thesis using widthFor_fits [of ?r w] r by blast
qed

lemma le_bytes_readSigned:
  assumes "length p = widthBytes w"
  shows "le_bytes (widthBytes w) (readSigned p (widthBytes w)) = p"
proof -
  let ?n = "widthBytes w"
  have "le_bytes ?n (readSigned p ?n) = le_bytes ?n (take_bit (8 * ?n) (readSigned p ?n))"
    by (metis le_value_le_bytes le_bytes_le_value length_le_bytes)
  also have "take_bit (8 * ?n) (readSigned p ?n) = take_bit (8 * ?n) (le_value p)"
    unfolding readSigned_eq using assms by (simp add: take_bit_signed_take_bit)
  also have "le_bytes ?n \<dots> = p"
    by (metis assms le_value_le_bytes le_bytes_le_value length_le_bytes)
  finally show ?thesis .
qed

lemma ascending_sorted: "ascending xs = sorted_wrt (<) xs"
proof (induction xs rule: ascending.induct)
  case (1 x y xs)
  then show ?case by (auto simp: not_le intro: order.strict_trans [of x y])
qed simp_all

lemma is_fromBytes_toBytes:
  assumes "intset_invar s" and "length (is_values s) < 2 ^ 32"
  shows "is_fromBytes (is_toBytes s) = Some s"
proof -
  let ?w = "is_width s" let ?n = "widthBytes ?w" let ?vs = "is_values s"
  let ?body = "concat (map (le_bytes ?n) ?vs)"
  have hd: "is_readLE32 (is_toBytes s) = ?n"
    by (cases ?w) (simp_all add: is_readLE32_def is_toBytes_def take_bit_eq_mod le_value_le_bytes)
  have cnt: "is_readLE32 (drop 4 (is_toBytes s)) = length ?vs"
    using assms(2)
    by (simp add: is_readLE32_def is_toBytes_def le_value_le_bytes take_bit_fits)
  have len: "length ?body = length ?vs * ?n" by (rule length_concat_chunks) simp
  have rd: "map (\<lambda>i. readSigned (drop (8 + i * ?n) (is_toBytes s)) ?n) [0..<length ?vs] = ?vs"
  proof (rule nth_equalityI)
    fix i assume "i < length (map (\<lambda>i. readSigned (drop (8 + i * ?n) (is_toBytes s)) ?n) [0..<length ?vs])"
    then have i: "i < length ?vs" by simp
    have "drop (8 + i * ?n) (is_toBytes s) = drop (i * ?n) ?body"
      by (simp add: is_toBytes_def drop_append)
    moreover have "take ?n (drop (i * ?n) ?body) = le_bytes ?n (?vs ! i)"
      using chunk_nth [of ?vs "le_bytes ?n" ?n i "[]"] i by simp
    ultimately have "readSigned (drop (8 + i * ?n) (is_toBytes s)) ?n = readSigned (le_bytes ?n (?vs ! i) @ []) ?n"
      by (simp add: readSigned_eq)
    also have "\<dots> = ?vs ! i"
      using assms(1) i by (intro readSigned_le_bytes) (simp_all add: intset_invar_def)
    finally show "map (\<lambda>i. readSigned (drop (8 + i * ?n) (is_toBytes s)) ?n) [0..<length ?vs] ! i = ?vs ! i"
      using i by simp
  qed simp
  have "length (is_toBytes s) = 8 + length ?vs * ?n" using len by (simp add: is_toBytes_def)
  moreover have "ascending ?vs" using assms(1) by (simp add: ascending_sorted intset_invar_def)
  ultimately show ?thesis
    using hd cnt rd by (simp add: is_fromBytes_def Let_def del: widthOf.simps)
qed

lemma is_readLE32_bytes: "4 \<le> length p \<Longrightarrow> le_bytes 4 (int (is_readLE32 p)) = take 4 p"
  using le_bytes_le_value [of "take 4 p"] le_value_nonneg [of "take 4 p"]
  by (simp add: is_readLE32_def min_def split: if_splits)

lemma is_fromBytes_values:
  assumes "length bs = 8 + c * widthBytes w"
  shows "concat (map (le_bytes (widthBytes w))
           (map (\<lambda>i. readSigned (drop (8 + i * widthBytes w) bs) (widthBytes w)) [0..<c])) = drop 8 bs"
proof -
  let ?n = "widthBytes w"
  have "le_bytes ?n (readSigned (drop (8 + i * ?n) bs) ?n) = take ?n (drop (i * ?n) (drop 8 bs))"
    if "i < c" for i
  proof -
    have "i * ?n + ?n \<le> c * ?n" using that by (metis Suc_leI add.commute mult_Suc mult_le_mono1)
    then have "length (take ?n (drop (8 + i * ?n) bs)) = ?n" using assms by simp
    then have "le_bytes ?n (readSigned (take ?n (drop (8 + i * ?n) bs)) ?n) = take ?n (drop (8 + i * ?n) bs)"
      by (rule le_bytes_readSigned)
    then show ?thesis by (simp add: readSigned_eq add.commute)
  qed
  then have "map (le_bytes ?n) (map (\<lambda>i. readSigned (drop (8 + i * ?n) bs) ?n) [0..<c])
      = map (\<lambda>i. take ?n (drop (i * ?n) (drop 8 bs))) [0..<c]" by simp
  moreover have "length (drop 8 bs) = c * ?n" using assms by simp
  ultimately show ?thesis by (simp only: concat_chunks)
qed

lemma is_fromBytes_sound:
  assumes "is_fromBytes bs = Some s"
  shows "intset_invar s \<and> is_toBytes s = bs \<and> length (is_values s) < 2 ^ 32"
proof -
  define c where "c = is_readLE32 (drop 4 bs)"
  from assms have len8: "8 \<le> length bs" by (auto simp: is_fromBytes_def split: if_splits)
  then obtain w where w: "widthOf (is_readLE32 bs) = Some w"
    using assms by (cases "widthOf (is_readLE32 bs)") (simp_all add: is_fromBytes_def del: widthOf.simps)
  let ?vs = "map (\<lambda>i. readSigned (drop (8 + i * widthBytes w) bs) (widthBytes w)) [0..<c]"
  have "is_fromBytes bs = (if length bs \<noteq> 8 + c * widthBytes w then None
         else if ascending ?vs then Some \<lparr>is_values = ?vs, is_width = w\<rparr> else None)"
    using len8 by (simp only: is_fromBytes_def w option.case Let_def c_def if_False linorder_not_less [symmetric])
  then have "(if length bs \<noteq> 8 + c * widthBytes w then None
         else if ascending ?vs then Some \<lparr>is_values = ?vs, is_width = w\<rparr> else None) = Some s"
    using assms by simp
  then have len: "length bs = 8 + c * widthBytes w" and asc: "ascending ?vs"
    and s: "s = \<lparr>is_values = ?vs, is_width = w\<rparr>"
    by (simp_all split: if_splits)
  have n: "is_readLE32 bs = widthBytes w" using w widthOf_Some by blast
  have "is_toBytes s = take 4 bs @ take 4 (drop 4 bs) @ drop 8 bs"
    using is_readLE32_bytes [of bs] is_readLE32_bytes [of "drop 4 bs"] len8 n is_fromBytes_values [OF len]
    by (simp add: is_toBytes_def s c_def)
  also have "\<dots> = bs" using take_drop_split3 [of 4 8 bs] len8 by simp
  finally have "is_toBytes s = bs" .
  moreover have "intset_invar s"
    using asc readSigned_bounds by (auto simp: intset_invar_def ascending_sorted s)
  moreover have "length (is_values s) = c" by (simp add: s)
  moreover have "c < 2 ^ 32"
    using le_value_less [of "take 4 (drop 4 bs)"] le_value_nonneg [of "take 4 (drop 4 bs)"] len8
    by (simp add: c_def is_readLE32_def nat_less_iff)
  ultimately show ?thesis by simp
qed

section \<open>The set contract and the properties\<close>

interpretation ints: set_impl intset_invar "\<lambda>s. set (is_values s)" is_int64 "\<lambda>v s. (is_contains s v, s)"
  is_add is_remove is_size
proof
  fix s v new s'
  assume i: "intset_invar s" and v: "is_int64 v"
  show "new = (v \<in> set (is_values s)) \<and> intset_invar s' \<and> set (is_values s') = set (is_values s)"
    if "(is_contains s v, s) = (new, s')"
    using that i is_contains_correct [OF i, of v] by auto
  show "new = (v \<notin> set (is_values s)) \<and> intset_invar s' \<and> set (is_values s') = insert v (set (is_values s))"
    if "is_add v s = (new, s')"
    using that is_add_present [OF i, of v] is_add_absent [OF i _ v] i
    by (cases "v \<in> set (is_values s)") auto
  show "new = (v \<in> set (is_values s)) \<and> intset_invar s' \<and> set (is_values s') = set (is_values s) - {v}"
    if "is_remove v s = (new, s')"
    using that is_remove_absent [OF i, of v] is_remove_present [OF i, of v] i
    by (cases "v \<in> set (is_values s)") auto
next
  fix s
  assume "intset_invar s"
  then have "distinct (is_values s)" by (simp add: intset_invar_def strict_sorted_iff)
  then show "finite (set (is_values s)) \<and> is_size s = card (set (is_values s))"
    by (simp add: is_size_def distinct_card)
qed

text \<open>C6: The intset is a set of 64-bit integers: membership, insertion and removal have set
  semantics and report whether anything changed, and every operation keeps the values strictly
  sorted and within the current width.\<close>

theorem intset_refines_set:
  assumes "intset_invar s" and "is_int64 v" and "is_add v s = (added, s1)" and "is_remove v s = (removed, s2)"
  shows "is_contains s v = (v \<in> set (is_values s)) \<and>
    intset_invar s1 \<and> set (is_values s1) = insert v (set (is_values s)) \<and> added = (v \<notin> set (is_values s)) \<and>
    intset_invar s2 \<and> set (is_values s2) = set (is_values s) - {v} \<and> removed = (v \<in> set (is_values s))"
  using ints.contains [OF assms(1,2) refl] ints.add [OF assms(1-3)] ints.remove [OF assms(1,2,4)] by simp

theorem intset_refines_set_witness:
  "is_add 70000 \<lparr>is_values = [- 5, 3], is_width = Int16\<rparr> = (True, \<lparr>is_values = [- 5, 3, 70000], is_width = Int32\<rparr>) \<and>
   intset_invar \<lparr>is_values = [- 5, 3, 70000], is_width = Int32\<rparr>"
proof -
  let ?s = "\<lparr>is_values = [- 5, 3], is_width = Int16\<rparr>"
  have a: "is_add 70000 ?s = (True, \<lparr>is_values = [- 5, 3, 70000], is_width = Int32\<rparr>)" by code_simp
  have r: "is_remove 70000 ?s = (False, ?s)" by code_simp
  have "intset_invar ?s" "is_int64 70000" by (simp_all add: intset_invar_def is_int64_def widthFor_def)
  from intset_refines_set [OF this a r] a show ?thesis by simp
qed

text \<open>C7: Serialising and adopting an intset are mutually inverse: the reader accepts exactly the
  byte strings the writer produces for valid sets of fewer than \<open>2\<^sup>3\<^sup>2\<close> members, and gives the
  set back with its width.\<close>

theorem intset_codec:
  "is_fromBytes bs = Some s \<longleftrightarrow>
   intset_invar s \<and> length (is_values s) < 2 ^ 32 \<and> bs = is_toBytes s"
  using is_fromBytes_toBytes is_fromBytes_sound by metis

end
