(* ===== verification/Encoding.thy ===== *)
theory Encoding
  imports Prelude
begin

text \<open>
  Model of \<open>src/core/encoding.h\<close> and \<open>src/core/encoding.cpp\<close>: the object types, the physical
  encodings, their names, and the strict integer parse \<open>stringToInt64\<close> that decides between
  the integer and the text representation everywhere in the server. The main result is that
  the parse accepts exactly the canonical decimal spellings of the signed 64-bit integers,
  so storing an accepted string as an integer loses nothing.
\<close>

section \<open>Types and encodings\<close>

datatype ObjType = String | List | Set | Hash | ZSet

datatype ObjEncoding = IntEnc | EmbStr | Raw | ListPack | QuickList | IntSet | HashTable | SkipList

fun typeName :: "ObjType \<Rightarrow> bytes" where
  "typeName String = str ''string''"
| "typeName List = str ''list''"
| "typeName Set = str ''set''"
| "typeName Hash = str ''hash''"
| "typeName ZSet = str ''zset''"

fun encodingName :: "ObjEncoding \<Rightarrow> bytes" where
  "encodingName IntEnc = str ''int''"
| "encodingName EmbStr = str ''embstr''"
| "encodingName Raw = str ''raw''"
| "encodingName ListPack = str ''listpack''"
| "encodingName QuickList = str ''quicklist''"
| "encodingName IntSet = str ''intset''"
| "encodingName HashTable = str ''hashtable''"
| "encodingName SkipList = str ''skiplist''"

definition kEmbStrSizeLimit :: nat where
  "kEmbStrSizeLimit = 44"

section \<open>The strict integer parse\<close>

text \<open>The digit loop; \<open>acc\<close> is the \<open>std::uint64_t\<close> accumulator with its overflow check.\<close>

fun parseDigits :: "bytes \<Rightarrow> nat \<Rightarrow> nat option" where
  "parseDigits [] acc = Some acc"
| "parseDigits (c # cs) acc =
     (if c < 48 \<or> c > 57 then None
      else let digit = unat (c - 48) in
        if acc > (18446744073709551615 - digit) div 10 then None
        else parseDigits cs (acc * 10 + digit))"

definition kMax :: nat where
  "kMax = 9223372036854775807"

definition stringToInt64 :: "bytes \<Rightarrow> int option" where
  "stringToInt64 s =
     (if s = [] \<or> length s \<ge> 21 then None
      else
        let negative = (s ! 0 = 45);
            i = (if negative then 1 else 0) in
        if negative \<and> length s = 1 then None
        else if s ! i = 48 then
          (if length s - i \<noteq> 1 then None
           else if negative then None
           else Some 0)
        else (case parseDigits (drop i s) 0 of
            None \<Rightarrow> None
          | Some acc \<Rightarrow>
              if negative then
                (if acc > kMax + 1 then None
                 else Some (if acc = kMax + 1 then int64_min else - int acc))
              else
                (if acc > kMax then None else Some (int acc))))"

section \<open>Correctness of the parse\<close>

text \<open>The digit loop computes the decimal value and fails exactly on a non-digit or overflow.\<close>

lemma parseDigits_eq:
  "acc \<le> 18446744073709551615 \<Longrightarrow>
   parseDigits cs acc =
     (if list_all is_digit cs \<and> dec_value acc cs \<le> 18446744073709551615
      then Some (dec_value acc cs) else None)"
proof (induction cs arbitrary: acc)
  case (Cons c cs)
  let ?M = "18446744073709551615 :: nat" and ?d = "digit_val c"
  show ?case
  proof (cases "is_digit c")
    case False
    then show ?thesis by (auto simp: is_digit_def not_le)
  next
    case True
    then have c: "\<not> (c < 48 \<or> c > 57)" and d: "?d < 10"
      by (auto simp: is_digit_def not_less digit_val_less)
    have ov: "(acc > (?M - ?d) div 10) = (acc * 10 + ?d > ?M)"
      using d by linarith
    have step: "parseDigits (c # cs) acc =
        (if acc * 10 + ?d > ?M then None else parseDigits cs (acc * 10 + ?d))"
      using c ov by (simp add: Let_def digit_val_def)
    show ?thesis
    proof (cases "acc * 10 + ?d > ?M")
      case True
      moreover have "acc * 10 + ?d \<le> dec_value (acc * 10 + ?d) cs" by (rule dec_value_ge)
      ultimately show ?thesis using step by simp
    next
      case False
      then show ?thesis using step Cons.IH [of "acc * 10 + ?d"] \<open>is_digit c\<close> by simp
    qed
  qed
qed simp

lemma parseDigits_0:
  "parseDigits cs 0 = Some acc \<longleftrightarrow>
     list_all is_digit cs \<and> dec_value 0 cs \<le> 18446744073709551615 \<and> acc = dec_value 0 cs"
  by (auto simp: parseDigits_eq)

text \<open>Soundness: an accepted string is the rendering of the integer it parses to.\<close>

lemma stringToInt64_sound:
  assumes "stringToInt64 s = Some n"
  shows "to_string n = s \<and> is_int64 n"
proof -
  let ?neg = "s ! 0 = 45" and ?i = "if s ! 0 = 45 then 1 else (0::nat)"
  from assms have s: "s \<noteq> []" "\<not> length s \<ge> 21"
    by (auto simp: stringToInt64_def split: if_splits)
  have neg1: "\<not> (?neg \<and> length s = 1)"
    using assms s by (auto simp: stringToInt64_def Let_def split: if_splits)
  show ?thesis
  proof (cases "s ! ?i = 48")
    case True
    then have "length s = 1" "\<not> ?neg" "n = 0"
      using assms s neg1 by (auto simp: stringToInt64_def Let_def split: if_splits)
    then have "s = [48]" using True by (cases s) auto
    then show ?thesis
      using \<open>n = 0\<close> by (simp add: to_string_def nat_digits.simps [of 0] is_int64_def)
  next
    case False
    let ?ds = "drop ?i s"
    have len: "?i < length s" using s neg1 by (cases s) auto
    then have ne: "?ds \<noteq> []" and hd: "hd ?ds \<noteq> 48"
      using False by (auto simp: hd_drop_conv_nth)
    obtain acc where acc: "parseDigits ?ds 0 = Some acc"
      using assms s neg1 False by (auto simp: stringToInt64_def Let_def split: if_splits option.splits)
    then have dig: "list_all is_digit ?ds" and val: "acc = dec_value 0 ?ds"
      by (simp_all only: parseDigits_0)
    have nd: "nat_digits acc = ?ds" using nat_digits_dec_value [OF ne dig hd] val by simp
    have pos: "0 < acc" using dec_value_pos [OF ne dig hd] val by simp
    show ?thesis
    proof (cases ?neg)
      case True
      then have n: "acc \<le> kMax + 1" "n = - int acc"
        using assms s neg1 False acc
        by (auto simp: stringToInt64_def Let_def kMax_def split: if_splits)
      have "s = 45 # drop 1 s" using True s by (cases s) auto
      then show ?thesis
        using n pos nd True by (simp add: to_string_def is_int64_def kMax_def)
    next
      case F: False
      then have n: "acc \<le> kMax" "n = int acc"
        using assms s False acc by (auto simp: stringToInt64_def Let_def split: if_splits)
      then show ?thesis using nd F by (simp add: to_string_def is_int64_def kMax_def)
    qed
  qed
qed

text \<open>Completeness: every signed 64-bit integer is recovered from its rendering.\<close>

lemma stringToInt64_complete:
  assumes "is_int64 n"
  shows "stringToInt64 (to_string n) = Some n"
proof (cases "n = 0")
  case True
  then show ?thesis by (simp add: to_string_def nat_digits.simps [of 0] stringToInt64_def)
next
  case False
  define m where "m = nat \<bar>n\<bar>"
  have m: "0 < m" "m \<le> kMax + 1" "m < 10 ^ 19"
    using assms False by (auto simp: m_def is_int64_def kMax_def)
  have len: "length (nat_digits m) \<le> 19" using m by (intro nat_digits_length) simp_all
  obtain d ds where nd: "nat_digits m = d # ds" by (cases "nat_digits m") auto
  have d: "d \<noteq> 48" "d \<noteq> 45" using nat_digits_hd [of m] nat_digits_no_minus [of m ds] m nd by auto
  have p: "parseDigits (d # ds) 0 = Some m"
    using nat_digits_digits [of m] dec_value_nat_digits [of m] m nd
    by (simp only: parseDigits_0) (simp add: kMax_def)
  show ?thesis
  proof (cases "n < 0")
    case True
    then have "to_string n = 45 # d # ds" and "n = - int m"
      using nd by (simp_all add: to_string_def m_def)
    then show ?thesis using d p m len nd
      by (auto simp: stringToInt64_def Let_def kMax_def simp del: parseDigits.simps)
  next
    case F: False
    then have "to_string n = d # ds" and n: "n = int m"
      using nd by (simp_all add: to_string_def m_def)
    moreover have "m \<le> kMax" using assms n by (simp add: is_int64_def kMax_def)
    ultimately show ?thesis using d p len nd
      by (auto simp: stringToInt64_def Let_def simp del: parseDigits.simps)
  qed
qed

lemmas stringToInt64_to_string = stringToInt64_sound [THEN conjunct1]
lemmas stringToInt64_range = stringToInt64_sound [THEN conjunct2]

lemma stringToInt64_inj:
  "stringToInt64 s = Some n \<Longrightarrow> stringToInt64 t = Some n \<Longrightarrow> s = t"
  using stringToInt64_to_string by metis

text \<open>
  C1. \<open>stringToInt64\<close> accepts a byte string and yields \<open>n\<close> exactly when the string is the
  canonical decimal spelling of \<open>n\<close> and \<open>n\<close> is a signed 64-bit integer: no leading zeros, no
  plus sign, no minus zero, no surrounding text and no overflow get through, and no
  representable integer is refused.
\<close>

theorem stringToInt64_canonical:
  "stringToInt64 s = Some n \<longleftrightarrow> s = to_string n \<and> is_int64 n"
  using stringToInt64_sound [of s n] stringToInt64_complete [of n] by auto

end
