(* ===== verification/Listpack.thy ===== *)
theory Listpack
  imports Encoding
begin

text \<open>
  Model of \<open>src/core/listpack.h\<close> and \<open>src/core/listpack.cpp\<close>: the packed sequence behind
  every small collection. The class has one member, the byte buffer, so a listpack is a
  \<open>bytes\<close> value and every operation works on offsets into it exactly as the source does:
  entries are decoded, walked, spliced in and cut out of the buffer, and the two header
  fields are rewritten afterwards.
\<close>

section \<open>Constants and elements\<close>

abbreviation kListpackHeaderSize :: nat where
  "kListpackHeaderSize \<equiv> 6"

abbreviation kListpackEof :: byte where
  "kListpackEof \<equiv> 255"

abbreviation kListpackMaxInlineCount :: nat where
  "kListpackMaxInlineCount \<equiv> 65535"

text \<open>\<open>Listpack::Element\<close>: the tag \<open>is_integer\<close> selects one of the two payloads.\<close>

datatype lp_element = LpInt int | LpStr bytes

fun lp_toString :: "lp_element \<Rightarrow> bytes" where
  "lp_toString (LpInt n) = to_string n"
| "lp_toString (LpStr s) = s"

section \<open>Entry encoding\<close>

definition encodeInteger :: "int \<Rightarrow> bytes" where
  "encodeInteger value =
     (if 0 \<le> value \<and> value \<le> 127 then [word_of_int value]
      else if - 4096 \<le> value \<and> value \<le> 4095 then
        (let raw = value AND 0x1FFF in
         [word_of_int (0xC0 OR (drop_bit 8 raw AND 0x1F)), word_of_int (raw AND 0xFF)])
      else if - 32768 \<le> value \<and> value \<le> 32767 then 0xF1 # le_bytes 2 value
      else if - 8388608 \<le> value \<and> value \<le> 8388607 then 0xF2 # le_bytes 3 value
      else if - 2147483648 \<le> value \<and> value \<le> 2147483647 then 0xF3 # le_bytes 4 value
      else 0xF4 # le_bytes 8 value)"

definition encodeString :: "bytes \<Rightarrow> bytes" where
  "encodeString value =
     (let len = int (length value) in
      (if len < 64 then [word_of_int (0x80 OR len)]
       else if len < 4096 then
         [word_of_int (0xE0 OR (drop_bit 8 len AND 0x0F)), word_of_int (len AND 0xFF)]
       else 0xF0 # le_bytes 4 len) @ value)"

definition encodeBacklen :: "nat \<Rightarrow> bytes" where
  "encodeBacklen value =
     (let v = int value in
      if value \<le> 127 then [word_of_int v]
      else if value < 16384 then
        [word_of_int (drop_bit 7 v), word_of_int ((v AND 127) OR 128)]
      else if value < 2097152 then
        [word_of_int (drop_bit 14 v), word_of_int ((drop_bit 7 v AND 127) OR 128),
         word_of_int ((v AND 127) OR 128)]
      else if value < 268435456 then
        [word_of_int (drop_bit 21 v), word_of_int ((drop_bit 14 v AND 127) OR 128),
         word_of_int ((drop_bit 7 v AND 127) OR 128), word_of_int ((v AND 127) OR 128)]
      else
        [word_of_int (drop_bit 28 v), word_of_int ((drop_bit 21 v AND 127) OR 128),
         word_of_int ((drop_bit 14 v AND 127) OR 128), word_of_int ((drop_bit 7 v AND 127) OR 128),
         word_of_int ((v AND 127) OR 128)])"

text \<open>
  The backward decode: the argument lists the bytes from \<open>last\<close> towards the front, and the
  result is the pair of the value and \<open>bytes_read\<close>; running off the front is \<open>None\<close>.
\<close>

fun decodeBacklenLoop :: "bytes \<Rightarrow> int \<Rightarrow> nat \<Rightarrow> nat \<Rightarrow> (int \<times> nat) option" where
  "decodeBacklenLoop [] value shift bytes_read = None"
| "decodeBacklenLoop (b # back) value shift bytes_read =
     (let value' = value OR push_bit shift (uint b AND 127) in
      if uint b AND 128 = 0 then Some (value', bytes_read + 1)
      else if shift + 7 > 28 then Some (0, 0)
      else decodeBacklenLoop back value' (shift + 7) (bytes_read + 1))"

definition decodeBacklenBackwards :: "bytes \<Rightarrow> (int \<times> nat) option" where
  "decodeBacklenBackwards field = decodeBacklenLoop (rev field) 0 0 0"

definition buildEntry :: "bytes \<Rightarrow> bytes" where
  "buildEntry value =
     (let payload = (case stringToInt64 value of
          Some as_integer \<Rightarrow> encodeInteger as_integer
        | None \<Rightarrow> encodeString value)
      in payload @ encodeBacklen (length payload))"

definition buildIntegerEntry :: "int \<Rightarrow> bytes" where
  "buildIntegerEntry value =
     (let payload = encodeInteger value in payload @ encodeBacklen (length payload))"

section \<open>The header\<close>

definition setTotalBytes :: "nat \<Rightarrow> bytes \<Rightarrow> bytes" where
  "setTotalBytes value buffer = le_bytes 4 (int value) @ drop 4 buffer"

definition setNumElements :: "nat \<Rightarrow> bytes \<Rightarrow> bytes" where
  "setNumElements value buffer =
     take 4 buffer @ le_bytes 2 (int (min value kListpackMaxInlineCount)) @ drop 6 buffer"

definition storedCount :: "bytes \<Rightarrow> nat" where
  "storedCount buffer = nat (le_value (take 2 (drop 4 buffer)))"

definition lp_new :: bytes where
  "lp_new = setNumElements 0 (setTotalBytes 7 (replicate 6 0 @ [kListpackEof]))"

definition lp_clear :: "bytes \<Rightarrow> bytes" where
  "lp_clear buffer = setNumElements 0 (setTotalBytes 7 (replicate 6 0 @ [kListpackEof]))"

section \<open>Decoding\<close>

text \<open>
  The encoding byte's case distinction of \<open>decodeAt\<close>: the element and \<open>payload_size\<close>. The
  argument is the buffer from the offset on, so its length is \<open>remaining\<close>.
\<close>

definition decodePayload :: "bytes \<Rightarrow> (lp_element \<times> nat) option" where
  "decodePayload p =
     (let remaining = length p; encoding = uint (p ! 0) in
      if encoding AND 0x80 = 0 then Some (LpInt (encoding AND 0x7F), 1)
      else if encoding AND 0xC0 = 0x80 then
        (let len = nat (encoding AND 0x3F) in
         if remaining < 1 + len then None else Some (LpStr (take len (drop 1 p)), 1 + len))
      else if encoding AND 0xE0 = 0xC0 then
        (if remaining < 2 then None
         else let raw = push_bit 8 (encoding AND 0x1F) OR uint (p ! 1);
                  value = (if raw \<ge> 4096 then raw - 8192 else raw)
              in Some (LpInt value, 2))
      else if encoding AND 0xF0 = 0xE0 then
        (if remaining < 2 then None
         else let len = nat (push_bit 8 (encoding AND 0x0F) OR uint (p ! 1)) in
           if remaining < 2 + len then None else Some (LpStr (take len (drop 2 p)), 2 + len))
      else if encoding = 0xF0 then
        (if remaining < 5 then None
         else let len = nat (le_value (take 4 (drop 1 p))) in
           if remaining < 5 + len then None else Some (LpStr (take len (drop 5 p)), 5 + len))
      else if encoding = 0xF1 then
        (if remaining < 3 then None
         else Some (LpInt (signed_take_bit 15 (le_value (take 2 (drop 1 p)))), 3))
      else if encoding = 0xF2 then
        (if remaining < 4 then None
         else let raw = le_value (take 3 (drop 1 p));
                  value = (if raw \<ge> 8388608 then raw - 16777216 else raw)
              in Some (LpInt value, 4))
      else if encoding = 0xF3 then
        (if remaining < 5 then None
         else Some (LpInt (signed_take_bit 31 (le_value (take 4 (drop 1 p)))), 5))
      else if encoding = 0xF4 then
        (if remaining < 9 then None
         else Some (LpInt (signed_take_bit 63 (le_value (take 8 (drop 1 p)))), 9))
      else None)"

definition decodeEntry :: "bytes \<Rightarrow> (lp_element \<times> nat) option" where
  "decodeEntry p =
     (case decodePayload p of
        None \<Rightarrow> None
      | Some (e, payload_size) \<Rightarrow>
          let backlen_size = length (encodeBacklen payload_size) in
          if length p < payload_size + backlen_size then None
          else Some (e, payload_size + backlen_size))"

text \<open>\<open>decodeAt\<close> returns 0 on malformed bytes, here \<open>None\<close>.\<close>

definition decodeAt :: "bytes \<Rightarrow> nat \<Rightarrow> (lp_element \<times> nat) option" where
  "decodeAt buffer offset =
     (if offset \<ge> length buffer then None else decodeEntry (drop offset buffer))"

lemma decodePayload_pos: "decodePayload p = Some (e, n) \<Longrightarrow> 0 < n"
  by (auto simp: decodePayload_def Let_def split: if_splits)

lemma decodeAt_progress: "decodeAt buffer offset = Some (e, n) \<Longrightarrow> 0 < n \<and> offset < length buffer"
  by (auto simp: decodeAt_def decodeEntry_def Let_def split: option.splits if_splits
      dest: decodePayload_pos)

section \<open>Walking\<close>

abbreviation lp_more :: "bytes \<Rightarrow> nat \<Rightarrow> bool" where
  "lp_more buffer offset \<equiv> offset < length buffer \<and> buffer ! offset \<noteq> kListpackEof"

text \<open>\<open>forEach\<close>: the elements handed to the callback, in order.\<close>

function lp_forEachFrom :: "bytes \<Rightarrow> nat \<Rightarrow> lp_element list" where
  "lp_forEachFrom buffer offset =
     (if lp_more buffer offset then
        (case decodeAt buffer offset of
           None \<Rightarrow> []
         | Some (e, entry_size) \<Rightarrow> e # lp_forEachFrom buffer (offset + entry_size))
      else [])"
  by pat_completeness auto
termination
  by (relation "measure (\<lambda>(buffer, offset). length buffer - offset)")
     (auto dest: decodeAt_progress)

declare lp_forEachFrom.simps [simp del]

definition lp_forEach :: "bytes \<Rightarrow> lp_element list" where
  "lp_forEach buffer = lp_forEachFrom buffer kListpackHeaderSize"

definition lp_toStrings :: "bytes \<Rightarrow> bytes list" where
  "lp_toStrings buffer = map lp_toString (lp_forEach buffer)"

definition lp_numElements :: "bytes \<Rightarrow> nat" where
  "lp_numElements buffer =
     (let stored = storedCount buffer in
      if stored < kListpackMaxInlineCount then stored else length (lp_forEach buffer))"

function offsetOfLoop :: "bytes \<Rightarrow> nat \<Rightarrow> nat \<Rightarrow> nat \<Rightarrow> nat option" where
  "offsetOfLoop buffer index offset current =
     (if lp_more buffer offset then
        (if current = index then Some offset
         else case decodeAt buffer offset of
             None \<Rightarrow> None
           | Some (e, sz) \<Rightarrow> offsetOfLoop buffer index (offset + sz) (current + 1))
      else None)"
  by pat_completeness auto
termination
  by (relation "measure (\<lambda>(buffer, index, offset, current). length buffer - offset)")
     (auto dest: decodeAt_progress)

declare offsetOfLoop.simps [simp del]

text \<open>\<open>npos\<close> is \<open>None\<close>.\<close>

definition offsetOf :: "bytes \<Rightarrow> nat \<Rightarrow> nat option" where
  "offsetOf buffer index = offsetOfLoop buffer index kListpackHeaderSize 0"

definition lp_get :: "bytes \<Rightarrow> nat \<Rightarrow> lp_element option" where
  "lp_get buffer index =
     (case offsetOf buffer index of
        None \<Rightarrow> None
      | Some offset \<Rightarrow> map_option fst (decodeAt buffer offset))"

fun lp_matches :: "bytes \<Rightarrow> lp_element \<Rightarrow> bool" where
  "lp_matches value (LpInt n) = (stringToInt64 value = Some n)"
| "lp_matches value (LpStr s) = (stringToInt64 value = None \<and> s = value)"

function findLoop :: "bytes \<Rightarrow> bytes \<Rightarrow> nat \<Rightarrow> nat \<Rightarrow> nat \<Rightarrow> nat \<Rightarrow> nat option" where
  "findLoop buffer value start step offset index =
     (if lp_more buffer offset then
        (case decodeAt buffer offset of
           None \<Rightarrow> None
         | Some (e, sz) \<Rightarrow>
             if index \<ge> start \<and> (index - start) mod step = 0 \<and> lp_matches value e then Some index
             else findLoop buffer value start step (offset + sz) (index + 1))
      else None)"
  by pat_completeness auto
termination
  by (relation "measure (\<lambda>(buffer, value, start, step, offset, index). length buffer - offset)")
     (auto dest: decodeAt_progress)

declare findLoop.simps [simp del]

definition lp_find :: "bytes \<Rightarrow> bytes \<Rightarrow> nat \<Rightarrow> nat \<Rightarrow> nat option" where
  "lp_find buffer value start step = findLoop buffer value start step kListpackHeaderSize 0"

section \<open>Mutation\<close>

definition lp_appendEntry :: "bytes \<Rightarrow> bytes \<Rightarrow> bytes" where
  "lp_appendEntry entry buffer =
     (let b1 = butlast buffer @ entry @ [last buffer];
          b2 = setTotalBytes (length b1) b1;
          stored = storedCount b2
      in if stored < kListpackMaxInlineCount then setNumElements (stored + 1) b2 else b2)"

definition lp_append :: "bytes \<Rightarrow> bytes \<Rightarrow> bytes" where
  "lp_append value buffer = lp_appendEntry (buildEntry value) buffer"

definition lp_appendInteger :: "int \<Rightarrow> bytes \<Rightarrow> bytes" where
  "lp_appendInteger value buffer = lp_appendEntry (buildIntegerEntry value) buffer"

text \<open>The loop that advances \<open>end_offset\<close> over \<open>count\<close> entries; failure is \<open>None\<close>.\<close>

fun skipEntries :: "bytes \<Rightarrow> nat \<Rightarrow> nat \<Rightarrow> nat option" where
  "skipEntries buffer 0 end_offset = Some end_offset"
| "skipEntries buffer (Suc count) end_offset =
     (if end_offset \<ge> length buffer \<or> buffer ! end_offset = kListpackEof then None
      else case decodeAt buffer end_offset of
          None \<Rightarrow> None
        | Some (e, sz) \<Rightarrow> skipEntries buffer count (end_offset + sz))"

definition lp_eraseRange :: "nat \<Rightarrow> nat \<Rightarrow> bytes \<Rightarrow> bool \<times> bytes" where
  "lp_eraseRange index count buffer =
     (if count = 0 then (True, buffer)
      else case offsetOf buffer index of
          None \<Rightarrow> (False, buffer)
        | Some start_offset \<Rightarrow>
            (case skipEntries buffer count start_offset of
               None \<Rightarrow> (False, buffer)
             | Some end_offset \<Rightarrow>
                 let b1 = take start_offset buffer @ drop end_offset buffer;
                     b2 = setTotalBytes (length b1) b1;
                     stored = storedCount b2
                 in (True,
                     if stored < kListpackMaxInlineCount then
                       setNumElements (if stored \<ge> count then stored - count else 0) b2
                     else setNumElements (lp_numElements b2) b2)))"

definition lp_eraseAt :: "nat \<Rightarrow> bytes \<Rightarrow> bool \<times> bytes" where
  "lp_eraseAt index buffer = lp_eraseRange index 1 buffer"

definition lp_replaceAt :: "nat \<Rightarrow> bytes \<Rightarrow> bytes \<Rightarrow> bool \<times> bytes" where
  "lp_replaceAt index value buffer =
     (case offsetOf buffer index of
        None \<Rightarrow> (False, buffer)
      | Some offset \<Rightarrow>
          (case decodeAt buffer offset of
             None \<Rightarrow> (False, buffer)
           | Some (e, old_size) \<Rightarrow>
               let entry = buildEntry value;
                   b1 = take offset buffer @ drop (offset + old_size) buffer;
                   b2 = take offset b1 @ entry @ drop offset b1
               in (True, setTotalBytes (length b2) b2)))"

definition lp_insertAt :: "nat \<Rightarrow> bytes \<Rightarrow> bytes \<Rightarrow> bool \<times> bytes" where
  "lp_insertAt index value buffer =
     (let at = (if index = lp_numElements buffer then Some (length buffer - 1)
                else offsetOf buffer index)
      in case at of
          None \<Rightarrow> (False, buffer)
        | Some offset \<Rightarrow>
            let entry = buildEntry value;
                b1 = take offset buffer @ entry @ drop offset buffer;
                b2 = setTotalBytes (length b1) b1;
                stored = storedCount b2
            in (True, if stored < kListpackMaxInlineCount then setNumElements (stored + 1) b2 else b2))"

section \<open>Adopting foreign bytes\<close>

text \<open>The validating walk: the final offset and the number of entries, or \<open>None\<close>.\<close>

function validateLoop :: "bytes \<Rightarrow> nat \<Rightarrow> nat \<Rightarrow> (nat \<times> nat) option" where
  "validateLoop buffer offset counted =
     (if lp_more buffer offset then
        (case decodeAt buffer offset of
           None \<Rightarrow> None
         | Some (e, sz) \<Rightarrow> validateLoop buffer (offset + sz) (counted + 1))
      else Some (offset, counted))"
  by pat_completeness auto
termination
  by (relation "measure (\<lambda>(buffer, offset, counted). length buffer - offset)")
     (auto dest: decodeAt_progress)

declare validateLoop.simps [simp del]

definition lp_fromBytes :: "bytes \<Rightarrow> bytes option" where
  "lp_fromBytes bytes =
     (if length bytes < kListpackHeaderSize + 1 then None
      else if le_value (take 4 bytes) \<noteq> int (length bytes) then None
      else if last bytes \<noteq> kListpackEof then None
      else case validateLoop bytes kListpackHeaderSize 0 of
          None \<Rightarrow> None
        | Some (offset, counted) \<Rightarrow>
            if offset \<noteq> length bytes - 1 then None
            else let stored = storedCount bytes in
              if stored < kListpackMaxInlineCount \<and> stored \<noteq> counted then None
              else Some bytes)"

end
