(* ===== verification/Listpack_Entries.thy ===== *)
theory Listpack_Entries
  imports Listpack
begin

text \<open>
  The entry level of the listpack: every entry the encoder builds decodes to the element it
  was built from, whatever bytes follow it, and a successful decode only depends on the bytes
  it consumes. These two facts are all the sequence-level proofs need.
\<close>

section \<open>Reading a prefix\<close>

lemma take_drop_prefix:
  assumes "j + k \<le> n" and "n \<le> length p"
  shows "take k (drop j (take n p @ rest)) = take k (drop j p)"
proof -
  have "take k (drop j (take n p @ rest)) = take k (drop j (take n p))"
    using assms by simp
  also have "\<dots> = take k (drop j p)"
    using assms by (simp add: drop_take min_def)
  finally show ?thesis .
qed

lemma nth_prefix: "i < n \<Longrightarrow> n \<le> length p \<Longrightarrow> (take n p @ rest) ! i = p ! i"
  by (simp add: nth_append)

section \<open>Integers\<close>

text \<open>Reading a remainder back as a signed number.\<close>

lemma wrap_signed:
  fixes v h m :: int
  assumes "- h \<le> v" and "v < h" and m: "m = 2 * h"
  shows "(if v mod m \<ge> h then v mod m - m else v mod m) = v"
proof (cases "0 \<le> v")
  case True
  with assms have "v mod m = v" by (intro mod_pos_pos_trivial) simp_all
  with assms show ?thesis by simp
next
  case False
  with assms have "(v + m) mod m = v + m" by (intro mod_pos_pos_trivial) simp_all
  then have "v mod m = v + m" by simp
  with assms False show ?thesis by simp
qed

lemma mod_offset: "0 \<le> r \<Longrightarrow> r < m \<Longrightarrow> (k * m + r) mod m = r" for r :: int
  by simp

lemma byte_exists:
  assumes "0 \<le> v" and "v < 256"
  obtains b :: byte where "word_of_int v = b" "uint b = v"
  using assms uint_byte_of_int by blast

lemma encodeInteger_13bit:
  assumes "\<not> (0 \<le> v \<and> v \<le> 127)" and "- 4096 \<le> v" and "v \<le> 4095"
  obtains b0 b1 where "encodeInteger v = [b0, b1]" and "192 \<le> uint b0" and "uint b0 < 224"
    and "push_bit 8 (uint b0 mod 32) OR uint b1 = v mod 8192"
proof -
  let ?r = "v mod 8192"
  have r: "0 \<le> ?r" "?r < 8192" by simp_all
  then have q: "0 \<le> ?r div 256" "?r div 256 < 32" by linarith+
  have "192 OR (?r div 256 mod 32) = 192 + ?r div 256"
    using int_or_disjoint [of "?r div 256" 5 6] q by simp
  then have e: "encodeInteger v = [word_of_int (192 + ?r div 256), word_of_int (?r mod 256)]"
    using assms by (simp add: encodeInteger_def Let_def low_masks drop_bit_eq_div)
  obtain b0 :: byte where b0: "word_of_int (192 + ?r div 256) = b0" "uint b0 = 192 + ?r div 256"
    by (rule byte_exists [of "192 + ?r div 256"]) (use q in linarith)+
  obtain b1 :: byte where b1: "word_of_int (?r mod 256) = b1" "uint b1 = ?r mod 256"
    by (rule byte_exists [of "?r mod 256"]) simp_all
  have "uint b0 = 6 * 32 + ?r div 256" using b0 by simp
  then have m: "uint b0 mod 32 = ?r div 256" using q by (simp only: mod_offset)
  have "push_bit 8 (?r div 256) OR (?r mod 256) = ?r div 256 * 256 + ?r mod 256"
    using int_or_disjoint [of "?r mod 256" 8 "?r div 256"] by (simp add: push_bit_eq_mult)
  then have "push_bit 8 (uint b0 mod 32) OR uint b1 = ?r" by (simp only: m b1 div_mult_mod_eq)
  moreover have "192 \<le> uint b0" "uint b0 < 224" using q b0 by linarith+
  ultimately show thesis using that e b0 b1 by metis
qed

text \<open>The decoder by the class of its encoding byte.\<close>

lemma decodePayload_byte: "uint b < 128 \<Longrightarrow> decodePayload (b # p) = Some (LpInt (uint b), 1)"
  unfolding decodePayload_def Let_def nth_Cons_0 byte_classes low_masks by simp

lemma decodePayload_short:
  assumes "128 \<le> uint b" and "uint b < 192"
  shows "decodePayload (b # p) = (let len = nat (uint b mod 64) in
    if length p < len then None else Some (LpStr (take len p), 1 + len))"
proof -
  have c: "(uint b < 128) = False" "(128 \<le> uint b \<and> uint b < 192) = True" using assms by simp_all
  show ?thesis
    unfolding decodePayload_def Let_def nth_Cons_0 byte_classes low_masks c if_False if_True by simp
qed

lemma decodePayload_13bit:
  assumes "192 \<le> uint b" and "uint b < 224"
  shows "decodePayload (b # p) = (case p of [] \<Rightarrow> None | b1 # _ \<Rightarrow>
    let raw = push_bit 8 (uint b mod 32) OR uint b1 in
    Some (LpInt (if raw \<ge> 4096 then raw - 8192 else raw), 2))"
proof -
  have c: "(uint b < 128) = False" "(128 \<le> uint b \<and> uint b < 192) = False"
    "(192 \<le> uint b \<and> uint b < 224) = True" using assms by simp_all
  show ?thesis
    unfolding decodePayload_def Let_def nth_Cons_0 byte_classes low_masks c if_False if_True
    by (cases p) simp_all
qed

lemma decodePayload_medium:
  assumes "224 \<le> uint b" and "uint b < 240"
  shows "decodePayload (b # p) = (case p of [] \<Rightarrow> None | b1 # p' \<Rightarrow>
    let len = nat (push_bit 8 (uint b mod 16) OR uint b1) in
    if length p' < len then None else Some (LpStr (take len p'), 2 + len))"
proof -
  have c: "(uint b < 128) = False" "(128 \<le> uint b \<and> uint b < 192) = False"
    "(192 \<le> uint b \<and> uint b < 224) = False" "(224 \<le> uint b \<and> uint b < 240) = True"
    using assms by simp_all
  show ?thesis
    unfolding decodePayload_def Let_def nth_Cons_0 byte_classes low_masks c if_False if_True
    by (cases p) simp_all
qed

lemma decodePayload_tagged:
  "decodePayload (0xF1 # p) = (if length p < 2 then None
     else Some (LpInt (signed_take_bit 15 (le_value (take 2 p))), 3))"
  "decodePayload (0xF2 # p) = (if length p < 3 then None
     else let raw = le_value (take 3 p) in Some (LpInt (if raw \<ge> 8388608 then raw - 16777216 else raw), 4))"
  "decodePayload (0xF3 # p) = (if length p < 4 then None
     else Some (LpInt (signed_take_bit 31 (le_value (take 4 p))), 5))"
  "decodePayload (0xF4 # p) = (if length p < 8 then None
     else Some (LpInt (signed_take_bit 63 (le_value (take 8 p))), 9))"
  "decodePayload (0xF0 # p) = (if length p < 4 then None
     else let len = nat (le_value (take 4 p)) in
       if length p < 4 + len then None else Some (LpStr (take len (drop 4 p)), 5 + len))"
  by (auto simp: decodePayload_def Let_def)

lemma decodePayload_reserved:
  assumes "240 \<le> uint b" and "b \<notin> {0xF0, 0xF1, 0xF2, 0xF3, 0xF4}"
  shows "decodePayload (b # p) = None"
proof -
  have c: "(uint b < 128) = False" "(128 \<le> uint b \<and> uint b < 192) = False"
    "(192 \<le> uint b \<and> uint b < 224) = False" "(224 \<le> uint b \<and> uint b < 240) = False"
    using assms by simp_all
  have d: "(uint b = 240) = False" "(uint b = 241) = False" "(uint b = 242) = False"
    "(uint b = 243) = False" "(uint b = 244) = False"
    using assms(2) by (auto simp: word_uint_eq_iff)
  show ?thesis
    unfolding decodePayload_def Let_def nth_Cons_0 byte_classes low_masks c d if_False by simp
qed

lemma decodePayload_encodeInteger:
  assumes "is_int64 v"
  shows "decodePayload (encodeInteger v @ rest) = Some (LpInt v, length (encodeInteger v))"
proof -
  consider "0 \<le> v \<and> v \<le> 127" | "\<not> (0 \<le> v \<and> v \<le> 127)" "- 4096 \<le> v \<and> v \<le> 4095"
    | "\<not> (- 4096 \<le> v \<and> v \<le> 4095)" "- 32768 \<le> v \<and> v \<le> 32767"
    | "\<not> (- 32768 \<le> v \<and> v \<le> 32767)" "- 8388608 \<le> v \<and> v \<le> 8388607"
    | "\<not> (- 8388608 \<le> v \<and> v \<le> 8388607)" "- 2147483648 \<le> v \<and> v \<le> 2147483647"
    | "\<not> (- 2147483648 \<le> v \<and> v \<le> 2147483647)" by blast
  then show ?thesis
  proof cases
    case 1
    then have "uint (word_of_int v :: byte) = v" by (simp add: uint_byte_of_int)
    with 1 show ?thesis by (simp add: encodeInteger_def decodePayload_byte)
  next
    case 2
    then obtain b0 b1 where b: "encodeInteger v = [b0, b1]" "192 \<le> uint b0" "uint b0 < 224"
      "push_bit 8 (uint b0 mod 32) OR uint b1 = v mod 8192"
      by (metis encodeInteger_13bit)
    have "(if v mod 8192 \<ge> 4096 then v mod 8192 - 8192 else v mod 8192) = v"
      by (rule wrap_signed) (use 2 in auto)
    then show ?thesis using b by (simp add: decodePayload_13bit Let_def)
  next
    case 3
    then have "encodeInteger v = 0xF1 # le_bytes 2 v" by (auto simp: encodeInteger_def)
    moreover have "signed_take_bit 15 (take_bit 16 v) = v" using 3 by (intro signed_take_bit_fits) auto
    ultimately show ?thesis by (simp add: decodePayload_tagged le_value_le_bytes)
  next
    case 4
    then have "encodeInteger v = 0xF2 # le_bytes 3 v" by (auto simp: encodeInteger_def)
    moreover have "(if take_bit 24 v \<ge> 8388608 then take_bit 24 v - 16777216 else take_bit 24 v) = v"
      using wrap_signed [of 8388608 v 16777216] 4 by (simp add: take_bit_eq_mod split: if_splits)
    ultimately show ?thesis by (simp add: decodePayload_tagged le_value_le_bytes Let_def)
  next
    case 5
    then have "encodeInteger v = 0xF3 # le_bytes 4 v" by (auto simp: encodeInteger_def)
    moreover have "signed_take_bit 31 (take_bit 32 v) = v" using 5 by (intro signed_take_bit_fits) auto
    ultimately show ?thesis by (simp add: decodePayload_tagged le_value_le_bytes)
  next
    case 6
    then have "encodeInteger v = 0xF4 # le_bytes 8 v" by (auto simp: encodeInteger_def)
    moreover have "signed_take_bit 63 (take_bit 64 v) = v"
      using assms by (intro signed_take_bit_fits) (auto simp: is_int64_def)
    ultimately show ?thesis by (simp add: decodePayload_tagged le_value_le_bytes)
  qed
qed

section \<open>Strings\<close>

lemma encodeString_cases:
  obtains (short) b where "encodeString s = b # s" "128 \<le> uint b" "uint b < 192"
      "uint b mod 64 = int (length s)"
  | (medium) b0 b1 where "encodeString s = b0 # b1 # s" "224 \<le> uint b0" "uint b0 < 240"
      "push_bit 8 (uint b0 mod 16) OR uint b1 = int (length s)"
  | (long) "encodeString s = 0xF0 # le_bytes 4 (int (length s)) @ s"
proof -
  let ?l = "int (length s)"
  consider "?l < 64" | "64 \<le> ?l" "?l < 4096" | "4096 \<le> ?l" by linarith
  then show thesis
  proof cases
    case 1
    then have "128 OR ?l = 128 + ?l" using int_or_disjoint [of ?l 6 2] by simp
    then have e: "encodeString s = word_of_int (128 + ?l) # s"
      using 1 by (simp add: encodeString_def Let_def)
    obtain b :: byte where b: "word_of_int (128 + ?l) = b" "uint b = 2 * 64 + ?l"
      by (rule byte_exists [of "128 + ?l"]) (use 1 in simp_all)
    have "uint b mod 64 = ?l"
      using 1 unfolding b by (intro mod_offset) simp_all
    moreover have "128 \<le> uint b" "uint b < 192" using 1 b(2) by linarith+
    ultimately show thesis using short e b(1) by metis
  next
    case 2
    then have q: "0 \<le> ?l div 256" "?l div 256 < 16" by linarith+
    then have "224 OR (?l div 256 mod 16) = 224 + ?l div 256"
      using int_or_disjoint [of "?l div 256" 4 14] by simp
    then have e: "encodeString s = word_of_int (224 + ?l div 256) # word_of_int (?l mod 256) # s"
      using 2 by (simp add: encodeString_def Let_def low_masks drop_bit_eq_div)
    obtain b0 :: byte where b0: "word_of_int (224 + ?l div 256) = b0" "uint b0 = 14 * 16 + ?l div 256"
      by (rule byte_exists [of "224 + ?l div 256"]) (use q in \<open>linarith | simp\<close>)+
    obtain b1 :: byte where b1: "word_of_int (?l mod 256) = b1" "uint b1 = ?l mod 256"
      by (rule byte_exists [of "?l mod 256"]) simp_all
    have m: "uint b0 mod 16 = ?l div 256"
      using q unfolding b0 by (rule mod_offset)
    have "push_bit 8 (?l div 256) OR (?l mod 256) = ?l div 256 * 256 + ?l mod 256"
      using int_or_disjoint [of "?l mod 256" 8 "?l div 256"] by (simp add: push_bit_eq_mult)
    then have "push_bit 8 (uint b0 mod 16) OR uint b1 = ?l" by (simp only: m b1 div_mult_mod_eq)
    moreover have "224 \<le> uint b0" "uint b0 < 240" using q b0(2) by linarith+
    ultimately show thesis using medium e b0(1) b1(1) by metis
  next
    case 3
    then show thesis by (intro long) (simp add: encodeString_def Let_def)
  qed
qed

lemma decodePayload_encodeString:
  assumes "length s < 2 ^ 32"
  shows "decodePayload (encodeString s @ rest) = Some (LpStr s, length (encodeString s))"
proof (cases rule: encodeString_cases [of s])
  case (short b)
  then show ?thesis by (simp add: decodePayload_short Let_def)
next
  case (medium b0 b1)
  then show ?thesis by (simp add: decodePayload_medium Let_def)
next
  case long
  have "take_bit 32 (int (length s)) = int (length s)" using assms by (intro take_bit_fits) simp_all
  then show ?thesis using long by (simp add: decodePayload_tagged le_value_le_bytes Let_def)
qed

section \<open>Whole entries\<close>

text \<open>An entry \<open>bs\<close> represents \<open>e\<close> when it decodes to \<open>e\<close> and is consumed exactly.\<close>

definition lp_entry :: "lp_element \<Rightarrow> bytes \<Rightarrow> bool" where
  "lp_entry e bs \<longleftrightarrow> decodeEntry bs = Some (e, length bs)"

text \<open>The element that \<open>append\<close> makes of a string.\<close>

definition elem_of :: "bytes \<Rightarrow> lp_element" where
  "elem_of v = (case stringToInt64 v of Some n \<Rightarrow> LpInt n | None \<Rightarrow> LpStr v)"

lemma toString_elem_of [simp]: "lp_toString (elem_of v) = v"
  by (simp add: elem_of_def stringToInt64_to_string split: option.splits)

lemma elem_of_inj: "elem_of u = elem_of v \<longleftrightarrow> u = v"
  by (metis toString_elem_of)

lemma lp_matches_elem_of: "lp_matches v (elem_of u) \<longleftrightarrow> u = v"
  by (auto simp: elem_of_def split: option.splits dest: stringToInt64_inj)

lemma decodeEntry_payload:
  assumes "\<And>rest. decodePayload (payload @ rest) = Some (e, length payload)"
  shows "lp_entry e (payload @ encodeBacklen (length payload))"
  using assms by (simp add: lp_entry_def decodeEntry_def)

lemma lp_entry_buildIntegerEntry: "is_int64 v \<Longrightarrow> lp_entry (LpInt v) (buildIntegerEntry v)"
  by (simp add: buildIntegerEntry_def Let_def decodeEntry_payload decodePayload_encodeInteger)

lemma lp_entry_buildEntry:
  assumes "length v < 2 ^ 32"
  shows "lp_entry (elem_of v) (buildEntry v)"
proof (cases "stringToInt64 v")
  case None
  with assms show ?thesis
    by (simp add: buildEntry_def Let_def elem_of_def decodeEntry_payload decodePayload_encodeString)
next
  case (Some n)
  then have "is_int64 n" by (rule stringToInt64_range)
  with Some show ?thesis
    by (simp add: buildEntry_def Let_def elem_of_def decodeEntry_payload decodePayload_encodeInteger)
qed

text \<open>A decode consumes at least one and at most all bytes, and depends on nothing else.\<close>

lemma decodePayload_local:
  assumes "decodePayload p = Some (e, n)" and "n \<le> length p"
  shows "decodePayload (take n p @ rest) = Some (e, n)"
proof -
  have n: "0 < n" using assms(1) by (rule decodePayload_pos)
  with assms(2) obtain b q where p: "p = b # q" by (cases p) auto
  consider "uint b < 128" | "128 \<le> uint b" "uint b < 192" | "192 \<le> uint b" "uint b < 224"
    | "224 \<le> uint b" "uint b < 240" | "b = 0xF0" | "b = 0xF1" | "b = 0xF2" | "b = 0xF3" | "b = 0xF4"
    | "240 \<le> uint b" "b \<notin> {0xF0, 0xF1, 0xF2, 0xF3, 0xF4}" by fastforce
  then show ?thesis
  proof cases
    case 1
    then show ?thesis using assms(1) by (auto simp: p decodePayload_byte)
  next
    case 2
    then show ?thesis using assms(1) by (auto simp: p decodePayload_short Let_def split: if_splits)
  next
    case 3
    then show ?thesis using assms(1) by (cases q) (auto simp: p decodePayload_13bit Let_def)
  next
    case 4
    then show ?thesis
      using assms(1) by (cases q) (auto simp: p decodePayload_medium Let_def split: if_splits)
  next
    case 5
    then obtain l where l: "l = nat (le_value (take 4 q))" "4 + l \<le> length q" "n = 5 + l"
        "e = LpStr (take l (drop 4 q))"
      using assms(1) by (auto simp: p decodePayload_tagged Let_def split: if_splits)
    have "take n p @ rest = 0xF0 # (take (4 + l) q @ rest)" by (simp add: p 5 l(3) take_Cons')
    moreover have "take 4 (take (4 + l) q @ rest) = take 4 q"
      "take l (drop 4 (take (4 + l) q @ rest)) = take l (drop 4 q)"
      using take_drop_prefix [of 0 4 "4 + l" q rest] take_drop_prefix [of 4 l "4 + l" q rest] l(2)
      by simp_all
    ultimately show ?thesis
      using l by (simp only: decodePayload_tagged Let_def) simp
  next
    case 6
    then show ?thesis using assms(1) by (auto simp: p decodePayload_tagged split: if_splits)
  next
    case 7
    then show ?thesis using assms(1) by (auto simp: p decodePayload_tagged Let_def split: if_split_asm)
  next
    case 8
    then show ?thesis using assms(1) by (auto simp: p decodePayload_tagged split: if_splits)
  next
    case 9
    then show ?thesis using assms(1) by (auto simp: p decodePayload_tagged split: if_splits)
  next
    case 10
    then show ?thesis using assms(1) decodePayload_reserved by (simp add: p)
  qed
qed

lemma decodeEntry_local:
  assumes "decodeEntry p = Some (e, n)"
  shows "0 < n \<and> n \<le> length p \<and> decodeEntry (take n p @ rest) = Some (e, n)"
proof -
  obtain k where k: "decodePayload p = Some (e, k)"
    and n: "n = k + length (encodeBacklen k)" "n \<le> length p"
    using assms by (auto simp: decodeEntry_def Let_def split: option.splits if_splits)
  have "k \<le> length p" using n by simp
  with k have "decodePayload (take k p @ drop k (take n p) @ rest) = Some (e, k)"
    by (rule decodePayload_local)
  moreover have "take k p @ drop k (take n p) = take n p"
    using n by (metis append_take_drop_id le_add1 min.absorb1 take_take)
  ultimately have "decodePayload (take n p @ rest) = Some (e, k)" by (metis append_assoc)
  moreover have "0 < k" using k by (rule decodePayload_pos)
  ultimately show ?thesis using n by (simp add: decodeEntry_def)
qed

lemma lp_entry_append: "lp_entry e bs \<Longrightarrow> decodeEntry (bs @ rest) = Some (e, length bs)"
  using decodeEntry_local [of bs e "length bs" rest] by (simp add: lp_entry_def)

lemma lp_entry_nonempty: "lp_entry e bs \<Longrightarrow> bs \<noteq> []"
  using decodeEntry_local [of bs e "length bs"] by (auto simp: lp_entry_def)

lemma lp_entry_take: "decodeEntry p = Some (e, n) \<Longrightarrow> lp_entry e (take n p)"
  using decodeEntry_local [of p e n "[]"] by (simp add: lp_entry_def min_def)

lemma decodeEntry_eof: "decodeEntry (255 # p) = None"
  by (simp add: decodeEntry_def decodePayload_def Let_def)

lemma lp_entry_hd: "lp_entry e bs \<Longrightarrow> (bs @ rest) ! 0 \<noteq> 255"
  using lp_entry_nonempty [of e bs] decodeEntry_eof by (cases bs) (auto simp: lp_entry_def)

end
