(* ===== verification/Listpack_Seq.thy ===== *)
theory Listpack_Seq
  imports Listpack_Entries
begin

text \<open>
  The sequence level of the listpack. \<open>lp_rep buf es\<close> says that the buffer is a well-formed
  listpack holding the elements \<open>es\<close>: header, entries, terminator, and an element count that
  is exact unless it is saturated at \<open>65535\<close>. Every walk over such a buffer is the
  corresponding list function, and every mutation is the corresponding list update.
\<close>

section \<open>The representation\<close>

definition lp_buffer :: "nat \<Rightarrow> bytes list \<Rightarrow> bytes" where
  "lp_buffer c ebs =
     le_bytes 4 (int (7 + length (concat ebs))) @ le_bytes 2 (int c) @ concat ebs @ [kListpackEof]"

definition lp_rep :: "bytes \<Rightarrow> lp_element list \<Rightarrow> bool" where
  "lp_rep buf es \<longleftrightarrow> (\<exists>c ebs. buf = lp_buffer c ebs \<and> list_all2 lp_entry es ebs \<and>
     (c = 65535 \<or> c = length es \<and> c < 65535))"

lemma length_lp_buffer [simp]: "length (lp_buffer c ebs) = 7 + length (concat ebs)"
  by (simp add: lp_buffer_def)

lemma lp_rep_I:
  "list_all2 lp_entry es ebs \<Longrightarrow> c = 65535 \<or> c = length es \<and> c < 65535 \<Longrightarrow> lp_rep (lp_buffer c ebs) es"
  by (auto simp: lp_rep_def)

lemma lp_rep_E:
  assumes "lp_rep buf es"
  obtains c ebs where "buf = lp_buffer c ebs" "list_all2 lp_entry es ebs"
    "c = 65535 \<or> c = length es \<and> c < 65535" "length ebs = length es" "c \<le> 65535"
proof -
  from assms obtain c ebs where r: "buf = lp_buffer c ebs" "list_all2 lp_entry es ebs"
    "c = 65535 \<or> c = length es \<and> c < 65535"
    unfolding lp_rep_def by blast
  have "length ebs = length es" using r(2) by (simp add: list_all2_lengthD)
  moreover have "c \<le> 65535" using r(3) by auto
  ultimately show thesis using that r by blast
qed

text \<open>The header fields of a buffer with any body.\<close>

lemma storedCount_header:
  "length h = 4 \<Longrightarrow> c \<le> 65535 \<Longrightarrow> storedCount (h @ le_bytes 2 (int c) @ body) = c"
  by (simp add: storedCount_def le_value_le_bytes take_bit_fits)

lemma setTotalBytes_header: "length h = 4 \<Longrightarrow> setTotalBytes n (h @ rest) = le_bytes 4 (int n) @ rest"
  by (simp add: setTotalBytes_def)

lemma setNumElements_header:
  "length h = 4 \<Longrightarrow> length k = 2 \<Longrightarrow>
   setNumElements n (h @ k @ rest) = h @ le_bytes 2 (int (min n 65535)) @ rest"
  by (simp add: setNumElements_def)

lemma storedCount_lp_buffer: "c \<le> 65535 \<Longrightarrow> storedCount (lp_buffer c ebs) = c"
  by (simp add: lp_buffer_def storedCount_header del: of_nat_add)

lemma lp_rebuild:
  assumes "length h = 4" and "buf = h @ le_bytes 2 (int c) @ concat ebs @ [kListpackEof]"
  shows "setTotalBytes (length buf) buf = lp_buffer c ebs"
  using assms by (simp add: lp_buffer_def setTotalBytes_header)

lemma setNumElements_lp_buffer: "setNumElements n (lp_buffer c ebs) = lp_buffer (min n 65535) ebs"
  by (simp add: lp_buffer_def setNumElements_header del: of_nat_add)

lemma lp_new_rep [simp]: "lp_new = lp_buffer 0 []"
  by (simp add: lp_new_def setTotalBytes_def setNumElements_def lp_buffer_def)

lemma lp_clear_rep [simp]: "lp_clear buf = lp_new"
  by (simp add: lp_clear_def lp_new_def del: lp_new_rep)

section \<open>Walks\<close>

lemma lp_more_end [simp]: "\<not> lp_more (pre @ [kListpackEof]) (length pre)"
  by (simp add: nth_append)

lemma lp_more_entry:
  assumes "lp_entry e eb"
  shows "lp_more (pre @ eb @ rest) (length pre)"
  using lp_entry_nonempty [OF assms] lp_entry_hd [OF assms, of rest]
  by (cases eb) (simp_all add: nth_append)

lemma decodeAt_entry:
  assumes "lp_entry e eb"
  shows "decodeAt (pre @ eb @ rest) (length pre) = Some (e, length eb)"
  using lp_entry_nonempty [OF assms] lp_entry_append [OF assms] by (simp add: decodeAt_def)

lemmas walk_entry = lp_more_entry decodeAt_entry

lemma lp_forEachFrom_rep:
  "list_all2 lp_entry es ebs \<Longrightarrow> lp_forEachFrom (pre @ concat ebs @ [kListpackEof]) (length pre) = es"
proof (induction arbitrary: pre rule: list_all2_induct)
  case Nil
  then show ?case by (simp add: lp_forEachFrom.simps)
next
  case (Cons e es eb ebs)
  from Cons.IH [of "pre @ eb"] show ?case
    using walk_entry [OF Cons.hyps(1), of pre "concat ebs @ [kListpackEof]"]
    by (subst lp_forEachFrom.simps) simp
qed

lemma offsetOfLoop_rep:
  "list_all2 lp_entry es ebs \<Longrightarrow>
   offsetOfLoop (pre @ concat ebs @ [kListpackEof]) (cur + i) (length pre) cur =
     (if i < length ebs then Some (length pre + length (concat (take i ebs))) else None)"
proof (induction arbitrary: pre cur i rule: list_all2_induct)
  case Nil
  then show ?case by (simp add: offsetOfLoop.simps)
next
  case (Cons e es eb ebs)
  note w = walk_entry [OF Cons.hyps(1), of pre "concat ebs @ [kListpackEof]"]
  show ?case
  proof (cases i)
    case 0
    with w show ?thesis by (subst offsetOfLoop.simps) simp
  next
    case (Suc k)
    then show ?thesis
      using w Cons.IH [of "pre @ eb" "cur + 1" k] by (subst offsetOfLoop.simps) simp
  qed
qed

lemma skipEntries_rep:
  "list_all2 lp_entry es ebs \<Longrightarrow>
   skipEntries (pre @ concat ebs @ [kListpackEof]) n (length pre) =
     (if n \<le> length ebs then Some (length pre + length (concat (take n ebs))) else None)"
proof (induction arbitrary: pre n rule: list_all2_induct)
  case Nil
  then show ?case by (cases n) simp_all
next
  case (Cons e es eb ebs)
  note w = walk_entry [OF Cons.hyps(1), of pre "concat ebs @ [kListpackEof]"]
  show ?case using w Cons.IH [of "pre @ eb"] by (cases n) auto
qed

lemma findLoop_rep:
  "list_all2 lp_entry es ebs \<Longrightarrow>
   findLoop (pre @ concat ebs @ [kListpackEof]) v start step (length pre) idx =
     find_idx (\<lambda>i e. start \<le> i \<and> (i - start) mod step = 0 \<and> lp_matches v e) idx es"
proof (induction arbitrary: pre idx rule: list_all2_induct)
  case Nil
  then show ?case by (simp add: findLoop.simps)
next
  case (Cons e es eb ebs)
  from Cons.IH [of "pre @ eb" "Suc idx"] show ?case
    using walk_entry [OF Cons.hyps(1), of pre "concat ebs @ [kListpackEof]"]
    by (subst findLoop.simps) simp
qed

text \<open>The loops started behind the six header bytes.\<close>

lemma lp_buffer_split:
  obtains pre where "length pre = 6" "lp_buffer c ebs = pre @ concat ebs @ [kListpackEof]"
  using that [of "le_bytes 4 (int (7 + length (concat ebs))) @ le_bytes 2 (int c)"]
  by (simp add: lp_buffer_def del: of_nat_add)

lemma lp_forEach_rep: "list_all2 lp_entry es ebs \<Longrightarrow> lp_forEach (lp_buffer c ebs) = es"
  by (rule lp_buffer_split [of c ebs]) (metis lp_forEachFrom_rep lp_forEach_def)

lemma offsetOf_rep:
  "list_all2 lp_entry es ebs \<Longrightarrow>
   offsetOf (lp_buffer c ebs) i = (if i < length ebs then Some (6 + length (concat (take i ebs))) else None)"
  using offsetOfLoop_rep [of es ebs _ 0 i]
  by (rule_tac lp_buffer_split [of c ebs]) (metis offsetOf_def add_0)

lemma lp_find_rep:
  assumes "list_all2 lp_entry es ebs"
  shows "lp_find (lp_buffer c ebs) v start step =
     find_idx (\<lambda>i e. start \<le> i \<and> (i - start) mod step = 0 \<and> lp_matches v e) 0 es"
proof -
  obtain pre where "length pre = 6" "lp_buffer c ebs = pre @ concat ebs @ [kListpackEof]"
    by (rule lp_buffer_split)
  then show ?thesis
    using findLoop_rep [OF assms, of pre v start step 0] by (simp only: lp_find_def)
qed

lemma lp_numElements_rep:
  assumes "list_all2 lp_entry es ebs" and "c = 65535 \<or> c = length es \<and> c < 65535"
  shows "lp_numElements (lp_buffer c ebs) = length es"
  using assms by (auto simp: lp_numElements_def storedCount_lp_buffer lp_forEach_rep Let_def)

section \<open>Mutations\<close>

lemma lp_appendEntry_buffer:
  assumes "c \<le> 65535"
  shows "lp_appendEntry eb (lp_buffer c ebs) = lp_buffer (if c < 65535 then c + 1 else c) (ebs @ [eb])"
proof -
  let ?h = "le_bytes 4 (int (7 + length (concat ebs)))"
  let ?b = "?h @ le_bytes 2 (int c) @ concat (ebs @ [eb]) @ [kListpackEof]"
  have "butlast (lp_buffer c ebs) @ eb @ [last (lp_buffer c ebs)] = ?b"
    by (simp add: lp_buffer_def butlast_append del: of_nat_add)
  moreover have "setTotalBytes (length ?b) ?b = lp_buffer c (ebs @ [eb])"
    by (rule lp_rebuild) simp_all
  ultimately have "lp_appendEntry eb (lp_buffer c ebs) =
      (if storedCount (lp_buffer c (ebs @ [eb])) < 65535
       then setNumElements (storedCount (lp_buffer c (ebs @ [eb])) + 1) (lp_buffer c (ebs @ [eb]))
       else lp_buffer c (ebs @ [eb]))"
    by (simp only: lp_appendEntry_def Let_def)
  then show ?thesis
    using assms by (simp add: storedCount_lp_buffer setNumElements_lp_buffer)
qed

text \<open>Cutting the buffer at the start of an entry.\<close>

lemma lp_buffer_cut:
  "take (6 + length (concat (take i ebs))) (lp_buffer c ebs) =
     le_bytes 4 (int (7 + length (concat ebs))) @ le_bytes 2 (int c) @ concat (take i ebs)"
  (is "?A")
  "drop (6 + length (concat (take i ebs))) (lp_buffer c ebs) = concat (drop i ebs) @ [kListpackEof]"
  (is "?B")
proof -
  let ?x = "le_bytes 4 (int (7 + length (concat ebs))) @ le_bytes 2 (int c) @ concat (take i ebs)"
  have "concat ebs = concat (take i ebs) @ concat (drop i ebs)"
    by (metis append_take_drop_id concat_append)
  then have "?x @ concat (drop i ebs) @ [kListpackEof] = lp_buffer c ebs"
    by (simp only: lp_buffer_def append_assoc)
  moreover have "6 + length (concat (take i ebs)) = length ?x" by simp
  ultimately show ?A ?B by (metis append_eq_conv_conj)+
qed

lemma decodeAt_buffer:
  assumes r: "list_all2 lp_entry es ebs" and i: "i < length es"
  shows "decodeAt (lp_buffer c ebs) (6 + length (concat (take i ebs))) = Some (es ! i, length (ebs ! i))"
proof -
  let ?pre = "take (6 + length (concat (take i ebs))) (lp_buffer c ebs)"
  have "i < length ebs" using r i by (simp add: list_all2_lengthD)
  then have "drop (6 + length (concat (take i ebs))) (lp_buffer c ebs) =
      ebs ! i @ concat (drop (Suc i) ebs) @ [kListpackEof]"
    by (simp only: lp_buffer_cut Cons_nth_drop_Suc [symmetric] concat.simps append_assoc)
  then have "lp_buffer c ebs = ?pre @ ebs ! i @ concat (drop (Suc i) ebs) @ [kListpackEof]"
    by (metis append_take_drop_id)
  moreover have "length ?pre = 6 + length (concat (take i ebs))" unfolding lp_buffer_cut by simp
  moreover have "lp_entry (es ! i) (ebs ! i)" using r i by (simp add: list_all2_nthD)
  ultimately show ?thesis using decodeAt_entry [of "es ! i" "ebs ! i" ?pre] by metis
qed

lemma skipEntries_buffer:
  assumes "list_all2 lp_entry es ebs" and "i \<le> length ebs"
  shows "skipEntries (lp_buffer c ebs) n (6 + length (concat (take i ebs))) =
     (if i + n \<le> length ebs then Some (6 + length (concat (take (i + n) ebs))) else None)"
proof -
  let ?pre = "take (6 + length (concat (take i ebs))) (lp_buffer c ebs)"
  have b: "lp_buffer c ebs = ?pre @ concat (drop i ebs) @ [kListpackEof]"
    by (metis append_take_drop_id lp_buffer_cut(2))
  have l: "length ?pre = 6 + length (concat (take i ebs))"
    unfolding lp_buffer_cut by simp
  have "list_all2 lp_entry (drop i es) (drop i ebs)" using assms(1) by (rule list_all2_dropI)
  note s = skipEntries_rep [OF this, of ?pre n]
  have t: "length (concat (take (i + n) ebs)) =
      length (concat (take i ebs)) + length (concat (take n (drop i ebs)))"
    by (simp add: take_add)
  show ?thesis
    using assms(2) s unfolding b [symmetric] l t by auto
qed

lemma lp_eraseRange_buffer:
  assumes r: "list_all2 lp_entry es ebs" and c: "c = 65535 \<or> c = length es \<and> c < 65535"
    and i: "i < length es" "i + n \<le> length es" and n: "0 < n"
  shows "lp_eraseRange i n (lp_buffer c ebs) =
    (True, lp_buffer (if c < 65535 then c - n else min (length es - n) 65535)
       (take i ebs @ drop (i + n) ebs))"
proof -
  let ?ebs = "take i ebs @ drop (i + n) ebs" and ?es = "take i es @ drop (i + n) es"
  have l: "length ebs = length es" using r by (simp add: list_all2_lengthD)
  let ?b = "le_bytes 4 (int (7 + length (concat ebs))) @ le_bytes 2 (int c) @ concat ?ebs @ [kListpackEof]"
  have t: "setTotalBytes (length ?b) ?b = lp_buffer c ?ebs" by (rule lp_rebuild) simp_all
  have o: "offsetOf (lp_buffer c ebs) i = Some (6 + length (concat (take i ebs)))"
    using i(1) l offsetOf_rep [OF r] by simp
  have s: "skipEntries (lp_buffer c ebs) n (6 + length (concat (take i ebs))) =
      Some (6 + length (concat (take (i + n) ebs)))"
    using i l skipEntries_buffer [OF r, of i] by simp
  have "take (6 + length (concat (take i ebs))) (lp_buffer c ebs) @
      drop (6 + length (concat (take (i + n) ebs))) (lp_buffer c ebs) = ?b"
    unfolding lp_buffer_cut by simp
  then have e: "lp_eraseRange i n (lp_buffer c ebs) = (True,
      if storedCount (lp_buffer c ?ebs) < 65535
      then setNumElements (if storedCount (lp_buffer c ?ebs) \<ge> n then storedCount (lp_buffer c ?ebs) - n else 0)
        (lp_buffer c ?ebs)
      else setNumElements (lp_numElements (lp_buffer c ?ebs)) (lp_buffer c ?ebs))"
    using n t by (simp only: lp_eraseRange_def o s option.case Let_def) simp
  have k: "storedCount (lp_buffer c ?ebs) = c" using c by (auto intro: storedCount_lp_buffer)
  have "list_all2 lp_entry ?es ?ebs"
    using r by (intro list_all2_appendI list_all2_takeI list_all2_dropI)
  then have m: "c = 65535 \<Longrightarrow> lp_numElements (lp_buffer c ?ebs) = length es - n"
    using lp_numElements_rep [of ?es ?ebs c] i by simp
  show ?thesis
    unfolding e k setNumElements_lp_buffer using c m i by (auto simp: min_def)
qed

lemma lp_replaceAt_buffer:
  assumes r: "list_all2 lp_entry es ebs" and i: "i < length es"
  shows "lp_replaceAt i v (lp_buffer c ebs) = (True, lp_buffer c (ebs[i := buildEntry v]))"
proof -
  let ?o = "6 + length (concat (take i ebs))"
  have l: "length ebs = length es" using r by (simp add: list_all2_lengthD)
  then have o: "offsetOf (lp_buffer c ebs) i = Some ?o" using i offsetOf_rep [OF r] by simp
  have d: "drop ?o (lp_buffer c ebs) = ebs ! i @ concat (drop (Suc i) ebs) @ [kListpackEof]"
    using i l by (simp only: lp_buffer_cut Cons_nth_drop_Suc [symmetric] concat.simps append_assoc)
  have e: "decodeAt (lp_buffer c ebs) ?o = Some (es ! i, length (ebs ! i))"
    using r i by (rule decodeAt_buffer)
  let ?b = "le_bytes 4 (int (7 + length (concat ebs))) @ le_bytes 2 (int c) @
    concat (ebs[i := buildEntry v]) @ [kListpackEof]"
  have "drop (?o + length (ebs ! i)) (lp_buffer c ebs) = drop (length (ebs ! i)) (drop ?o (lp_buffer c ebs))"
    by (simp only: drop_drop add.commute)
  then have dr: "drop (?o + length (ebs ! i)) (lp_buffer c ebs) = concat (drop (Suc i) ebs) @ [kListpackEof]"
    unfolding d by simp
  have u: "ebs[i := buildEntry v] = take i ebs @ buildEntry v # drop (Suc i) ebs"
    using i l by (simp add: upd_conv_take_nth_drop)
  have lt: "length (take ?o (lp_buffer c ebs)) = ?o" unfolding lp_buffer_cut by simp
  have cut: "take ?o (take ?o (lp_buffer c ebs) @ r) = take ?o (lp_buffer c ebs)"
    "drop ?o (take ?o (lp_buffer c ebs) @ r) = r" for r
    by (metis append_eq_conv_conj lt)+
  have "take ?o (take ?o (lp_buffer c ebs) @ drop (?o + length (ebs ! i)) (lp_buffer c ebs)) @
      buildEntry v @ drop ?o (take ?o (lp_buffer c ebs) @ drop (?o + length (ebs ! i)) (lp_buffer c ebs)) = ?b"
    unfolding cut dr u unfolding lp_buffer_cut by simp
  moreover have "setTotalBytes (length ?b) ?b = lp_buffer c (ebs[i := buildEntry v])"
    by (rule lp_rebuild) simp_all
  ultimately show ?thesis by (simp only: lp_replaceAt_def o e option.case prod.case Let_def)
qed

lemma lp_insertAt_buffer:
  assumes r: "list_all2 lp_entry es ebs" and c: "c = 65535 \<or> c = length es \<and> c < 65535"
    and i: "i \<le> length es"
  shows "lp_insertAt i v (lp_buffer c ebs) =
    (True, lp_buffer (if c < 65535 then c + 1 else c) (take i ebs @ buildEntry v # drop i ebs))"
proof -
  let ?o = "6 + length (concat (take i ebs))" and ?ebs = "take i ebs @ buildEntry v # drop i ebs"
  have l: "length ebs = length es" using r by (simp add: list_all2_lengthD)
  have at: "(if i = lp_numElements (lp_buffer c ebs) then Some (length (lp_buffer c ebs) - 1)
      else offsetOf (lp_buffer c ebs) i) = Some ?o"
    using i l offsetOf_rep [OF r] lp_numElements_rep [OF r c] by simp
  let ?b = "le_bytes 4 (int (7 + length (concat ebs))) @ le_bytes 2 (int c) @
    concat ?ebs @ [kListpackEof]"
  have "take ?o (lp_buffer c ebs) @ buildEntry v @ drop ?o (lp_buffer c ebs) = ?b"
    unfolding lp_buffer_cut by simp
  moreover have "setTotalBytes (length ?b) ?b = lp_buffer c ?ebs" by (rule lp_rebuild) simp_all
  ultimately have "lp_insertAt i v (lp_buffer c ebs) = (True,
      if storedCount (lp_buffer c ?ebs) < 65535
      then setNumElements (storedCount (lp_buffer c ?ebs) + 1) (lp_buffer c ?ebs)
      else lp_buffer c ?ebs)"
    by (simp only: lp_insertAt_def at Let_def option.case)
  moreover have "storedCount (lp_buffer c ?ebs) = c" using c by (auto intro: storedCount_lp_buffer)
  ultimately show ?thesis by (simp add: setNumElements_lp_buffer)
qed

section \<open>Adopted bytes\<close>

lemma take_split: "k \<le> n \<Longrightarrow> take n xs = take k xs @ take (n - k) (drop k xs)"
  using take_add [of k "n - k" xs] by simp

lemma validateLoop_rep:
  "list_all2 lp_entry es ebs \<Longrightarrow> validateLoop (pre @ concat ebs @ [kListpackEof]) (length pre) n =
     Some (length pre + length (concat ebs), n + length es)"
proof (induction arbitrary: pre n rule: list_all2_induct)
  case Nil
  then show ?case by (simp add: validateLoop.simps)
next
  case (Cons e es eb ebs)
  from Cons.IH [of "pre @ eb" "n + 1"] show ?case
    using walk_entry [OF Cons.hyps(1), of pre "concat ebs @ [kListpackEof]"]
    by (subst validateLoop.simps) simp
qed

lemma validateLoop_sound:
  "validateLoop buf off n = Some (off', n') \<Longrightarrow> off \<le> length buf \<Longrightarrow>
   \<exists>es ebs. off' \<le> length buf \<and> off \<le> off' \<and> take (off' - off) (drop off buf) = concat ebs \<and>
     list_all2 lp_entry es ebs \<and> n' = n + length es"
proof (induction buf off n rule: validateLoop.induct)
  case (1 buf off n)
  show ?case
  proof (cases "lp_more buf off")
    case False
    with 1(2,3) have "off' = off" "n' = n" by (auto simp: validateLoop.simps)
    with 1(3) show ?thesis by (intro exI [of _ "[]"]) simp
  next
    case more: True
    with 1(2) obtain e k where d: "decodeAt buf off = Some (e, k)"
        and v: "validateLoop buf (off + k) (n + 1) = Some (off', n')"
      by (auto simp: validateLoop.simps [of buf off] split: option.splits)
    then have de: "decodeEntry (drop off buf) = Some (e, k)"
      by (auto simp: decodeAt_def split: if_splits)
    then have k: "0 < k" "k \<le> length buf - off"
      using decodeEntry_local [OF de] by simp_all
    with 1(3) have "off + k \<le> length buf" by simp
    from 1(1) [OF more d refl v this] obtain es ebs where
      r: "off' \<le> length buf" "off + k \<le> off'" "take (off' - (off + k)) (drop (off + k) buf) = concat ebs"
         "list_all2 lp_entry es ebs" "n' = n + 1 + length es" by blast
    have "take (off' - off) (drop off buf) = take k (drop off buf) @ concat ebs"
      using r(2) take_split [of k "off' - off" "drop off buf"] by (simp flip: r(3) add: add.commute)
    moreover have "lp_entry e (take k (drop off buf))" using de by (rule lp_entry_take)
    ultimately show ?thesis using r
      by (intro exI [of _ "e # es"] exI [of _ "take k (drop off buf) # ebs"]) simp
  qed
qed

lemma lp_fromBytes_rep: "lp_rep buf es \<Longrightarrow> length buf < 2 ^ 32 \<Longrightarrow> lp_fromBytes buf = Some buf"
proof (erule lp_rep_E)
  fix c ebs
  assume r: "buf = lp_buffer c ebs" "list_all2 lp_entry es ebs"
    "c = 65535 \<or> c = length es \<and> c < 65535" "c \<le> 65535" and b: "length buf < 2 ^ 32"
  obtain pre where "length pre = 6" "lp_buffer c ebs = pre @ concat ebs @ [kListpackEof]"
    by (rule lp_buffer_split)
  with validateLoop_rep [OF r(2), of pre 0]
  have "validateLoop (lp_buffer c ebs) 6 0 = Some (6 + length (concat ebs), length es)" by simp
  moreover have "le_value (take 4 (lp_buffer c ebs)) = int (length (lp_buffer c ebs))"
    using b by (simp add: r(1) lp_buffer_def le_value_le_bytes take_bit_fits)
  moreover have "last (lp_buffer c ebs) = 255" by (simp add: lp_buffer_def)
  ultimately show "lp_fromBytes buf = Some buf"
    using r(3) by (auto simp: lp_fromBytes_def r(1) storedCount_lp_buffer)
qed

lemma lp_fromBytes_sound:
  assumes "lp_fromBytes bs = Some buf"
  shows "buf = bs \<and> length bs < 2 ^ 32 \<and> (\<exists>es. lp_rep bs es)"
proof -
  from assms obtain off n where
    f: "buf = bs" "7 \<le> length bs" "le_value (take 4 bs) = int (length bs)" "last bs = 255"
      "validateLoop bs 6 0 = Some (off, n)" "off = length bs - 1"
      "storedCount bs < 65535 \<longrightarrow> storedCount bs = n"
    by (auto simp: lp_fromBytes_def Let_def split: if_splits option.splits)
  have "off \<le> length bs" "6 \<le> length bs" using f by simp_all
  with validateLoop_sound [OF f(5)] obtain es ebs where
    v: "take (off - 6) (drop 6 bs) = concat ebs" "list_all2 lp_entry es ebs" "n = length es"
    by auto
  let ?c = "le_value (take 2 (drop 4 bs))"
  have c: "0 \<le> ?c" "?c \<le> 65535"
    using le_value_nonneg [of "take 2 (drop 4 bs)"] le_value_less [of "take 2 (drop 4 bs)"] f(2) by simp_all
  have "bs = butlast bs @ [255]"
    using f(2,4) by (metis append_butlast_last_id list.size(3) not_numeral_le_zero)
  also have "butlast bs = take 4 bs @ take 2 (drop 4 bs) @ take (off - 6) (drop 6 bs)"
    using f(2,6) take_split [of 4 "length bs - 1" bs] take_split [of 2 "length bs - 5" "drop 4 bs"]
    by (simp add: butlast_conv_take)
  finally have bs: "bs = take 4 bs @ take 2 (drop 4 bs) @ concat ebs @ [255]" using v(1) by simp
  have "take 4 bs = le_bytes 4 (int (length bs))"
    using le_bytes_le_value [of "take 4 bs"] f(2,3) by simp
  moreover have "take 2 (drop 4 bs) = le_bytes 2 (int (nat ?c))"
    using le_bytes_le_value [of "take 2 (drop 4 bs)"] f(2) c by simp
  moreover have len: "length bs = 7 + length (concat ebs)"
    using arg_cong [OF v(1), of length] f(2,6) by simp
  ultimately have "bs = lp_buffer (nat ?c) ebs" using bs by (simp only: lp_buffer_def)
  moreover have "nat ?c = 65535 \<or> nat ?c = length es \<and> nat ?c < 65535"
    using f(7) v(3) c by (auto simp: storedCount_def)
  ultimately have "lp_rep bs es" using v(2) lp_rep_I by metis
  moreover have "int (length bs) < 2 ^ 32"
    using le_value_less [of "take 4 bs"] f(2,3) by simp
  ultimately show ?thesis using f(1) by auto
qed

end
