(* ===== verification/Listpack_Spec.thy ===== *)
theory Listpack_Spec
  imports Listpack_Seq Interfaces
begin

text \<open>
  What the listpack promises its clients: on every buffer the validator accepts, each operation
  is the list operation on the elements, on every branch, and leaves a buffer that the
  validator accepts again. The last section treats the back-length field, which lets a reader
  find the start of an entry from its end.
\<close>

section \<open>Operations on represented sequences\<close>

lemma lp_rep_forEach: "lp_rep buf es \<Longrightarrow> lp_forEach buf = es"
  by (erule lp_rep_E) (simp add: lp_forEach_rep)

lemma lp_rep_new: "lp_rep lp_new []"
  by (auto intro: lp_rep_I)

lemma lp_rep_toStrings: "lp_rep buf (map elem_of vs) \<Longrightarrow> lp_toStrings buf = vs"
  by (simp add: lp_toStrings_def lp_rep_forEach comp_def)

lemma lp_rep_numElements: "lp_rep buf es \<Longrightarrow> lp_numElements buf = length es"
  by (erule lp_rep_E) (simp add: lp_numElements_rep)

lemma lp_rep_get: "lp_rep buf es \<Longrightarrow> lp_get buf i = (if i < length es then Some (es ! i) else None)"
  by (erule lp_rep_E) (simp add: lp_get_def offsetOf_rep decodeAt_buffer)

lemma lp_rep_appendEntry: "lp_rep buf es \<Longrightarrow> lp_entry e eb \<Longrightarrow> lp_rep (lp_appendEntry eb buf) (es @ [e])"
  by (erule lp_rep_E) (auto simp: lp_appendEntry_buffer intro!: lp_rep_I list_all2_appendI)

lemma lp_rep_append: "lp_rep buf es \<Longrightarrow> length v < 2 ^ 32 \<Longrightarrow> lp_rep (lp_append v buf) (es @ [elem_of v])"
  by (simp add: lp_append_def lp_rep_appendEntry lp_entry_buildEntry)

lemma lp_rep_appendInteger: "lp_rep buf es \<Longrightarrow> is_int64 n \<Longrightarrow> lp_rep (lp_appendInteger n buf) (es @ [LpInt n])"
  by (simp add: lp_appendInteger_def lp_rep_appendEntry lp_entry_buildIntegerEntry)

lemma lp_rep_insertAt:
  assumes "lp_rep buf es" and "length v < 2 ^ 32" and "i \<le> length es"
  obtains buf' where "lp_insertAt i v buf = (True, buf')" "lp_rep buf' (take i es @ elem_of v # drop i es)"
  using assms(1)
proof (rule lp_rep_E)
  fix c ebs
  assume r: "buf = lp_buffer c ebs" "list_all2 lp_entry es ebs" "c = 65535 \<or> c = length es \<and> c < 65535"
  have "list_all2 lp_entry (take i es @ elem_of v # drop i es) (take i ebs @ buildEntry v # drop i ebs)"
    using r(2) lp_entry_buildEntry [OF assms(2)]
    by (intro list_all2_appendI list.rel_intros list_all2_takeI list_all2_dropI) simp_all
  then have "lp_rep (lp_buffer (if c < 65535 then c + 1 else c) (take i ebs @ buildEntry v # drop i ebs))
      (take i es @ elem_of v # drop i es)"
    using r(3) assms(3) by (intro lp_rep_I) auto
  then show thesis using that lp_insertAt_buffer [OF r(2,3) assms(3)] r(1) by metis
qed

lemma lp_rep_insertAt_range:
  "lp_rep buf es \<Longrightarrow> length es < i \<Longrightarrow> lp_insertAt i v buf = (False, buf)"
  by (erule lp_rep_E) (simp add: lp_insertAt_def Let_def lp_numElements_rep offsetOf_rep)

lemma lp_rep_replaceAt:
  assumes "lp_rep buf es" and "length v < 2 ^ 32" and "i < length es"
  obtains buf' where "lp_replaceAt i v buf = (True, buf')" "lp_rep buf' (es[i := elem_of v])"
  using assms(1)
proof (rule lp_rep_E)
  fix c ebs
  assume r: "buf = lp_buffer c ebs" "list_all2 lp_entry es ebs" "c = 65535 \<or> c = length es \<and> c < 65535"
  have "list_all2 lp_entry (es[i := elem_of v]) (ebs[i := buildEntry v])"
    using r(2) lp_entry_buildEntry [OF assms(2)] by (rule list_all2_update_cong)
  then have "lp_rep (lp_buffer c (ebs[i := buildEntry v])) (es[i := elem_of v])"
    using r(3) by (intro lp_rep_I) auto
  then show thesis using that lp_replaceAt_buffer [OF r(2) assms(3)] r(1) by metis
qed

lemma lp_rep_replaceAt_range: "lp_rep buf es \<Longrightarrow> length es \<le> i \<Longrightarrow> lp_replaceAt i v buf = (False, buf)"
  by (erule lp_rep_E) (simp add: lp_replaceAt_def offsetOf_rep)

lemma lp_rep_eraseRange:
  assumes "lp_rep buf es" and "i < length es" and "i + n \<le> length es"
  obtains buf' where "lp_eraseRange i n buf = (True, buf')" "lp_rep buf' (take i es @ drop (i + n) es)"
proof (cases "n = 0")
  case True
  then show thesis using that [of buf] assms(1) by (simp add: lp_eraseRange_def)
next
  case False
  then have n: "0 < n" by simp
  show thesis using assms(1)
  proof (rule lp_rep_E)
    fix c ebs
    assume r: "buf = lp_buffer c ebs" "list_all2 lp_entry es ebs" "c = 65535 \<or> c = length es \<and> c < 65535"
    let ?c = "if c < 65535 then c - n else min (length es - n) 65535"
    have "list_all2 lp_entry (take i es @ drop (i + n) es) (take i ebs @ drop (i + n) ebs)"
      using r(2) by (intro list_all2_appendI list_all2_takeI list_all2_dropI)
    then have "lp_rep (lp_buffer ?c (take i ebs @ drop (i + n) ebs)) (take i es @ drop (i + n) es)"
      using r(3) assms(2,3) by (intro lp_rep_I) (auto simp: min_def)
    then show thesis
      using that [of "lp_buffer ?c (take i ebs @ drop (i + n) ebs)"]
        lp_eraseRange_buffer [OF r(2,3) assms(2,3) n] r(1) by simp
  qed
qed

lemma lp_rep_eraseRange_range:
  assumes "lp_rep buf es" and "0 < n" and "length es < i + n"
  shows "lp_eraseRange i n buf = (False, buf)"
  using assms(1)
proof (rule lp_rep_E)
  fix c ebs
  assume r: "buf = lp_buffer c ebs" "list_all2 lp_entry es ebs" "length ebs = length es"
  show ?thesis
  proof (cases "i < length es")
    case True
    with r assms show ?thesis
      using skipEntries_buffer [OF r(2), of i c n] by (simp add: lp_eraseRange_def offsetOf_rep)
  next
    case False
    with r assms show ?thesis by (simp add: lp_eraseRange_def offsetOf_rep)
  qed
qed

text \<open>\<open>find\<close> on a sequence whose elements were all made from strings.\<close>

lemma lp_rep_find:
  assumes "lp_rep buf (map elem_of vs)"
  shows "lp_find buf v start step =
    find_idx (\<lambda>i u. start \<le> i \<and> (i - start) mod step = 0 \<and> u = v) 0 vs"
proof -
  have "find_idx (\<lambda>i e. start \<le> i \<and> (i - start) mod step = 0 \<and> lp_matches v e) k (map elem_of vs) =
    find_idx (\<lambda>i u. start \<le> i \<and> (i - start) mod step = 0 \<and> u = v) k vs" for k
    by (induction vs arbitrary: k) (simp_all add: lp_matches_elem_of)
  then show ?thesis using assms by (auto elim!: lp_rep_E simp: lp_find_rep)
qed

text \<open>
  The listpack as a provider of the sequence contract: \<open>get\<close> is composed with the conversion to
  a string, as its clients do.
\<close>

abbreviation lp_strs :: "bytes \<Rightarrow> bytes list \<Rightarrow> bool" where
  "lp_strs buf vs \<equiv> lp_rep buf (map elem_of vs)"

abbreviation lp_fits :: "bytes \<Rightarrow> bool" where
  "lp_fits v \<equiv> length v < 2 ^ 32"

interpretation lps: seq_impl lp_strs lp_fits lp_new lp_append lp_numElements
  "\<lambda>buf i. map_option lp_toString (lp_get buf i)" lp_find lp_eraseRange lp_replaceAt lp_insertAt
proof
  show "lp_strs lp_new []" using lp_rep_new by simp
next
  fix buf vs v and i n :: nat
  assume r: "lp_strs buf vs"
  show "lp_strs (lp_append v buf) (vs @ [v])" if "lp_fits v" using lp_rep_append [OF r that] by simp
  show "lp_numElements buf = length vs" using lp_rep_numElements [OF r] by simp
  show "map_option lp_toString (lp_get buf i) = (if i < length vs then Some (vs ! i) else None)"
    using lp_rep_get [OF r, of i] by simp
  show "\<exists>s'. lp_eraseRange i n buf = (True, s') \<and> lp_strs s' (take i vs @ drop (i + n) vs)"
    if "i < length vs" "i + n \<le> length vs"
    by (rule lp_rep_eraseRange [OF r, of i n]) (use that in \<open>auto simp: take_map drop_map\<close>)
  show "\<exists>s'. lp_replaceAt i v buf = (True, s') \<and> lp_strs s' (vs[i := v])" if "i < length vs" "lp_fits v"
    by (rule lp_rep_replaceAt [OF r that(2), of i]) (use that in \<open>auto simp: map_update\<close>)
  show "\<exists>s'. lp_insertAt i v buf = (True, s') \<and> lp_strs s' (take i vs @ v # drop i vs)"
    if "i \<le> length vs" "lp_fits v"
    by (rule lp_rep_insertAt [OF r that(2), of i]) (use that in \<open>auto simp: take_map drop_map\<close>)
qed (rule lp_rep_find)

section \<open>Buffers the validator accepts\<close>

lemma lp_fromBytes_iff:
  "lp_fromBytes buf = Some buf \<longleftrightarrow> length buf < 2 ^ 32 \<and> lp_rep buf (lp_forEach buf)"
  using lp_fromBytes_sound lp_fromBytes_rep lp_rep_forEach by metis

lemma length_lp_append: "lp_rep buf es \<Longrightarrow> length (lp_append v buf) = length buf + length (buildEntry v)"
  by (erule lp_rep_E) (simp add: lp_append_def lp_appendEntry_buffer)

lemma length_buildEntry: "length v \<le> length (buildEntry v) \<or> (\<exists>n. stringToInt64 v = Some n)"
  by (cases "stringToInt64 v") (auto simp: buildEntry_def encodeString_def Let_def)

lemma lp_append_bound:
  assumes "lp_rep buf es" and "length (lp_append v buf) < 2 ^ 32"
  shows "length v < 2 ^ 32"
  using length_buildEntry [of v]
proof
  assume "length v \<le> length (buildEntry v)"
  with assms show ?thesis by (simp add: length_lp_append)
next
  assume "\<exists>n. stringToInt64 v = Some n"
  then have "length v \<le> 20" by (auto simp: stringToInt64_def split: if_splits)
  then show ?thesis by simp
qed

text \<open>A two-element buffer on which the properties below are evaluated.\<close>

definition lp_sample :: bytes where
  "lp_sample = lp_append (str ''ab'') (lp_append (str ''-7'') lp_new)"

lemmas parse_eval = stringToInt64_def kMax_def

lemmas entry_eval = parse_eval buildEntry_def encodeInteger_def encodeString_def encodeBacklen_def
  le_bytes_numeral le_bytes_Suc Let_def lp_append_def lp_appendEntry_buffer

lemma elem_of_sample: "elem_of (str ''-7'') = LpInt (- 7)" "elem_of (str ''ab'') = LpStr (str ''ab'')"
  by (simp_all add: elem_of_def parse_eval)

lemma lp_rep_sample: "lp_rep lp_sample [LpInt (- 7), LpStr (str ''ab'')]"
proof -
  have "lp_rep lp_sample (([] @ [elem_of (str ''-7'')]) @ [elem_of (str ''ab'')])"
    unfolding lp_sample_def by (intro lp_rep_append lp_rep_new) simp_all
  then show ?thesis by (simp only: elem_of_sample append.simps)
qed

lemma lp_sample_eq: "lp_sample = [14, 0, 0, 0, 2, 0, 0xDF, 0xF9, 2, 0x82, 97, 98, 3, 255]"
  by (simp add: lp_sample_def entry_eval) (simp add: lp_buffer_def le_bytes_numeral le_bytes_Suc)

lemma lp_sample_ok: "lp_fromBytes lp_sample = Some lp_sample" "lp_forEach lp_sample = [LpInt (- 7), LpStr (str ''ab'')]"
  "length lp_sample = 14"
  using lp_fromBytes_rep [OF lp_rep_sample] lp_rep_forEach [OF lp_rep_sample] by (simp_all add: lp_sample_eq)

section \<open>Properties\<close>


text \<open>On an accepted buffer \<open>append\<close> adds the element made from the string at the end, changes
  nothing before it, and leaves a buffer that is accepted again as long as it stays below 4 GiB.\<close>

lemma lp_append_correct:
  assumes "lp_fromBytes buf = Some buf" and "length (lp_append v buf) < 2 ^ 32"
  shows "lp_fromBytes (lp_append v buf) = Some (lp_append v buf) \<and>
    lp_forEach (lp_append v buf) = lp_forEach buf @ [elem_of v] \<and>
    lp_toStrings (lp_append v buf) = lp_toStrings buf @ [v]"
proof -
  have r: "lp_rep buf (lp_forEach buf)" using assms(1) by (simp add: lp_fromBytes_iff)
  have "length v < 2 ^ 32" using r assms(2) by (rule lp_append_bound)
  with r have "lp_rep (lp_append v buf) (lp_forEach buf @ [elem_of v])" by (rule lp_rep_append)
  then show ?thesis using assms(2) by (simp add: lp_fromBytes_rep lp_rep_forEach lp_toStrings_def)
qed

text \<open>C2: \<open>insertAt\<close> succeeds exactly when the index is at most the number of elements; it then
  splices the new element in at that index and leaves an accepted buffer, and otherwise the
  buffer is untouched.\<close>

theorem lp_insertAt_correct:
  assumes "lp_fromBytes buf = Some buf" and "length v < 2 ^ 32" and "lp_insertAt i v buf = (done, buf')"
  shows "if i \<le> length (lp_forEach buf)
    then done \<and> lp_forEach buf' = take i (lp_forEach buf) @ elem_of v # drop i (lp_forEach buf) \<and>
      (length buf' < 2 ^ 32 \<longrightarrow> lp_fromBytes buf' = Some buf')
    else \<not> done \<and> buf' = buf"
proof (cases "i \<le> length (lp_forEach buf)")
  case True
  with assms(1,2) obtain b where "lp_insertAt i v buf = (True, b)"
      "lp_rep b (take i (lp_forEach buf) @ elem_of v # drop i (lp_forEach buf))"
    by (metis lp_fromBytes_iff lp_rep_insertAt)
  with True assms(3) show ?thesis by (simp add: lp_rep_forEach lp_fromBytes_rep)
next
  case False
  with assms(1,3) show ?thesis using lp_rep_insertAt_range [of buf "lp_forEach buf" i v] by (simp add: lp_fromBytes_iff)
qed

theorem lp_insertAt_correct_witness:
  "lp_forEach (snd (lp_insertAt 1 (str ''9'') lp_sample)) = [LpInt (- 7), LpInt 9, LpStr (str ''ab'')] \<and>
   lp_insertAt 3 (str ''9'') lp_sample = (False, lp_sample)"
proof -
  have "elem_of (str ''9'') = LpInt 9" by (simp add: elem_of_def parse_eval)
  then show ?thesis
    using lp_insertAt_correct [OF lp_sample_ok(1), of "str ''9''" 1]
      lp_insertAt_correct [OF lp_sample_ok(1), of "str ''9''" 3]
    by (cases "lp_insertAt 1 (str ''9'') lp_sample"; cases "lp_insertAt 3 (str ''9'') lp_sample")
       (simp add: lp_sample_ok(2))
qed

text \<open>C3: \<open>eraseRange\<close> removes exactly the addressed run of elements and reports success, or, when
  the run reaches past the end, reports failure and changes nothing; the element count stays
  right in both the exact and the saturated regime.\<close>

theorem lp_eraseRange_correct:
  assumes "lp_fromBytes buf = Some buf" and "0 < n" and "lp_eraseRange i n buf = (done, buf')"
  shows "if i + n \<le> length (lp_forEach buf)
    then done \<and> lp_forEach buf' = take i (lp_forEach buf) @ drop (i + n) (lp_forEach buf) \<and>
      lp_numElements buf' = lp_numElements buf - n \<and> (length buf' < 2 ^ 32 \<longrightarrow> lp_fromBytes buf' = Some buf')
    else \<not> done \<and> buf' = buf"
proof (cases "i + n \<le> length (lp_forEach buf)")
  case True
  have r: "lp_rep buf (lp_forEach buf)" using assms(1) by (simp add: lp_fromBytes_iff)
  from True assms(2) have "i < length (lp_forEach buf)" by simp
  with r True obtain b where "lp_eraseRange i n buf = (True, b)"
      and b: "lp_rep b (take i (lp_forEach buf) @ drop (i + n) (lp_forEach buf))"
    by (metis lp_rep_eraseRange)
  with True assms(3) show ?thesis
    using lp_rep_forEach [OF b] lp_rep_numElements [OF b] lp_rep_numElements [OF r] lp_fromBytes_rep [OF b]
    by simp
next
  case False
  with assms show ?thesis using lp_rep_eraseRange_range [of buf "lp_forEach buf" n i] by (simp add: lp_fromBytes_iff)
qed

theorem lp_eraseRange_correct_witness:
  "lp_forEach (snd (lp_eraseRange 0 1 lp_sample)) = [LpStr (str ''ab'')] \<and>
   lp_eraseRange 1 2 lp_sample = (False, lp_sample)"
  using lp_eraseRange_correct [OF lp_sample_ok(1), of 1 0] lp_eraseRange_correct [OF lp_sample_ok(1), of 2 1]
  by (cases "lp_eraseRange 0 1 lp_sample"; cases "lp_eraseRange 1 2 lp_sample")
     (simp add: lp_sample_ok(2))

text \<open>C4: The element count and indexed access agree with the sequence, and on a buffer whose
  elements were stored from strings \<open>find\<close> returns the first index among \<open>start\<close>,
  \<open>start + step\<close>, ... that holds the needle, and nothing exactly when there is none.\<close>

theorem lp_lookup_correct:
  assumes "lp_fromBytes buf = Some buf" and "lp_forEach buf = map elem_of vs"
  shows "lp_numElements buf = length vs \<and>
    lp_get buf i = (if i < length vs then Some (elem_of (vs ! i)) else None) \<and>
    (lp_find buf v start step = Some k \<longleftrightarrow>
       k < length vs \<and> start \<le> k \<and> (k - start) mod step = 0 \<and> vs ! k = v \<and>
       (\<forall>j < k. start \<le> j \<and> (j - start) mod step = 0 \<longrightarrow> vs ! j \<noteq> v)) \<and>
    (lp_find buf v start step = None \<longleftrightarrow>
       (\<forall>j < length vs. start \<le> j \<and> (j - start) mod step = 0 \<longrightarrow> vs ! j \<noteq> v))"
proof -
  have r: "lp_rep buf (map elem_of vs)" using assms by (simp add: lp_fromBytes_iff)
  show ?thesis
    using lp_rep_numElements [OF r] lp_rep_get [OF r, of i]
    by (auto simp: lp_rep_find [OF r] find_idx_Some find_idx_None)
qed

theorem lp_lookup_correct_witness:
  "lp_find lp_sample (str ''ab'') 1 2 = Some 1 \<and> lp_find lp_sample (str ''ab'') 0 2 = None"
proof -
  have "lp_forEach lp_sample = map elem_of [str ''-7'', str ''ab'']"
    by (simp only: lp_sample_ok list.map elem_of_sample)
  from lp_lookup_correct [OF lp_sample_ok(1) this, of 0 "str ''ab''" 1 2 1]
    lp_lookup_correct [OF lp_sample_ok(1) this, of 0 "str ''ab''" 0 2]
  show ?thesis by (simp add: less_Suc_eq)
qed

section \<open>The back-length field\<close>

lemma backlen_step:
  "take_bit s v OR push_bit s (take_bit 7 (drop_bit s v)) = take_bit (s + 7) v" for v :: int
  by (rule bit_eqI) (auto simp: bit_simps)

lemma backlen_more:
  assumes "s + 7 \<le> 28"
  shows "decodeBacklenLoop (word_of_int ((drop_bit s v AND 127) OR 128) # back) (take_bit s v) s n =
    decodeBacklenLoop back (take_bit (s + 7) v) (s + 7) (n + 1)"
proof -
  let ?x = "drop_bit s v mod 128"
  have x: "0 \<le> ?x" "?x < 128" by simp_all
  have "(drop_bit s v AND 127) OR 128 = 1 * 128 + ?x"
    using int_or_disjoint [of ?x 7 1] x by (simp add: low_masks or.commute)
  then obtain b :: byte where b: "word_of_int ((drop_bit s v AND 127) OR 128) = b" "uint b = 1 * 128 + ?x"
    using x by (metis add_less_cancel_left add_nonneg_nonneg byte_exists mult_1 one_add_one
      zero_le_numeral numeral_Bit0)
  have "uint b AND 127 = ?x" unfolding low_masks b(2) using x by (rule mod_offset)
  then have "uint b AND 127 = take_bit 7 (drop_bit s v)" by (simp add: take_bit_eq_mod)
  moreover have "uint b AND 128 \<noteq> 0" unfolding byte_classes using b(2) x by simp
  ultimately show ?thesis using assms by (simp add: b(1) Let_def backlen_step)
qed

lemma backlen_last:
  assumes "0 \<le> v" and "v < 2 ^ (s + 7)"
  shows "decodeBacklenLoop (word_of_int (drop_bit s v) # back) (take_bit s v) s n = Some (v, n + 1)"
proof -
  have d: "0 \<le> drop_bit s v" using assms(1) by simp
  have t: "take_bit 7 (drop_bit s v) = drop_bit s v"
  proof -
    have "take_bit (s + 7) v = v" using assms by (intro take_bit_fits)
    then show ?thesis by (metis add.commute drop_bit_take_bit diff_add_inverse)
  qed
  then have "drop_bit s v < 128"
    using take_bit_int_less_exp [of 7 "drop_bit s v"] by simp
  with d obtain b :: byte where b: "word_of_int (drop_bit s v) = b" "uint b = drop_bit s v" "uint b < 128"
    by (metis byte_exists order_less_le_trans numeral_le_iff semiring_norm(68,69,71,72,73,76))
  have "uint b AND 127 = take_bit 7 (drop_bit s v)"
    unfolding low_masks b(2) by (simp add: take_bit_eq_mod)
  moreover have "uint b AND 128 = 0" unfolding byte_classes by (rule b(3))
  moreover have "take_bit (s + 7) v = v" using assms by (intro take_bit_fits)
  ultimately show ?thesis by (simp add: b(1) Let_def backlen_step)
qed

text \<open>C5: Read backwards from the end of an entry, the back-length field yields the payload length
  it was written for and its own size, for every length the five-byte form can hold.\<close>

theorem backlen_round_trip:
  assumes "n < 2 ^ 35"
  shows "decodeBacklenBackwards (before @ encodeBacklen n) = Some (int n, length (encodeBacklen n))"
proof -
  let ?v = "int n"
  have v: "0 \<le> ?v" by simp
  have more: "decodeBacklenLoop (word_of_int ((?v AND 127) OR 128) # bs) 0 0 m =
      decodeBacklenLoop bs (take_bit 7 ?v) 7 (Suc m)"
    "decodeBacklenLoop (word_of_int ((drop_bit 7 ?v AND 127) OR 128) # bs) (take_bit 7 ?v) 7 m =
      decodeBacklenLoop bs (take_bit 14 ?v) 14 (Suc m)"
    "decodeBacklenLoop (word_of_int ((drop_bit 14 ?v AND 127) OR 128) # bs) (take_bit 14 ?v) 14 m =
      decodeBacklenLoop bs (take_bit 21 ?v) 21 (Suc m)"
    "decodeBacklenLoop (word_of_int ((drop_bit 21 ?v AND 127) OR 128) # bs) (take_bit 21 ?v) 21 m =
      decodeBacklenLoop bs (take_bit 28 ?v) 28 (Suc m)" for bs m
    using backlen_more [of 0 ?v bs m] backlen_more [of 7 ?v bs m] backlen_more [of 14 ?v bs m]
      backlen_more [of 21 ?v bs m]
    by (simp_all del: decodeBacklenLoop.simps)
  consider "n \<le> 127" | "127 < n" "n < 16384" | "16384 \<le> n" "n < 2097152"
    | "2097152 \<le> n" "n < 268435456" | "268435456 \<le> n" by linarith
  then show ?thesis
  proof cases
    case 1
    then have "?v < 2 ^ (0 + 7)" by simp
    from backlen_last [OF v this] 1 show ?thesis
      by (simp add: decodeBacklenBackwards_def encodeBacklen_def)
  next
    case 2
    then have "?v < 2 ^ (7 + 7)" by simp
    from backlen_last [OF v this] 2 show ?thesis
      by (simp add: decodeBacklenBackwards_def encodeBacklen_def Let_def more del: decodeBacklenLoop.simps)
  next
    case 3
    then have "?v < 2 ^ (14 + 7)" by simp
    from backlen_last [OF v this] 3 show ?thesis
      by (simp add: decodeBacklenBackwards_def encodeBacklen_def Let_def more del: decodeBacklenLoop.simps)
  next
    case 4
    then have "?v < 2 ^ (21 + 7)" by simp
    from backlen_last [OF v this] 4 show ?thesis
      by (simp add: decodeBacklenBackwards_def encodeBacklen_def Let_def more del: decodeBacklenLoop.simps)
  next
    case 5
    have "?v < 2 ^ (28 + 7)" using assms by simp
    from backlen_last [OF v this] 5 show ?thesis
      by (simp add: decodeBacklenBackwards_def encodeBacklen_def Let_def more del: decodeBacklenLoop.simps)
  qed
qed

theorem backlen_round_trip_witness:
  "decodeBacklenBackwards ([1, 2] @ encodeBacklen 300) = Some (300, 2)"
  using backlen_round_trip [of 300 "[1, 2]"] by (simp add: encodeBacklen_def Let_def)

end
