(* ===== verification/Dict.thy ===== *)
theory Dict
  imports Interfaces
begin

text \<open>
  Model of \<open>src/core/dict.h\<close>: the chained hash table with incremental rehashing behind the
  keyspace and the large collections. A table is the list of its buckets, a bucket the chain of
  its entries from the head, and the record has the members of the class. The lookup mutates,
  because every operation performs one step of a pending rehash, so it returns the table too.
\<close>

section \<open>State\<close>

type_synonym 'v chain = "(bytes \<times> 'v) list"

record 'v dict =
  table0 :: "'v chain list"
  table1 :: "'v chain list"
  used0 :: nat
  used1 :: nat
  rehash_index :: int

definition kInitialSize :: nat where
  "kInitialSize = 4"

definition dict_new :: "'v dict" where
  "dict_new = \<lparr>table0 = replicate kInitialSize [], table1 = [], used0 = 0, used1 = 0, rehash_index = - 1\<rparr>"

definition dict_size :: "'v dict \<Rightarrow> nat" where
  "dict_size d = used0 d + used1 d"

definition dict_empty :: "'v dict \<Rightarrow> bool" where
  "dict_empty d = (dict_size d = 0)"

definition isRehashing :: "'v dict \<Rightarrow> bool" where
  "isRehashing d = (rehash_index d \<ge> 0)"

definition bucketCount :: "'v dict \<Rightarrow> nat" where
  "bucketCount d = length (table0 d) + length (table1 d)"

section \<open>Hashing\<close>

definition hash :: "bytes \<Rightarrow> 64 word" where
  "hash key = foldl (\<lambda>h c. (h XOR ucast c) * 1099511628211) 1469598103934665603 key"

definition mask_of :: "'v chain list \<Rightarrow> 64 word" where
  "mask_of t = word_of_nat (length t) - 1"

definition slot :: "64 word \<Rightarrow> 'v chain list \<Rightarrow> nat" where
  "slot h t = unat (h AND mask_of t)"

section \<open>Rehashing\<close>

text \<open>The entries of one bucket are pushed, head first, onto the chains of table 1.\<close>

fun moveChain :: "'v chain \<Rightarrow> 'v dict \<Rightarrow> 'v dict" where
  "moveChain [] d = d"
| "moveChain (e # es) d =
     (let idx = slot (hash (fst e)) (table1 d) in
      moveChain es (d\<lparr>table1 := (table1 d)[idx := e # table1 d ! idx],
                      used0 := used0 d - 1, used1 := used1 d + 1\<rparr>))"

text \<open>
  The inner loop over empty buckets: the new index and either the remaining \<open>empty_visits\<close> or
  \<open>None\<close> for the early return. The source tests the bucket before the bound; while entries
  remain in table 0 the index is in range, so the order does not matter.
\<close>

function skipEmpty :: "'v chain list \<Rightarrow> nat \<Rightarrow> nat \<Rightarrow> nat \<times> nat option" where
  "skipEmpty t ri empty_visits =
     (if ri < length t \<and> t ! ri = [] then
        (if empty_visits - 1 = 0 then (ri + 1, None)
         else if ri + 1 \<ge> length t then (ri + 1, Some (empty_visits - 1))
         else skipEmpty t (ri + 1) (empty_visits - 1))
      else (ri, Some empty_visits))"
  by pat_completeness auto
termination
  by (relation "measure (\<lambda>(t, ri, _). length t - ri)") auto

declare skipEmpty.simps [simp del]

text \<open>The outer loop; the flag tells whether it left by the early return.\<close>

fun rehashLoop :: "nat \<Rightarrow> nat \<Rightarrow> 'v dict \<Rightarrow> bool \<times> 'v dict" where
  "rehashLoop 0 empty_visits d = (False, d)"
| "rehashLoop (Suc buckets) empty_visits d =
     (if used0 d > 0 then
        (case skipEmpty (table0 d) (nat (rehash_index d)) empty_visits of
           (ri, None) \<Rightarrow> (True, d\<lparr>rehash_index := int ri\<rparr>)
         | (ri, Some visits) \<Rightarrow>
             if ri \<ge> length (table0 d) then (False, d\<lparr>rehash_index := int ri\<rparr>)
             else
               let d1 = moveChain (table0 d ! ri) d;
                   d2 = d1\<lparr>table0 := (table0 d1)[ri := []], rehash_index := int ri + 1\<rparr>
               in rehashLoop buckets visits d2)
      else (False, d))"

definition rehashSteps :: "nat \<Rightarrow> 'v dict \<Rightarrow> bool \<times> 'v dict" where
  "rehashSteps buckets d =
     (if \<not> isRehashing d then (False, d)
      else case rehashLoop buckets (buckets * 10) d of
          (True, d1) \<Rightarrow> (True, d1)
        | (False, d1) \<Rightarrow>
            if used0 d1 = 0 then
              (False, d1\<lparr>table0 := table1 d1, used0 := used1 d1, table1 := [], used1 := 0,
                         rehash_index := - 1\<rparr>)
            else (True, d1))"

definition rehashStep :: "'v dict \<Rightarrow> 'v dict" where
  "rehashStep d = (if isRehashing d then snd (rehashSteps 1 d) else d)"

definition resizeTo :: "nat \<Rightarrow> 'v dict \<Rightarrow> 'v dict" where
  "resizeTo new_size d = d\<lparr>table1 := replicate new_size [], used1 := 0, rehash_index := 0\<rparr>"

definition expandIfNeeded :: "'v dict \<Rightarrow> 'v dict" where
  "expandIfNeeded d =
     (if isRehashing d then d
      else if used0 d < length (table0 d) then d
      else resizeTo (length (table0 d) * 2) d)"

function nextPowerOfTwoLoop :: "nat \<Rightarrow> nat \<Rightarrow> nat" where
  "nextPowerOfTwoLoop n p = (if p < n \<and> 0 < p then nextPowerOfTwoLoop n (p * 2) else p)"
  by pat_completeness auto
termination
  by (relation "measure (\<lambda>(n, p). n - p)") auto

declare nextPowerOfTwoLoop.simps [simp del]

definition nextPowerOfTwo :: "nat \<Rightarrow> nat" where
  "nextPowerOfTwo n = nextPowerOfTwoLoop n kInitialSize"

definition shrinkIfNeeded :: "'v dict \<Rightarrow> 'v dict" where
  "shrinkIfNeeded d =
     (if isRehashing d then d
      else if length (table0 d) \<le> kInitialSize then d
      else if used0 d * 10 > length (table0 d) then d
      else resizeTo (max kInitialSize (nextPowerOfTwo (used0 d + 1))) d)"

section \<open>Operations\<close>

text \<open>The chain walk of \<open>find\<close>, and the tables it visits.\<close>

definition chainFind :: "bytes \<Rightarrow> 'v chain list \<Rightarrow> 'v option" where
  "chainFind key t = (if t = [] then None else map_of (t ! slot (hash key) t) key)"

definition findInTables :: "bytes \<Rightarrow> 'v dict \<Rightarrow> 'v option" where
  "findInTables key d =
     (case chainFind key (table0 d) of
        Some v \<Rightarrow> Some v
      | None \<Rightarrow> if isRehashing d then chainFind key (table1 d) else None)"

definition dict_find :: "bytes \<Rightarrow> 'v dict \<Rightarrow> 'v option \<times> 'v dict" where
  "dict_find key d =
     (if dict_empty d then (None, d)
      else let d1 = rehashStep d in (findInTables key d1, d1))"

text \<open>Assignment through the pointer that \<open>find\<close> returned.\<close>

fun chainSet :: "bytes \<Rightarrow> 'v \<Rightarrow> 'v chain \<Rightarrow> 'v chain" where
  "chainSet key v [] = []"
| "chainSet key v ((k, w) # es) = (if k = key then (k, v) # es else (k, w) # chainSet key v es)"

definition tableSet :: "bytes \<Rightarrow> 'v \<Rightarrow> 'v chain list \<Rightarrow> 'v chain list" where
  "tableSet key v t = (let i = slot (hash key) t in t[i := chainSet key v (t ! i)])"

definition dict_assign :: "bytes \<Rightarrow> 'v \<Rightarrow> 'v dict \<Rightarrow> 'v dict" where
  "dict_assign key v d =
     (if chainFind key (table0 d) \<noteq> None then d\<lparr>table0 := tableSet key v (table0 d)\<rparr>
      else d\<lparr>table1 := tableSet key v (table1 d)\<rparr>)"

definition dict_insert :: "bytes \<Rightarrow> 'v \<Rightarrow> 'v dict \<Rightarrow> bool \<times> 'v dict" where
  "dict_insert key v d =
     (let d1 = rehashStep d in
      case dict_find key d1 of
        (Some _, d2) \<Rightarrow> (False, dict_assign key v d2)
      | (None, d2) \<Rightarrow>
          let d3 = expandIfNeeded d2; h = hash key in
          if isRehashing d3 then
            let i = slot h (table1 d3) in
            (True, d3\<lparr>table1 := (table1 d3)[i := (key, v) # table1 d3 ! i], used1 := used1 d3 + 1\<rparr>)
          else
            let i = slot h (table0 d3) in
            (True, d3\<lparr>table0 := (table0 d3)[i := (key, v) # table0 d3 ! i], used0 := used0 d3 + 1\<rparr>))"

text \<open>Unlinking the entry of a key from a chain.\<close>

fun chainErase :: "bytes \<Rightarrow> 'v chain \<Rightarrow> 'v chain" where
  "chainErase key [] = []"
| "chainErase key (e # es) = (if fst e = key then es else e # chainErase key es)"

definition tableErase :: "bytes \<Rightarrow> 'v chain list \<Rightarrow> 'v chain list" where
  "tableErase key t = (let i = slot (hash key) t in t[i := chainErase key (t ! i)])"

definition dict_erase :: "bytes \<Rightarrow> 'v dict \<Rightarrow> bool \<times> 'v dict" where
  "dict_erase key d =
     (if dict_empty d then (False, d)
      else
        let d1 = rehashStep d in
        if chainFind key (table0 d1) \<noteq> None then
          (True, shrinkIfNeeded (d1\<lparr>table0 := tableErase key (table0 d1), used0 := used0 d1 - 1\<rparr>))
        else if isRehashing d1 \<and> chainFind key (table1 d1) \<noteq> None then
          (True, shrinkIfNeeded (d1\<lparr>table1 := tableErase key (table1 d1), used1 := used1 d1 - 1\<rparr>))
        else (False, d1))"

definition dict_clear :: "'v dict \<Rightarrow> 'v dict" where
  "dict_clear d = d\<lparr>table0 := replicate kInitialSize [], table1 := [], used0 := 0, used1 := 0,
                    rehash_index := - 1\<rparr>"

text \<open>\<open>forEach\<close>: the entries handed to the callback, in order.\<close>

definition dict_forEach :: "'v dict \<Rightarrow> (bytes \<times> 'v) list" where
  "dict_forEach d = concat (table0 d) @ concat (table1 d)"

text \<open>
  \<open>randomEntry\<close>: the generator is the sequence \<open>rng\<close> of its draws, read from position \<open>n\<close> on.
\<close>

fun randomAttempts :: "nat \<Rightarrow> (nat \<Rightarrow> 64 word) \<Rightarrow> nat \<Rightarrow> 'v dict \<Rightarrow> (bytes \<times> 'v) option \<times> nat" where
  "randomAttempts 0 rng n d = (None, n)"
| "randomAttempts (Suc attempts) rng n d =
     (let (second, n) = (if isRehashing d then (rng n AND 1 \<noteq> 0, n + 1) else (False, n));
          (t, used) = (if second then (table1 d, used1 d) else (table0 d, used0 d))
      in if t = [] \<or> used = 0 then randomAttempts attempts rng n d
         else let chain = t ! (unat (rng n) mod length t) in
           if chain = [] then randomAttempts attempts rng (n + 1) d
           else (Some (chain ! (unat (rng (n + 1)) mod length chain)), n + 2))"

definition randomEntry :: "(nat \<Rightarrow> 64 word) \<Rightarrow> nat \<Rightarrow> 'v dict \<Rightarrow> (bytes \<times> 'v) option \<times> nat" where
  "randomEntry rng n d =
     (if dict_empty d then (None, n)
      else case randomAttempts 100 rng n d of
          (Some e, n') \<Rightarrow> (Some e, n')
        | (None, n') \<Rightarrow>
            (map_option hd (List.find (\<lambda>c. c \<noteq> []) (table0 d @ table1 d)), n'))"

end
