(* ===== verification/Dict_Refine.thy ===== *)
theory Dict_Refine
  imports Dict "HOL-Library.Multiset"
begin

text \<open>
  The hash table refines a finite map. The invariant says that both tables have a power-of-two
  size, that every entry sits in the bucket its hash selects, that no key occurs twice across
  the two tables, that the counters are exact and that the buckets below the rehash index are
  empty; every operation keeps it, and rehashing steps do not change the contents.
\<close>

section \<open>Buckets\<close>

lemma slot_less: "length t = 2 ^ k \<Longrightarrow> slot h t < length t"
proof (cases "k < 64")
  case True
  assume l: "length t = 2 ^ k"
  have "mask_of t = mask k" by (simp add: mask_of_def l mask_eq_exp_minus_1)
  then have "unat (h AND mask_of t) = unat (take_bit k h)" by (simp add: take_bit_eq_mask)
  also have "\<dots> < 2 ^ k" using True by (simp add: unsigned_take_bit_eq take_bit_nat_less_exp)
  finally show ?thesis by (simp add: slot_def l)
next
  case False
  assume l: "length t = 2 ^ k"
  have "unat (h AND mask_of t) < 2 ^ 64" using unsigned_less [of "h AND mask_of t"] by simp
  also have "(2 :: nat) ^ 64 \<le> 2 ^ k" using False by (intro power_increasing) simp_all
  finally show ?thesis by (simp only: slot_def l)
qed

lemma slot_cong: "length t = length u \<Longrightarrow> slot h t = slot h u"
  by (simp add: slot_def mask_of_def)

definition wf_table :: "'v chain list \<Rightarrow> bool" where
  "wf_table t \<longleftrightarrow> (\<exists>k. length t = 2 ^ k) \<and>
     (\<forall>i < length t. \<forall>e \<in> set (t ! i). slot (hash (fst e)) t = i)"

abbreviation bag :: "'v chain list \<Rightarrow> (bytes \<times> 'v) multiset" where
  "bag t \<equiv> mset (concat t)"

lemma wf_table_slot: "wf_table t \<Longrightarrow> slot h t < length t"
  using slot_less by (auto simp: wf_table_def)

lemma wf_table_placed: "wf_table t \<Longrightarrow> i < length t \<Longrightarrow> e \<in> set (t ! i) \<Longrightarrow> slot (hash (fst e)) t = i"
  by (simp add: wf_table_def)

lemma wf_table_replicate: "wf_table (replicate (2 ^ k) [])"
  by (auto simp: wf_table_def)

lemma wf_table_update:
  assumes "wf_table t" and "i < length t" and "\<forall>e \<in> set c. slot (hash (fst e)) t = i"
  shows "wf_table (t[i := c])"
  using assms slot_cong [of "t[i := c]" t] by (auto simp: wf_table_def nth_list_update)

lemma bag_update:
  assumes "i < length t"
  shows "bag (t[i := c]) + mset (t ! i) = bag t + mset c"
proof -
  have "t = take i t @ t ! i # drop (Suc i) t" using assms by (simp add: id_take_nth_drop)
  then have "bag t = bag (take i t) + mset (t ! i) + bag (drop (Suc i) t)"
    by (metis concat.simps(2) concat_append mset_append union_assoc)
  moreover have "bag (t[i := c]) = bag (take i t) + mset c + bag (drop (Suc i) t)"
    using assms by (simp add: upd_conv_take_nth_drop)
  ultimately show ?thesis by simp
qed

text \<open>In a well-formed table a key can only be in the bucket its hash selects.\<close>

lemma in_table_iff:
  assumes "wf_table t"
  shows "(k, v) \<in> set (concat t) \<longleftrightarrow> (k, v) \<in> set (t ! slot (hash k) t)"
proof
  assume "(k, v) \<in> set (concat t)"
  then obtain c where "c \<in> set t" "(k, v) \<in> set c" by auto
  then obtain i where "i < length t" "(k, v) \<in> set (t ! i)" by (metis in_set_conv_nth)
  moreover from this have "slot (hash k) t = i" using assms by (force simp: wf_table_def)
  ultimately show "(k, v) \<in> set (t ! slot (hash k) t)" by simp
next
  assume "(k, v) \<in> set (t ! slot (hash k) t)"
  moreover have "t ! slot (hash k) t \<in> set t" using wf_table_slot [OF assms] by simp
  ultimately show "(k, v) \<in> set (concat t)" by auto
qed

lemma distinct_bucket:
  assumes "distinct (map fst (concat t))" and "i < length t"
  shows "distinct (map fst (t ! i))"
proof -
  have "t = take i t @ t ! i # drop (Suc i) t" using assms(2) by (simp add: id_take_nth_drop)
  with assms(1) have "distinct (map fst (concat (take i t @ t ! i # drop (Suc i) t)))" by metis
  then show ?thesis by simp
qed

lemma chainFind_map_of:
  assumes "wf_table t" and "distinct (map fst (concat t))"
  shows "chainFind k t = map_of (concat t) k"
proof -
  have b: "distinct (map fst (t ! slot (hash k) t))"
    using assms(2) wf_table_slot [OF assms(1)] by (rule distinct_bucket)
  have "chainFind k t = Some v \<longleftrightarrow> map_of (concat t) k = Some v" for v
    using in_table_iff [OF assms(1), of k v] assms b
    by (auto simp: chainFind_def map_of_eq_Some_iff wf_table_def)
  then show ?thesis by (metis option.exhaust_sel)
qed

section \<open>The invariant and the abstraction\<close>

definition dict_invar :: "'v dict \<Rightarrow> bool" where
  "dict_invar d \<longleftrightarrow>
     wf_table (table0 d) \<and> (if isRehashing d then wf_table (table1 d) else table1 d = []) \<and>
     used0 d = length (concat (table0 d)) \<and> used1 d = length (concat (table1 d)) \<and>
     distinct (map fst (dict_forEach d)) \<and>
     (isRehashing d \<longrightarrow> nat (rehash_index d) \<le> length (table0 d) \<and>
        (\<forall>i < nat (rehash_index d). table0 d ! i = []))"

definition dict_lookup :: "'v dict \<Rightarrow> bytes \<Rightarrow> 'v option" where
  "dict_lookup d = map_of (dict_forEach d)"

abbreviation contents :: "'v dict \<Rightarrow> (bytes \<times> 'v) multiset" where
  "contents d \<equiv> mset (dict_forEach d)"

lemma contents_bags: "contents d = bag (table0 d) + bag (table1 d)"
  by (simp add: dict_forEach_def)

lemma same_contents_lookup:
  assumes "distinct (map fst xs)" and "mset xs = mset ys"
  shows "distinct (map fst ys) \<and> map_of xs = map_of ys"
proof
  show d: "distinct (map fst ys)"
    using assms(1) mset_eq_imp_distinct_iff [of "map fst xs" "map fst ys"]
      arg_cong [OF assms(2), of "image_mset fst"] by simp
  show "map_of xs = map_of ys"
    using map_of_inject_set [OF assms(1) d] mset_eq_setD [OF assms(2)] by simp
qed

lemma dict_invarD:
  assumes "dict_invar d"
  shows "wf_table (table0 d)" "isRehashing d \<Longrightarrow> wf_table (table1 d)" "\<not> isRehashing d \<Longrightarrow> table1 d = []"
    "used0 d = length (concat (table0 d))" "used1 d = length (concat (table1 d))"
    "distinct (map fst (dict_forEach d))"
  using assms by (simp_all add: dict_invar_def)

lemma dict_invar_new: "dict_invar dict_new"
proof -
  have "wf_table (replicate 4 [])" using wf_table_replicate [of 2] by simp
  then show ?thesis
    by (simp add: dict_invar_def dict_new_def isRehashing_def kInitialSize_def dict_forEach_def)
qed

lemma dict_clear_new: "dict_clear d = dict_new"
  by (simp add: dict_clear_def dict_new_def)

lemma dict_lookup_new: "dict_lookup dict_new = Map.empty"
  by (simp add: dict_lookup_def dict_new_def dict_forEach_def kInitialSize_def)

lemma dict_size_forEach: "dict_invar d \<Longrightarrow> dict_size d = length (dict_forEach d)"
  by (simp add: dict_invar_def dict_size_def dict_forEach_def)

lemma dict_empty_lookup: "dict_invar d \<Longrightarrow> dict_empty d \<Longrightarrow> dict_lookup d = Map.empty"
  by (simp add: dict_empty_def dict_size_forEach dict_lookup_def)

lemma findInTables_lookup:
  assumes "dict_invar d"
  shows "findInTables k d = dict_lookup d k"
proof -
  have dd: "distinct (map fst (concat (table0 d)))" "distinct (map fst (concat (table1 d)))"
    using dict_invarD(6) [OF assms] by (simp_all add: dict_forEach_def)
  have "dict_lookup d k = (case map_of (concat (table0 d)) k of Some v \<Rightarrow> Some v
      | None \<Rightarrow> map_of (concat (table1 d)) k)"
    by (simp add: dict_lookup_def dict_forEach_def map_add_def)
  then show ?thesis
    using chainFind_map_of [OF dict_invarD(1) [OF assms] dd(1), of k]
      chainFind_map_of [OF dict_invarD(2) [OF assms] dd(2), of k] dict_invarD(3) [OF assms]
    by (auto simp: findInTables_def split: option.splits)
qed

section \<open>Rehashing keeps the contents\<close>

lemma moveChain_props:
  "wf_table (table1 d) \<Longrightarrow>
   wf_table (table1 (moveChain es d)) \<and> bag (table1 (moveChain es d)) = bag (table1 d) + mset es \<and>
   table0 (moveChain es d) = table0 d \<and> rehash_index (moveChain es d) = rehash_index d \<and>
   used0 (moveChain es d) = used0 d - length es \<and> used1 (moveChain es d) = used1 d + length es"
proof (induction es d rule: moveChain.induct)
  case (2 e es d)
  let ?i = "slot (hash (fst e)) (table1 d)"
  let ?t = "(table1 d)[?i := e # table1 d ! ?i]"
  have i: "?i < length (table1 d)" using 2(2) by (rule wf_table_slot)
  have "wf_table ?t"
    using 2(2) i by (intro wf_table_update) (auto simp: wf_table_def)
  moreover have "bag ?t = bag (table1 d) + {#e#}"
    using bag_update [OF i, of "e # table1 d ! ?i"] by simp
  ultimately show ?case
    using 2(1) [OF refl] by (simp add: Let_def)
qed simp

lemma skipEmpty_props:
  "skipEmpty t ri v = (ri', r) \<Longrightarrow> ri \<le> length t \<Longrightarrow> \<forall>i < ri. t ! i = [] \<Longrightarrow>
   ri \<le> ri' \<and> ri' \<le> length t \<and> (\<forall>i < ri'. t ! i = []) \<and> (r \<noteq> None \<longrightarrow> ri' < length t \<longrightarrow> t ! ri' \<noteq> [])"
proof (induction t ri v rule: skipEmpty.induct)
  case (1 t ri v)
  have step: "\<forall>i < ri + 1. t ! i = []" if "t ! ri = []" using 1(4) that by (simp add: less_Suc_eq)
  show ?case
  proof (cases "ri < length t \<and> t ! ri = [] \<and> v - 1 \<noteq> 0 \<and> ri + 1 < length t")
    case True
    with 1(2) have "skipEmpty t (ri + 1) (v - 1) = (ri', r)"
      by (subst (asm) skipEmpty.simps) (simp split: if_splits)
    with 1(1) True step show ?thesis by fastforce
  next
    case False
    with 1(2,3,4) step show ?thesis
      by (subst (asm) skipEmpty.simps) (auto simp: less_Suc_eq split: if_splits)
  qed
qed

text \<open>The migration of one bucket.\<close>

definition migrate :: "nat \<Rightarrow> 'v dict \<Rightarrow> 'v dict" where
  "migrate ri d = (let d1 = moveChain (table0 d ! ri) d in
     d1\<lparr>table0 := (table0 d1)[ri := []], rehash_index := int ri + 1\<rparr>)"

lemma migrate_props:
  assumes "dict_invar d" and "isRehashing d" and i: "ri < length (table0 d)" and "\<forall>i < ri. table0 d ! i = []"
  shows "dict_invar (migrate ri d) \<and> isRehashing (migrate ri d) \<and> contents (migrate ri d) = contents d"
proof -
  note inv = dict_invarD [OF assms(1)]
  let ?es = "table0 d ! ri" let ?d2 = "migrate ri d"
  note m = moveChain_props [OF inv(2) [OF assms(2)], of ?es]
  have f: "table0 ?d2 = (table0 d)[ri := []]" "table1 ?d2 = table1 (moveChain ?es d)"
    "used0 ?d2 = used0 d - length ?es" "used1 ?d2 = used1 d + length ?es" "rehash_index ?d2 = int ri + 1"
    using m by (simp_all add: migrate_def Let_def)
  have b0: "bag (table0 ?d2) + mset ?es = bag (table0 d)"
    using bag_update [OF i, of "[]"] by (simp only: f mset.simps add_0_right)
  have b1: "bag (table1 ?d2) = bag (table1 d) + mset ?es" using m by (simp only: f)
  have c: "contents ?d2 = contents d"
    unfolding contents_bags b1 by (simp only: b0 [symmetric] ac_simps)
  have "length (concat (table0 ?d2)) + length ?es = length (concat (table0 d))"
    using arg_cong [OF b0, of size] by (simp only: size_union size_mset)
  then have u0: "used0 ?d2 = length (concat (table0 ?d2))" using inv(4) f(3) by simp
  have u1: "used1 ?d2 = length (concat (table1 ?d2))"
    using arg_cong [OF b1, of size] inv(5) f(4) by (simp only: size_union size_mset)
  have w: "wf_table (table0 ?d2)" "wf_table (table1 ?d2)"
    using inv(1) i m by (simp_all add: f wf_table_update)
  have d: "distinct (map fst (dict_forEach ?d2))"
    using same_contents_lookup [OF inv(6) c [symmetric]] by blast
  have r: "isRehashing ?d2" by (simp add: isRehashing_def f)
  have "\<forall>j < Suc ri. table0 ?d2 ! j = []" using assms(4) i by (simp add: f less_Suc_eq nth_list_update)
  moreover have "nat (rehash_index ?d2) = Suc ri" "Suc ri \<le> length (table0 ?d2)" using i by (simp_all add: f)
  ultimately have "dict_invar ?d2" unfolding dict_invar_def using u0 u1 w d r by simp
  with r c show ?thesis by blast
qed

lemma rehashLoop_props:
  "dict_invar d \<Longrightarrow> isRehashing d \<Longrightarrow> rehashLoop n v d = (early, d') \<Longrightarrow>
   dict_invar d' \<and> isRehashing d' \<and> contents d' = contents d"
proof (induction n arbitrary: v d)
  case (Suc n)
  obtain ri r where s: "skipEmpty (table0 d) (nat (rehash_index d)) v = (ri, r)"
    by (cases "skipEmpty (table0 d) (nat (rehash_index d)) v")
  have ri: "ri \<le> length (table0 d)" "\<forall>i < ri. table0 d ! i = []"
    using skipEmpty_props [OF s] Suc.prems(1,2) by (auto simp: dict_invar_def)
  have stay: "dict_invar (d\<lparr>rehash_index := int ri\<rparr>)" "isRehashing (d\<lparr>rehash_index := int ri\<rparr>)"
    "contents (d\<lparr>rehash_index := int ri\<rparr>) = contents d"
    using Suc.prems(1,2) ri by (simp_all add: dict_invar_def isRehashing_def dict_forEach_def)
  have step: "rehashLoop (Suc n) v d =
     (if used0 d > 0 then
        (case r of None \<Rightarrow> (True, d\<lparr>rehash_index := int ri\<rparr>)
         | Some w \<Rightarrow> if ri \<ge> length (table0 d) then (False, d\<lparr>rehash_index := int ri\<rparr>)
             else rehashLoop n w (migrate ri d))
      else (False, d))"
    by (simp add: s migrate_def Let_def split: option.split)
  show ?case
  proof (cases "used0 d > 0 \<and> r \<noteq> None \<and> ri < length (table0 d)")
    case False
    with Suc.prems stay show ?thesis unfolding step by (auto split: if_splits option.splits)
  next
    case True
    then obtain w where r: "r = Some w" and i: "ri < length (table0 d)" by auto
    note m = migrate_props [OF Suc.prems(1,2) i ri(2)]
    have "rehashLoop n w (migrate ri d) = (early, d')"
      using Suc.prems(3) True r unfolding step by simp
    with Suc.IH [of "migrate ri d" w] m show ?thesis by simp
  qed
qed simp

lemma rehashSteps_props:
  assumes "dict_invar d" and "rehashSteps n d = (pending, d')"
  shows "dict_invar d' \<and> contents d' = contents d \<and> pending = isRehashing d'"
proof (cases "isRehashing d")
  case False
  with assms show ?thesis by (auto simp: rehashSteps_def)
next
  case True
  obtain early d1 where l: "rehashLoop n (n * 10) d = (early, d1)" by (cases "rehashLoop n (n * 10) d")
  note p = rehashLoop_props [OF assms(1) True l]
  show ?thesis
  proof (cases "\<not> early \<and> used0 d1 = 0")
    case False
    with True l p assms(2) show ?thesis by (auto simp: rehashSteps_def split: bool.splits)
  next
    case fin: True
    let ?d2 = "d1\<lparr>table0 := table1 d1, used0 := used1 d1, table1 := [], used1 := 0, rehash_index := - 1\<rparr>"
    have e: "pending = False" "d' = ?d2" using True l fin assms(2) by (auto simp: rehashSteps_def)
    have "concat (table0 d1) = []" using fin p by (simp add: dict_invar_def)
    then have f: "dict_forEach ?d2 = dict_forEach d1" by (simp add: dict_forEach_def)
    have "\<not> isRehashing ?d2" by (simp add: isRehashing_def)
    moreover have "dict_invar ?d2"
      unfolding dict_invar_def f using p \<open>\<not> isRehashing ?d2\<close> by (simp add: dict_invar_def)
    ultimately show ?thesis using e f p by simp
  qed
qed

lemma rehashStep_props:
  "dict_invar d \<Longrightarrow> dict_invar (rehashStep d) \<and> contents (rehashStep d) = contents d"
  using rehashSteps_props [of d 1] by (cases "rehashSteps 1 d") (simp add: rehashStep_def)

lemma lookup_cong: "dict_invar d \<Longrightarrow> contents d' = contents d \<Longrightarrow> dict_lookup d' = dict_lookup d"
  using same_contents_lookup [OF dict_invarD(6), of d "dict_forEach d'"] by (simp add: dict_lookup_def)

lemma rehashStep_lookup: "dict_invar d \<Longrightarrow> dict_lookup (rehashStep d) = dict_lookup d"
  using lookup_cong rehashStep_props by blast

lemma dict_empty_cong: "dict_invar d \<Longrightarrow> dict_invar d' \<Longrightarrow> contents d' = contents d \<Longrightarrow> dict_empty d' = dict_empty d"
  by (metis dict_empty_def dict_size_forEach size_mset)

lemma dict_find_props:
  assumes "dict_invar d" and "dict_find k d = (r, d')"
  shows "r = dict_lookup d k \<and> dict_invar d' \<and> contents d' = contents d"
proof (cases "dict_empty d")
  case True
  with assms dict_empty_lookup [OF assms(1)] show ?thesis by (simp add: dict_find_def)
next
  case False
  note p = rehashStep_props [OF assms(1)]
  have "r = dict_lookup (rehashStep d) k" "d' = rehashStep d"
    using False assms(2) findInTables_lookup [of "rehashStep d" k] p by (auto simp: dict_find_def Let_def)
  then show ?thesis using p rehashStep_lookup [OF assms(1)] by simp
qed

section \<open>Resizing\<close>

lemma resizeTo_props:
  assumes "dict_invar d" and "\<not> isRehashing d" and "n = 2 ^ k"
  shows "dict_invar (resizeTo n d) \<and> contents (resizeTo n d) = contents d"
proof -
  have f: "dict_forEach (resizeTo n d) = dict_forEach d"
    using dict_invarD(3) [OF assms(1,2)] by (simp add: dict_forEach_def resizeTo_def)
  have r: "isRehashing (resizeTo n d)" by (simp add: isRehashing_def resizeTo_def)
  have "dict_invar (resizeTo n d)"
    unfolding dict_invar_def f using r assms wf_table_replicate [of k]
    by (simp add: resizeTo_def dict_invar_def)
  with f show ?thesis by simp
qed

lemma nextPowerOfTwoLoop_power: "\<exists>j. nextPowerOfTwoLoop n (2 ^ i) = 2 ^ j \<and> i \<le> j"
proof (induction "n - 2 ^ i" arbitrary: i rule: less_induct)
  case less
  show ?case
  proof (cases "(2 :: nat) ^ i < n")
    case True
    moreover have "0 < (2 :: nat) ^ i" by simp
    ultimately have "n - 2 ^ Suc i < n - 2 ^ i" unfolding power_Suc by linarith
    from less [OF this] obtain j where "nextPowerOfTwoLoop n (2 ^ Suc i) = 2 ^ j" "Suc i \<le> j" by blast
    with True show ?thesis
      by (intro exI [of _ j]) (simp add: nextPowerOfTwoLoop.simps [of n "2 ^ i"] mult.commute)
  next
    case False
    then show ?thesis by (intro exI [of _ i]) (simp add: nextPowerOfTwoLoop.simps [of n "2 ^ i"])
  qed
qed

lemma nextPowerOfTwo_power: "\<exists>j. max kInitialSize (nextPowerOfTwo n) = 2 ^ j"
proof -
  obtain j where j: "nextPowerOfTwoLoop n (2 ^ 2) = 2 ^ j" "2 \<le> j" using nextPowerOfTwoLoop_power by blast
  have "(2 :: nat) ^ 2 \<le> 2 ^ j" using j(2) by (intro power_increasing) simp_all
  then show ?thesis
    using j(1) by (intro exI [of _ j]) (simp add: kInitialSize_def nextPowerOfTwo_def max_def)
qed

lemma expandIfNeeded_props:
  assumes "dict_invar d"
  shows "dict_invar (expandIfNeeded d) \<and> contents (expandIfNeeded d) = contents d"
proof (cases "isRehashing d \<or> used0 d < length (table0 d)")
  case True
  with assms show ?thesis by (auto simp: expandIfNeeded_def)
next
  case False
  obtain k where "length (table0 d) = 2 ^ k" using dict_invarD(1) [OF assms] by (auto simp: wf_table_def)
  then have "length (table0 d) * 2 = 2 ^ Suc k" by simp
  with False resizeTo_props [OF assms, of "length (table0 d) * 2" "Suc k"] show ?thesis
    by (simp only: expandIfNeeded_def) simp
qed

lemma shrinkIfNeeded_props:
  assumes "dict_invar d"
  shows "dict_invar (shrinkIfNeeded d) \<and> contents (shrinkIfNeeded d) = contents d"
proof -
  obtain j where "max kInitialSize (nextPowerOfTwo (used0 d + 1)) = 2 ^ j" using nextPowerOfTwo_power by blast
  with resizeTo_props [OF assms] assms show ?thesis by (simp add: shrinkIfNeeded_def)
qed

section \<open>Changing one entry\<close>

lemma lookup_add:
  assumes "distinct (map fst xs)" and "mset xs' = add_mset (k, v) (mset xs)" and "map_of xs k = None"
  shows "distinct (map fst xs') \<and> map_of xs' = (map_of xs)(k \<mapsto> v)"
proof -
  have "distinct (map fst ((k, v) # xs))" using assms(1,3) by (simp add: map_of_eq_None_iff)
  moreover have "mset ((k, v) # xs) = mset xs'" using assms(2) by simp
  ultimately have "distinct (map fst xs') \<and> map_of ((k, v) # xs) = map_of xs'" by (rule same_contents_lookup)
  then show ?thesis by (metis map_of_Cons_code(2) map_of.simps(2) fst_conv snd_conv)
qed

lemma lookup_remove:
  assumes "distinct (map fst xs)" and "add_mset (k, w) (mset xs') = mset xs"
  shows "distinct (map fst xs') \<and> map_of xs' = (map_of xs)(k := None)"
proof -
  have "mset xs = mset ((k, w) # xs')" using assms(2) by simp
  from same_contents_lookup [OF assms(1) this]
  have d: "distinct (map fst ((k, w) # xs'))" and m: "map_of xs = map_of ((k, w) # xs')" by blast+
  from d have "map_of xs' k = None" by (simp add: map_of_eq_None_iff)
  then have "map_of xs' = (map_of xs)(k := None)" unfolding m by (auto simp: fun_eq_iff)
  with d show ?thesis by simp
qed

lemma lookup_replace:
  assumes "distinct (map fst xs)" and "add_mset (k, w) (mset xs') = add_mset (k, v) (mset xs)"
    and "(k, w) \<in> set xs"
  shows "distinct (map fst xs') \<and> map_of xs' = (map_of xs)(k \<mapsto> v)"
proof -
  obtain ys where ys: "mset xs = add_mset (k, w) (mset ys)"
    using assms(3) by (metis ex_mset insert_DiffM set_mset_mset)
  then have y: "distinct (map fst ys) \<and> map_of ys = (map_of xs)(k := None)"
    using lookup_remove [OF assms(1), of k w ys] by simp
  have "mset xs' = add_mset (k, v) (mset ys)"
    using assms(2) unfolding ys by (metis add_mset_add_mset_same_iff add_mset_commute)
  with lookup_add [of ys xs' k v] y show ?thesis by simp
qed

lemma push_table:
  assumes "wf_table t" and "i = slot (hash k) t"
  shows "wf_table (t[i := (k, v) # t ! i]) \<and> bag (t[i := (k, v) # t ! i]) = add_mset (k, v) (bag t)"
proof -
  have i: "i < length t" using assms wf_table_slot by blast
  moreover have "\<forall>e \<in> set ((k, v) # t ! i). slot (hash (fst e)) t = i"
    using assms i by (auto simp: wf_table_def)
  ultimately show ?thesis
    using wf_table_update [OF assms(1) i] bag_update [OF i, of "(k, v) # t ! i"] by simp
qed

lemma chainErase_mset: "map_of c k = Some w \<Longrightarrow> add_mset (k, w) (mset (chainErase k c)) = mset c"
  by (induction k c rule: chainErase.induct) (auto split: if_splits)

lemma chainErase_subset: "set (chainErase k c) \<subseteq> set c"
  by (induction k c rule: chainErase.induct) auto

lemma chainSet_mset:
  "map_of c k = Some w \<Longrightarrow> add_mset (k, w) (mset (chainSet k v c)) = add_mset (k, v) (mset c)"
  by (induction k v c rule: chainSet.induct) (auto split: if_splits)

lemma chainSet_keys: "fst ` set (chainSet k v c) = fst ` set c"
  by (induction k v c rule: chainSet.induct) auto

lemma erase_table:
  assumes "wf_table t" and "chainFind k t = Some w"
  shows "wf_table (tableErase k t) \<and> add_mset (k, w) (bag (tableErase k t)) = bag t"
proof -
  let ?i = "slot (hash k) t"
  have i: "?i < length t" using assms(1) by (rule wf_table_slot)
  have m: "map_of (t ! ?i) k = Some w" using assms(2) by (simp add: chainFind_def split: if_splits)
  have "\<forall>e \<in> set (chainErase k (t ! ?i)). slot (hash (fst e)) t = ?i"
    using wf_table_placed [OF assms(1) i] chainErase_subset [of k "t ! ?i"] by blast
  then have wf: "wf_table (tableErase k t)"
    using wf_table_update [OF assms(1) i] by (simp add: tableErase_def Let_def)
  have b: "bag (tableErase k t) + mset (t ! ?i) = bag t + mset (chainErase k (t ! ?i))"
    using bag_update [OF i, of "chainErase k (t ! ?i)"] by (simp only: tableErase_def Let_def)
  have "add_mset (k, w) (bag (tableErase k t)) + mset (t ! ?i) =
      bag t + add_mset (k, w) (mset (chainErase k (t ! ?i)))"
    using b by (simp only: union_mset_add_mset_left union_mset_add_mset_right)
  also have "\<dots> = bag t + mset (t ! ?i)" by (simp only: chainErase_mset [OF m])
  finally have "add_mset (k, w) (bag (tableErase k t)) = bag t" by (simp only: add_right_cancel)
  with wf show ?thesis by blast
qed

lemma set_table:
  assumes "wf_table t" and "chainFind k t = Some w"
  shows "wf_table (tableSet k v t) \<and> add_mset (k, w) (bag (tableSet k v t)) = add_mset (k, v) (bag t)"
proof -
  let ?i = "slot (hash k) t" let ?c = "chainSet k v (t ! ?i)"
  have i: "?i < length t" using assms(1) by (rule wf_table_slot)
  have m: "map_of (t ! ?i) k = Some w" using assms(2) by (simp add: chainFind_def split: if_splits)
  have "\<forall>e \<in> set ?c. slot (hash (fst e)) t = ?i"
  proof
    fix e assume "e \<in> set ?c"
    then have "fst e \<in> fst ` set (t ! ?i)" using chainSet_keys [of k v "t ! ?i"] by blast
    then show "slot (hash (fst e)) t = ?i" using wf_table_placed [OF assms(1) i] by force
  qed
  then have wf: "wf_table (tableSet k v t)"
    using wf_table_update [OF assms(1) i, of ?c] by (simp add: tableSet_def Let_def)
  have b: "bag (tableSet k v t) + mset (t ! ?i) = bag t + mset ?c"
    using bag_update [OF i, of ?c] by (simp only: tableSet_def Let_def)
  have "add_mset (k, w) (bag (tableSet k v t)) + mset (t ! ?i) = bag t + add_mset (k, w) (mset ?c)"
    using b by (simp only: union_mset_add_mset_left union_mset_add_mset_right)
  also have "\<dots> = add_mset (k, v) (bag t) + mset (t ! ?i)"
    by (simp only: chainSet_mset [OF m] union_mset_add_mset_left union_mset_add_mset_right)
  finally have "add_mset (k, w) (bag (tableSet k v t)) = add_mset (k, v) (bag t)" by (simp only: add_right_cancel)
  with wf show ?thesis by blast
qed

text \<open>Empty buckets stay empty.\<close>

lemma tableErase_empty: "wf_table t \<Longrightarrow> t ! i = [] \<Longrightarrow> tableErase k t ! i = []"
  using wf_table_slot [of t "hash k"] by (cases "slot (hash k) t = i") (simp_all add: tableErase_def Let_def)

lemma tableSet_empty: "wf_table t \<Longrightarrow> t ! i = [] \<Longrightarrow> tableSet k v t ! i = []"
  using wf_table_slot [of t "hash k"] by (cases "slot (hash k) t = i") (simp_all add: tableSet_def Let_def)

lemma length_table_ops [simp]:
  "length (tableErase k t) = length t" "length (tableSet k v t) = length t"
  by (simp_all add: tableErase_def tableSet_def Let_def)

section \<open>The operations\<close>

lemma dict_invar_change:
  assumes "dict_invar d" and "rehash_index d' = rehash_index d" and "wf_table (table0 d')"
    and "if isRehashing d then wf_table (table1 d') else table1 d' = []"
    and "used0 d' = length (concat (table0 d'))" and "used1 d' = length (concat (table1 d'))"
    and "distinct (map fst (dict_forEach d'))"
    and "isRehashing d \<Longrightarrow> length (table0 d') = length (table0 d) \<and>
      (\<forall>i < length (table0 d). table0 d ! i = [] \<longrightarrow> table0 d' ! i = [])"
  shows "dict_invar d'"
proof -
  have r: "isRehashing d' = isRehashing d" using assms(2) by (simp add: isRehashing_def)
  have "nat (rehash_index d) \<le> length (table0 d') \<and> (\<forall>i < nat (rehash_index d). table0 d' ! i = [])"
    if "isRehashing d"
    using assms(1) assms(8) [OF that] that by (auto simp: dict_invar_def)
  then show ?thesis
    unfolding dict_invar_def r assms(2) using assms(3-7) by blast
qed

lemma findInTables_cases:
  assumes "dict_invar d" and "dict_lookup d k = Some w"
  obtains "chainFind k (table0 d) = Some w"
  | "chainFind k (table0 d) = None" "isRehashing d" "chainFind k (table1 d) = Some w"
  using findInTables_lookup [OF assms(1), of k] assms(2)
  by (auto simp: findInTables_def split: option.splits if_splits)

lemma dict_assign_props:
  assumes "dict_invar d" and "dict_lookup d k = Some w"
  shows "dict_invar (dict_assign k v d) \<and> dict_lookup (dict_assign k v d) = (dict_lookup d)(k \<mapsto> v)"
proof -
  note inv = dict_invarD [OF assms(1)]
  let ?d = "dict_assign k v d"
  have mem: "(k, w) \<in> set (dict_forEach d)" using assms(2) by (simp add: dict_lookup_def map_of_SomeD)
  have fin: ?thesis if "add_mset (k, w) (contents ?d) = add_mset (k, v) (contents d)"
    "distinct (map fst (dict_forEach ?d)) \<Longrightarrow> dict_invar ?d"
    using lookup_replace [OF inv(6) that(1) mem] that(2) by (simp add: dict_lookup_def)
  show ?thesis using assms
  proof (cases rule: findInTables_cases)
    case 1
    note s = set_table [OF inv(1) 1, of v]
    let ?t = "tableSet k v (table0 d)"
    have d: "?d = d\<lparr>table0 := ?t\<rparr>" using 1 by (simp add: dict_assign_def)
    have l: "length (concat ?t) = length (concat (table0 d))"
      using arg_cong [OF conjunct2 [OF s], of size] by simp
    show ?thesis
    proof (rule fin)
      show "add_mset (k, w) (contents ?d) = add_mset (k, v) (contents d)"
        using s unfolding contents_bags d by (simp flip: union_mset_add_mset_left)
      show "dict_invar ?d" if "distinct (map fst (dict_forEach ?d))"
        using assms(1) by (rule dict_invar_change) (use s inv l that in \<open>simp_all add: d tableSet_empty\<close>)
    qed
  next
    case 2
    note s = set_table [OF inv(2) [OF 2(2)] 2(3), of v]
    let ?t = "tableSet k v (table1 d)"
    have d: "?d = d\<lparr>table1 := ?t\<rparr>" using 2 by (simp add: dict_assign_def)
    have l: "length (concat ?t) = length (concat (table1 d))"
      using arg_cong [OF conjunct2 [OF s], of size] by simp
    show ?thesis
    proof (rule fin)
      show "add_mset (k, w) (contents ?d) = add_mset (k, v) (contents d)"
        using s unfolding contents_bags d by (simp flip: union_mset_add_mset_right)
      show "dict_invar ?d" if "distinct (map fst (dict_forEach ?d))"
        using assms(1) by (rule dict_invar_change) (use s inv l that 2 in \<open>simp_all add: d\<close>)
    qed
  qed
qed

lemma dict_insert_props:
  assumes "dict_invar d" and "dict_insert k v d = (new, d')"
  shows "new = (dict_lookup d k = None) \<and> dict_invar d' \<and> dict_lookup d' = (dict_lookup d)(k \<mapsto> v)"
proof -
  obtain r d2 where f: "dict_find k (rehashStep d) = (r, d2)" by (cases "dict_find k (rehashStep d)")
  note p1 = rehashStep_props [OF assms(1)] rehashStep_lookup [OF assms(1)]
  have i2: "dict_invar d2" "r = dict_lookup d k" "contents d2 = contents d"
    using dict_find_props [OF _ f] p1 by simp_all
  have l2: "dict_lookup d2 = dict_lookup d" using lookup_cong [OF assms(1) i2(3)] .
  show ?thesis
  proof (cases r)
    case (Some w)
    with assms(2) f have "new = False" "d' = dict_assign k v d2" by (simp_all add: dict_insert_def)
    with dict_assign_props [OF i2(1), of k w v] Some i2(2) l2 show ?thesis by simp
  next
    case None
    let ?d3 = "expandIfNeeded d2"
    note p3 = expandIfNeeded_props [OF i2(1)]
    note inv = dict_invarD [OF conjunct1 [OF p3]]
    have l3: "dict_lookup ?d3 = dict_lookup d" using lookup_cong [OF i2(1) conjunct2 [OF p3]] l2 by simp
    then have k: "map_of (dict_forEach ?d3) k = None" using None i2(2) by (simp add: dict_lookup_def)
    have fin: ?thesis if "new" "contents d' = add_mset (k, v) (contents ?d3)"
      "distinct (map fst (dict_forEach d')) \<Longrightarrow> dict_invar d'"
      using lookup_add [OF inv(6) that(2) k] that l3 None i2(2) by (simp add: dict_lookup_def)
    show ?thesis
    proof (cases "isRehashing ?d3")
      case True
      let ?i = "slot (hash k) (table1 ?d3)" let ?t = "(table1 ?d3)[?i := (k, v) # table1 ?d3 ! ?i]"
      note s = push_table [OF inv(2) [OF True] refl, of k v]
      have d: "new" "d' = ?d3\<lparr>table1 := ?t, used1 := used1 ?d3 + 1\<rparr>"
        using assms(2) f None True by (auto simp: dict_insert_def Let_def)
      have l: "length (concat ?t) = Suc (length (concat (table1 ?d3)))"
        using arg_cong [OF conjunct2 [OF s], of size] by simp
      show ?thesis
      proof (rule fin)
        show "contents d' = add_mset (k, v) (contents ?d3)" using s unfolding contents_bags d(2) by simp
        show "dict_invar d'" if "distinct (map fst (dict_forEach d'))"
          using conjunct1 [OF p3]
          by (rule dict_invar_change) (use s inv l that True in \<open>simp_all add: d(2)\<close>)
      qed (rule d(1))
    next
      case False
      let ?i = "slot (hash k) (table0 ?d3)" let ?t = "(table0 ?d3)[?i := (k, v) # table0 ?d3 ! ?i]"
      note s = push_table [OF inv(1) refl, of k v]
      have d: "new" "d' = ?d3\<lparr>table0 := ?t, used0 := used0 ?d3 + 1\<rparr>"
        using assms(2) f None False by (auto simp: dict_insert_def Let_def)
      have l: "length (concat ?t) = Suc (length (concat (table0 ?d3)))"
        using arg_cong [OF conjunct2 [OF s], of size] by simp
      show ?thesis
      proof (rule fin)
        show "contents d' = add_mset (k, v) (contents ?d3)" using s unfolding contents_bags d(2) by simp
        show "dict_invar d'" if "distinct (map fst (dict_forEach d'))"
          using conjunct1 [OF p3]
          by (rule dict_invar_change) (use s inv l that False in \<open>simp_all add: d(2)\<close>)
      qed (rule d(1))
    qed
  qed
qed

text \<open>Removing the entry from either table, before the shrink.\<close>

lemma remove_entry:
  assumes "dict_invar d"
    and "add_mset (k, w) (contents d') = contents d"
    and "distinct (map fst (dict_forEach d')) \<Longrightarrow> dict_invar d'"
  shows "dict_invar (shrinkIfNeeded d') \<and> dict_lookup (shrinkIfNeeded d') = (dict_lookup d)(k := None)"
proof -
  note r = lookup_remove [OF dict_invarD(6) [OF assms(1)] assms(2)]
  then have i: "dict_invar d'" using assms(3) by blast
  have "dict_lookup (shrinkIfNeeded d') = dict_lookup d'"
    using lookup_cong [OF i] shrinkIfNeeded_props [OF i] by blast
  with r shrinkIfNeeded_props [OF i] show ?thesis by (simp add: dict_lookup_def)
qed

lemma dict_erase_props:
  assumes "dict_invar d" and "dict_erase k d = (found, d')"
  shows "found = (dict_lookup d k \<noteq> None) \<and> dict_invar d' \<and> dict_lookup d' = (dict_lookup d)(k := None)"
proof (cases "dict_empty d")
  case True
  with assms dict_empty_lookup [OF assms(1)] show ?thesis by (auto simp: dict_erase_def)
next
  case False
  let ?d1 = "rehashStep d"
  note p1 = rehashStep_props [OF assms(1)] rehashStep_lookup [OF assms(1)]
  have i1: "dict_invar ?d1" using p1 by blast
  note inv = dict_invarD [OF i1]
  show ?thesis
  proof (cases "dict_lookup ?d1 k")
    case None
    then have "findInTables k ?d1 = None" using findInTables_lookup [OF i1, of k] by simp
    then have "found = False \<and> d' = ?d1"
      using assms(2) False by (auto simp: dict_erase_def Let_def findInTables_def split: option.splits if_splits)
    with None p1 show ?thesis by (simp add: fun_upd_idem)
  next
    case (Some w)
    with i1 show ?thesis
    proof (cases rule: findInTables_cases)
      case 1
      note s = erase_table [OF inv(1) 1]
      let ?d2 = "?d1\<lparr>table0 := tableErase k (table0 ?d1), used0 := used0 ?d1 - 1\<rparr>"
      have l: "length (concat (table0 ?d1)) = Suc (length (concat (tableErase k (table0 ?d1))))"
        using arg_cong [OF conjunct2 [OF s], of size] by simp
      have "found" "d' = shrinkIfNeeded ?d2" using assms(2) False 1 by (auto simp: dict_erase_def Let_def)
      moreover have "dict_invar (shrinkIfNeeded ?d2) \<and> dict_lookup (shrinkIfNeeded ?d2) = (dict_lookup ?d1)(k := None)"
      proof (rule remove_entry [OF i1])
        show "add_mset (k, w) (contents ?d2) = contents ?d1"
          using s unfolding contents_bags by (simp flip: union_mset_add_mset_left)
        show "dict_invar ?d2" if "distinct (map fst (dict_forEach ?d2))"
          using i1 by (rule dict_invar_change) (use s inv l that in \<open>simp_all add: tableErase_empty\<close>)
      qed
      ultimately show ?thesis using Some p1 by simp
    next
      case 2
      note s = erase_table [OF inv(2) [OF 2(2)] 2(3)]
      let ?d2 = "?d1\<lparr>table1 := tableErase k (table1 ?d1), used1 := used1 ?d1 - 1\<rparr>"
      have l: "length (concat (table1 ?d1)) = Suc (length (concat (tableErase k (table1 ?d1))))"
        using arg_cong [OF conjunct2 [OF s], of size] by simp
      have "found" "d' = shrinkIfNeeded ?d2" using assms(2) False 2 by (auto simp: dict_erase_def Let_def)
      moreover have "dict_invar (shrinkIfNeeded ?d2) \<and> dict_lookup (shrinkIfNeeded ?d2) = (dict_lookup ?d1)(k := None)"
      proof (rule remove_entry [OF i1])
        show "add_mset (k, w) (contents ?d2) = contents ?d1"
          using s unfolding contents_bags by (simp flip: union_mset_add_mset_right)
        show "dict_invar ?d2" if "distinct (map fst (dict_forEach ?d2))"
          using i1 by (rule dict_invar_change) (use s inv l that 2 in simp_all)
      qed
      ultimately show ?thesis using Some p1 by simp
    qed
  qed
qed

interpretation dict: map_impl dict_invar "\<lambda>_ _. True" dict_lookup dict_find dict_insert dict_erase dict_size dict_forEach
proof
  fix d :: "'v dict" and k v r d'
  assume i: "dict_invar d"
  show "r = dict_lookup d k \<and> dict_invar d' \<and> dict_lookup d' = dict_lookup d" if "dict_find k d = (r, d')"
    using dict_find_props [OF i that] lookup_cong [OF i] by blast
  show "new = (dict_lookup d k = None) \<and> dict_invar d' \<and> dict_lookup d' = (dict_lookup d)(k \<mapsto> v)"
    if "dict_insert k v d = (new, d')" for new
    using dict_insert_props [OF i that] .
  show "found = (dict_lookup d k \<noteq> None) \<and> dict_invar d' \<and> dict_lookup d' = (dict_lookup d)(k := None)"
    if "dict_erase k d = (found, d')" for found
    using dict_erase_props [OF i that] .
  show "dict_size d = length (dict_forEach d)" using i by (rule dict_size_forEach)
  show "distinct (map fst (dict_forEach d)) \<and> map_of (dict_forEach d) = dict_lookup d"
    using dict_invarD(6) [OF i] by (simp add: dict_lookup_def)
qed

text \<open>Whatever the generator draws, a random entry of a non-empty table is one of its entries.\<close>

lemma pick_mem:
  assumes "t = table0 d \<or> t = table1 d" and "t \<noteq> []" and "t ! (i mod length t) \<noteq> []"
  shows "t ! (i mod length t) ! (j mod length (t ! (i mod length t))) \<in> set (dict_forEach d)"
proof -
  have "t ! (i mod length t) \<in> set t" using assms(2) by simp
  moreover have "t ! (i mod length t) ! (j mod length (t ! (i mod length t))) \<in> set (t ! (i mod length t))"
    using assms(3) by simp
  ultimately show ?thesis using assms(1) by (auto simp: dict_forEach_def)
qed

lemma randomAttempts_mem:
  "randomAttempts a rng n d = (Some e, n') \<Longrightarrow> e \<in> set (dict_forEach d)"
proof (induction a arbitrary: n)
  case (Suc a)
  show ?case
    using Suc.prems pick_mem [of "table0 d" d] pick_mem [of "table1 d" d]
    by (auto simp: Let_def split: if_splits intro: Suc.IH)
qed simp

lemma randomEntry_mem:
  assumes "dict_invar d" and "\<not> dict_empty d"
  shows "\<exists>e n'. randomEntry rng n d = (Some e, n') \<and> e \<in> set (dict_forEach d)"
proof -
  obtain r n' where a: "randomAttempts 100 rng n d = (r, n')" by (cases "randomAttempts 100 rng n d")
  show ?thesis
  proof (cases r)
    case (Some e)
    with a randomAttempts_mem [of 100 rng n d e n'] assms(2) show ?thesis by (simp add: randomEntry_def)
  next
    case None
    have "dict_forEach d \<noteq> []" using assms by (simp add: dict_empty_def dict_size_forEach)
    then obtain c0 where "c0 \<in> set (table0 d @ table1 d)" "c0 \<noteq> []" by (auto simp: dict_forEach_def)
    then obtain c where c: "List.find (\<lambda>c. c \<noteq> []) (table0 d @ table1 d) = Some c"
      by (metis (mono_tags, lifting) find_None_iff option.exhaust)
    then have "c \<noteq> [] \<and> c \<in> set (table0 d @ table1 d)" unfolding find_Some_iff by (metis nth_mem)
    then have "hd c \<in> set c" "set c \<subseteq> set (dict_forEach d)" by (auto simp: dict_forEach_def)
    then have "hd c \<in> set (dict_forEach d)" by blast
    with a None c assms(2) show ?thesis by (simp add: randomEntry_def)
  qed
qed

section \<open>Properties\<close>

text \<open>C8: Whatever phase of an incremental rehash the table is in, lookup, insertion and removal are
  those of a finite map, report correctly whether the key was present, and keep the invariant.\<close>

theorem dict_refines_map:
  assumes "dict_invar d" and "dict_find k d = (r, d1)" and "dict_insert k v d = (new, d2)"
    and "dict_erase k d = (found, d3)"
  shows "r = dict_lookup d k \<and> dict_invar d1 \<and> dict_lookup d1 = dict_lookup d \<and>
    new = (dict_lookup d k = None) \<and> dict_invar d2 \<and> dict_lookup d2 = (dict_lookup d)(k \<mapsto> v) \<and>
    found = (dict_lookup d k \<noteq> None) \<and> dict_invar d3 \<and> dict_lookup d3 = (dict_lookup d)(k := None) \<and>
    dict_size d = card (dom (dict_lookup d))"
  using dict.find [OF assms(1,2)] dict.insert [OF assms(1) TrueI assms(3)] dict.erase [OF assms(1,4)] dict.size_card [OF assms(1)]
  by blast

theorem dict_refines_map_witness:
  "dict_lookup (snd (dict_insert (str ''a'') (7 :: nat) dict_new)) (str ''a'') = Some 7 \<and>
   fst (dict_insert (str ''a'') (7 :: nat) dict_new) \<and> fst (dict_find (str ''a'') (dict_new :: nat dict)) = None"
proof -
  obtain r d1 new d2 found d3 where e: "dict_find (str ''a'') (dict_new :: nat dict) = (r, d1)"
      "dict_insert (str ''a'') (7 :: nat) dict_new = (new, d2)"
      "dict_erase (str ''a'') (dict_new :: nat dict) = (found, d3)"
    by (meson surj_pair)
  from dict_refines_map [OF dict_invar_new e] show ?thesis
    by (simp add: e [simplified] dict_lookup_new)
qed

lemma skipEmpty_advances:
  "skipEmpty t ri v = (ri', None) \<Longrightarrow> ri < ri'"
proof (induction t ri v rule: skipEmpty.induct)
  case (1 t ri v)
  show ?case
  proof (cases "ri < length t \<and> t ! ri = [] \<and> v - 1 \<noteq> 0 \<and> ri + 1 < length t")
    case True
    with 1(2) have "skipEmpty t (ri + 1) (v - 1) = (ri', None)"
      by (subst (asm) skipEmpty.simps) (simp split: if_splits)
    with 1(1) True show ?thesis by fastforce
  next
    case False
    with 1(2) show ?thesis by (subst (asm) skipEmpty.simps) (auto split: if_splits)
  qed
qed

lemma no_entries_left:
  assumes "\<forall>i < length t. t ! i = []"
  shows "concat t = []"
  using assms by (metis concat_eq_Nil_conv in_set_conv_nth)

lemma rehashStep_advances:
  assumes "dict_invar d" and "isRehashing d" and "isRehashing (rehashStep d)"
  shows "rehash_index d < rehash_index (rehashStep d) \<and> length (table0 (rehashStep d)) = length (table0 d)"
proof -
  obtain ri r where s: "skipEmpty (table0 d) (nat (rehash_index d)) 10 = (ri, r)"
    by (cases "skipEmpty (table0 d) (nat (rehash_index d)) 10")
  have idx: "nat (rehash_index d) \<le> length (table0 d)" "\<forall>i < nat (rehash_index d). table0 d ! i = []"
    "0 \<le> rehash_index d"
    using assms(1,2) by (simp_all add: dict_invar_def isRehashing_def)
  note p = skipEmpty_props [OF s idx(1,2)]
  have used: "0 < used0 d"
  proof (rule ccontr)
    assume "\<not> 0 < used0 d"
    then have "\<not> isRehashing (rehashStep d)"
      using assms(2) by (simp add: rehashStep_def rehashSteps_def) (simp add: isRehashing_def)
    with assms(3) show False by simp
  qed
  then have "concat (table0 d) \<noteq> []" using dict_invarD(4) [OF assms(1)] by auto
  with p no_entries_left [of "table0 d"] have lt: "ri < length (table0 d)"
    by (metis antisym_conv3 le_less_trans less_irrefl order_le_less)
  show ?thesis
  proof (cases r)
    case None
    have "rehashStep d = d\<lparr>rehash_index := int ri\<rparr>"
      using assms(2) used s None by (simp add: rehashStep_def rehashSteps_def)
    moreover have "nat (rehash_index d) < ri" using skipEmpty_advances s None by blast
    ultimately show ?thesis using idx(3) by simp
  next
    case (Some w)
    let ?m = "migrate ri d"
    have "rehashLoop 1 10 d = (False, ?m)"
      using used s Some lt by (simp add: migrate_def Let_def)
    then have "rehashStep d = (if used0 ?m = 0 then ?m\<lparr>table0 := table1 ?m, used0 := used1 ?m, table1 := [], used1 := 0,
        rehash_index := - 1\<rparr> else ?m)"
      using assms(2) by (simp add: rehashStep_def rehashSteps_def)
    with assms(3) have "rehashStep d = ?m" by (auto simp: isRehashing_def split: if_splits)
    moreover have "rehash_index ?m = int ri + 1" "length (table0 ?m) = length (table0 d)"
      using moveChain_props [OF dict_invarD(2) [OF assms(1,2)], of "table0 d ! ri"]
      by (simp_all add: migrate_def Let_def)
    ultimately show ?thesis using p idx(3) by (simp add: nat_le_iff)
  qed
qed

lemma rehashStep_invar_iter: "dict_invar d \<Longrightarrow> dict_invar ((rehashStep ^^ n) d) \<and> contents ((rehashStep ^^ n) d) = contents d"
  by (induction n) (auto simp: rehashStep_props)

lemma rehashStep_done: "\<not> isRehashing d \<Longrightarrow> rehashStep d = d"
  by (simp add: rehashStep_def)

lemma rehashStep_iter_index:
  assumes "dict_invar d" and "isRehashing ((rehashStep ^^ n) d)"
  shows "int n \<le> rehash_index ((rehashStep ^^ n) d) \<and> length (table0 ((rehashStep ^^ n) d)) = length (table0 d)"
  using assms(2)
proof (induction n)
  case 0
  then show ?case by (simp add: isRehashing_def)
next
  case (Suc n)
  let ?e = "(rehashStep ^^ n) d"
  have r: "isRehashing ?e" using Suc.prems rehashStep_done [of ?e] by (metis comp_apply funpow.simps(2))
  have "dict_invar ?e" using rehashStep_invar_iter [OF assms(1)] by blast
  from rehashStep_advances [OF this r] Suc r show ?case by auto
qed

text \<open>C10: The migration of a resize finishes: every operation's rehash step advances the rehash
  index or completes, so after as many steps as table 0 has buckets (and one more) the table is
  no longer rehashing, and its contents are those it started with.\<close>

theorem rehash_finishes:
  assumes "dict_invar d" and "length (table0 d) < n"
  shows "\<not> isRehashing ((rehashStep ^^ n) d) \<and> dict_invar ((rehashStep ^^ n) d) \<and>
    dict_lookup ((rehashStep ^^ n) d) = dict_lookup d"
proof -
  let ?e = "(rehashStep ^^ n) d"
  note p = rehashStep_invar_iter [OF assms(1), of n]
  have "\<not> isRehashing ?e"
  proof
    assume r: "isRehashing ?e"
    have "nat (rehash_index ?e) \<le> length (table0 ?e)" using p r by (simp add: dict_invar_def)
    with rehashStep_iter_index [OF assms(1) r] assms(2) show False by linarith
  qed
  with p lookup_cong [OF assms(1)] show ?thesis by blast
qed

theorem rehash_finishes_witness:
  "\<not> isRehashing ((rehashStep ^^ 5) (resizeTo 8 (dict_new :: nat dict)))"
proof -
  have "\<not> isRehashing (dict_new :: nat dict)" by (simp add: isRehashing_def dict_new_def)
  from resizeTo_props [OF dict_invar_new this, of 8 3]
  have "dict_invar (resizeTo 8 (dict_new :: nat dict))" by simp
  moreover have "length (table0 (resizeTo 8 (dict_new :: nat dict))) < 5"
    by (simp add: resizeTo_def dict_new_def kInitialSize_def)
  ultimately show ?thesis using rehash_finishes by blast
qed

end
