(* ===== verification/Dict_Scan.thy ===== *)
theory Dict_Scan
  imports Dict_Refine
begin

text \<open>
  The reverse-binary cursor of \<open>Dict::scan\<close> in \<open>src/core/dict.h\<close>. Read with its bits reversed the
  cursor only moves up, and one call emits every entry whose reversed hash lies between the old
  and the new cursor, whatever the size of the table and whether or not it is rehashing. So an
  iteration that ends has emitted every key that was present throughout, even if the table was
  resized between the calls.
\<close>

section \<open>Definitions\<close>

definition reverseBits :: "64 word \<Rightarrow> 64 word" where
  "reverseBits v =
     (let v = (drop_bit 1 v AND 0x5555555555555555) OR push_bit 1 (v AND 0x5555555555555555);
          v = (drop_bit 2 v AND 0x3333333333333333) OR push_bit 2 (v AND 0x3333333333333333);
          v = (drop_bit 4 v AND 0x0F0F0F0F0F0F0F0F) OR push_bit 4 (v AND 0x0F0F0F0F0F0F0F0F);
          v = (drop_bit 8 v AND 0x00FF00FF00FF00FF) OR push_bit 8 (v AND 0x00FF00FF00FF00FF);
          v = (drop_bit 16 v AND 0x0000FFFF0000FFFF) OR push_bit 16 (v AND 0x0000FFFF0000FFFF)
      in drop_bit 32 v OR push_bit 32 v)"

text \<open>Setting the bits above the mask and incrementing in reversed order.\<close>

definition advance :: "64 word \<Rightarrow> 64 word \<Rightarrow> 64 word" where
  "advance m cursor =
     (let cursor = cursor OR NOT m;
          cursor = reverseBits cursor;
          cursor = cursor + 1
      in reverseBits cursor)"

definition emitBucket :: "'v chain list \<Rightarrow> nat \<Rightarrow> (bytes \<times> 'v) list" where
  "emitBucket t idx = (if idx \<ge> length t then [] else t ! idx)"

section \<open>Bit reversal\<close>

definition flip :: "nat \<Rightarrow> nat \<Rightarrow> nat" where
  "flip s i = (if even (i div s) then i + s else i - s)"

lemma swap_step:
  fixes v m :: "64 word"
  assumes "\<forall>j < 64. bit m j = even (j div s)" and "0 < s" and "i < 64"
  shows "bit ((drop_bit s v AND m) OR push_bit s (v AND m)) i = bit v (flip s i)"
proof (cases "even (i div s)")
  case True
  have "\<not> bit m (i - s)" if "s \<le> i"
    using assms that True le_div_geq [of s i] by simp
  with True assms show ?thesis by (auto simp: bit_simps flip_def add.commute)
next
  case False
  then have "s \<le> i" using assms(2) by (metis div_less even_zero not_less)
  moreover from this have "bit m (i - s)" using assms False le_div_geq [of s i] by simp
  ultimately show ?thesis using False assms by (simp add: bit_simps flip_def)
qed

lemma all_below_64: "list_all P [0..<64] \<Longrightarrow> \<forall>i < 64. P i"
  by (simp add: list_all_iff)

lemma swap_masks:
  "\<forall>j < 64. bit (0x5555555555555555 :: 64 word) j = even (j div 1)"
  "\<forall>j < 64. bit (0x3333333333333333 :: 64 word) j = even (j div 2)"
  "\<forall>j < 64. bit (0x0F0F0F0F0F0F0F0F :: 64 word) j = even (j div 4)"
  "\<forall>j < 64. bit (0x00FF00FF00FF00FF :: 64 word) j = even (j div 8)"
  "\<forall>j < 64. bit (0x0000FFFF0000FFFF :: 64 word) j = even (j div 16)"
  by (rule all_below_64, code_simp)+

lemma flip_all:
  "\<forall>i < 64. flip 16 (flip 32 i) < 64 \<and> flip 32 i < 64 \<and> flip 8 (flip 16 (flip 32 i)) < 64 \<and>
     flip 4 (flip 8 (flip 16 (flip 32 i))) < 64 \<and> flip 2 (flip 4 (flip 8 (flip 16 (flip 32 i)))) < 64 \<and>
     flip 1 (flip 2 (flip 4 (flip 8 (flip 16 (flip 32 i))))) = 63 - i"
  by (rule all_below_64) code_simp

lemma bit_reverseBits: "bit (reverseBits v) i \<longleftrightarrow> i < 64 \<and> bit v (63 - i)"
proof (cases "i < 64")
  case False
  then show ?thesis using bit_imp_le_length [of "reverseBits v" i] by auto
next
  case True
  have last: "bit (drop_bit 32 w OR push_bit 32 w) j = bit w (flip 32 j)" if "j < 64" for w :: "64 word" and j
  proof (cases "j < 32")
    case True
    then show ?thesis by (simp add: bit_simps flip_def add.commute)
  next
    case False
    with that have "j div 32 = 1" by simp
    moreover have "\<not> bit w (j + 32)" using bit_imp_le_length [of w "j + 32"] False by auto
    ultimately show ?thesis using False that by (simp add: bit_simps flip_def add.commute)
  qed
  show ?thesis
    using flip_all [rule_format, OF True] True
    by (simp only: reverseBits_def Let_def last swap_step [OF swap_masks(1)] swap_step [OF swap_masks(2)]
        swap_step [OF swap_masks(3)] swap_step [OF swap_masks(4)] swap_step [OF swap_masks(5)]
        zero_less_numeral zero_less_one simp_thms)
qed

lemma reverse_reverse [simp]: "reverseBits (reverseBits v) = v"
proof (rule bit_eqI)
  fix i :: nat
  have "63 - (63 - i) = i" if "i < 64" using that by simp
  then show "bit (reverseBits (reverseBits v)) i = bit v i"
    using bit_imp_le_length [of v i] by (auto simp: bit_reverseBits)
qed

lemma reverse_0 [simp]: "reverseBits 0 = 0"
  by (rule bit_eqI) (simp add: bit_reverseBits)

lemma reverse_eq_0 [simp]: "reverseBits v = 0 \<longleftrightarrow> v = 0"
  by (metis reverse_0 reverse_reverse)

lemma reverse_or: "reverseBits (v OR w) = reverseBits v OR reverseBits w"
  by (rule bit_eqI) (auto simp: bit_reverseBits bit_simps)

text \<open>The position of a cursor or a hash in the order of the iteration.\<close>

definition pos :: "64 word \<Rightarrow> nat" where
  "pos c = unat (reverseBits c)"

lemma pos_less: "pos c < 2 ^ 64"
  using unsigned_less [of "reverseBits c"] by (simp add: pos_def)

lemma pos_0 [simp]: "pos 0 = 0"
  by (simp add: pos_def)

lemma pos_advance:
  assumes "advance m c \<noteq> 0"
  shows "pos c < pos (advance m c)"
proof -
  let ?x = "reverseBits (c OR NOT m)"
  have "?x + 1 \<noteq> 0" using assms by (simp add: advance_def Let_def)
  then have "unat (?x + 1) = unat ?x + 1"
    by (metis Suc_eq_plus1 unatSuc add.commute)
  moreover have "reverseBits c \<le> ?x" unfolding reverse_or by (rule le_word_or2)
  then have "pos c \<le> unat ?x" by (simp add: pos_def word_le_nat_alt)
  ultimately show ?thesis by (simp add: pos_def advance_def Let_def)
qed

section \<open>Scanning\<close>

text \<open>
  The loop over the larger table of a rehash: the entries it emits and the cursor it ends with.
\<close>

function scanLoop :: "'v chain list \<Rightarrow> 64 word \<Rightarrow> 64 word \<Rightarrow> (bytes \<times> 'v) list \<times> 64 word" where
  "scanLoop large ms cursor =
     (let ml = mask_of large;
          es = emitBucket large (unat (cursor AND ml));
          c = advance ml cursor
      in if c AND (ms XOR ml) \<noteq> 0 then (let (es', c') = scanLoop large ms c in (es @ es', c'))
         else (es, c))"
  by pat_completeness auto
termination
proof (relation "measure (\<lambda>(large, ms, c). 2 ^ 64 - pos c)")
  fix large :: "'v chain list" and ms cursor ml c :: "64 word" and es :: "(bytes \<times> 'v) list"
  assume "c = advance ml cursor" and "c AND (ms XOR ml) \<noteq> 0"
  moreover from this have "c \<noteq> 0" by auto
  ultimately have "pos cursor < pos c" using pos_advance [of ml cursor] by simp
  then show "((large, ms, c), (large, ms, cursor)) \<in> measure (\<lambda>(large, ms, c). 2 ^ 64 - pos c)"
    using pos_less [of c] by simp
qed simp

declare scanLoop.simps [simp del]

definition dict_scan :: "64 word \<Rightarrow> 'v dict \<Rightarrow> (bytes \<times> 'v) list \<times> 64 word" where
  "dict_scan cursor d =
     (if dict_empty d then ([], 0)
      else if \<not> isRehashing d then
        (let m0 = mask_of (table0 d) in
         (emitBucket (table0 d) (unat (cursor AND m0)), advance m0 cursor))
      else
        (let (small, large) = (if length (table0 d) \<le> length (table1 d) then (table0 d, table1 d)
                               else (table1 d, table0 d));
             ms = mask_of small;
             (es, c) = scanLoop large ms cursor
         in (emitBucket small (unat (cursor AND ms)) @ es, c)))"

section \<open>One bucket is one interval\<close>

text \<open>A table of any power-of-two size uses the low \<open>k\<close> bits of the hash.\<close>

lemma mask_of_wf:
  assumes "length t = 2 ^ k"
  shows "mask_of t = mask (min k 64)"
proof (cases "k < 64")
  case True
  then show ?thesis by (simp add: mask_of_def assms mask_eq_exp_minus_1 min_def)
next
  case False
  then have "(word_of_nat (2 ^ k) :: 64 word) = 0" by (simp add: exp_eq_zero_iff)
  then have "mask_of t = - 1" by (simp only: mask_of_def assms diff_0)
  moreover have "(mask 64 :: 64 word) = - 1" by (rule bit_eqI) (simp add: bit_simps)
  ultimately show ?thesis using False by (simp only: min_def) simp
qed

lemma and_mask_eq_iff: "h AND mask k = c AND mask k \<longleftrightarrow> (\<forall>i < k. bit h i = bit c i)" for h c :: "64 word"
proof
  assume a: "h AND mask k = c AND mask k"
  show "\<forall>i < k. bit h i = bit c i"
  proof (intro allI impI)
    fix i assume "i < k"
    then show "bit h i = bit c i"
      using arg_cong [OF a, of "\<lambda>w. bit w i"] bit_imp_le_length [of h i] bit_imp_le_length [of c i]
      by (auto simp: bit_simps)
  qed
next
  assume "\<forall>i < k. bit h i = bit c i"
  then show "h AND mask k = c AND mask k" by (intro bit_eqI) (auto simp: bit_simps)
qed

lemma drop_bit_eq_iff: "drop_bit n x = drop_bit n y \<longleftrightarrow> (\<forall>j \<ge> n. bit x j = bit y j)" for x y :: "64 word"
proof
  assume a: "drop_bit n x = drop_bit n y"
  show "\<forall>j \<ge> n. bit x j = bit y j"
  proof (intro allI impI)
    fix j assume "n \<le> j"
    then show "bit x j = bit y j" using arg_cong [OF a, of "\<lambda>w. bit w (j - n)"] by (simp add: bit_drop_bit_eq)
  qed
next
  assume "\<forall>j \<ge> n. bit x j = bit y j"
  then show "drop_bit n x = drop_bit n y" by (intro bit_eqI) (simp add: bit_drop_bit_eq)
qed

lemma reversed_prefix:
  assumes "k \<le> 64"
  shows "(\<forall>i < k. bit h i = bit c i) \<longleftrightarrow> (\<forall>j \<ge> 64 - k. bit (reverseBits h) j = bit (reverseBits c) j)"
proof
  assume a: "\<forall>i < k. bit h i = bit c i"
  show "\<forall>j \<ge> 64 - k. bit (reverseBits h) j = bit (reverseBits c) j"
  proof (intro allI impI)
    fix j assume "64 - k \<le> j"
    then have "63 - j < k" if "j < 64" using that by linarith
    with a show "bit (reverseBits h) j = bit (reverseBits c) j" by (auto simp: bit_reverseBits)
  qed
next
  assume a: "\<forall>j \<ge> 64 - k. bit (reverseBits h) j = bit (reverseBits c) j"
  show "\<forall>i < k. bit h i = bit c i"
  proof (intro allI impI)
    fix i assume i: "i < k"
    then have "64 - k \<le> 63 - i" "63 - i < 64" "63 - (63 - i) = i" using assms by linarith+
    with a show "bit h i = bit c i" by (metis bit_reverseBits)
  qed
qed

lemma same_bucket_iff:
  assumes "k \<le> 64"
  shows "h AND mask k = c AND mask k \<longleftrightarrow> pos h div 2 ^ (64 - k) = pos c div 2 ^ (64 - k)"
proof -
  have "h AND mask k = c AND mask k \<longleftrightarrow> drop_bit (64 - k) (reverseBits h) = drop_bit (64 - k) (reverseBits c)"
    using assms by (simp only: and_mask_eq_iff drop_bit_eq_iff reversed_prefix)
  also have "\<dots> \<longleftrightarrow> unat (drop_bit (64 - k) (reverseBits h)) = unat (drop_bit (64 - k) (reverseBits c))"
    by (simp only: unsigned_word_eqI word_unat_eq_iff)
  finally show ?thesis unfolding unat_drop_bit_eq unfolding pos_def drop_bit_eq_div .
qed

lemma reverse_not_mask: "k \<le> 64 \<Longrightarrow> reverseBits (NOT (mask k)) = mask (64 - k)"
  by (rule bit_eqI) (auto simp: bit_reverseBits bit_simps)

lemma unat_or_mask: "unat (w OR mask n :: 64 word) = unat w div 2 ^ n * 2 ^ n + (2 ^ n - 1)" if "n \<le> 64"
proof -
  have "unat w OR mask n = push_bit n (drop_bit n (unat w)) OR mask n"
    by (rule bit_eqI) (auto simp: bit_simps)
  also have "\<dots> = push_bit n (drop_bit n (unat w)) + mask n"
    by (rule disjunctive_add [symmetric]) (auto simp: bit_simps)
  finally have "unat w OR mask n = unat w div 2 ^ n * 2 ^ n + (2 ^ n - 1)"
    by (simp add: push_bit_eq_mult drop_bit_eq_div mask_eq_exp_minus_1)
  moreover have "unat (mask n :: 64 word) = mask n"
    using that by (intro bit_eqI) (auto simp: bit_simps)
  ultimately show ?thesis by (simp only: unsigned_or_eq)
qed

lemma pos_advance_mask:
  assumes "k \<le> 64"
  shows "pos (advance (mask k) c) = (pos c div 2 ^ (64 - k) + 1) * 2 ^ (64 - k) mod 2 ^ 64"
proof -
  let ?n = "64 - k" and ?r = "reverseBits c"
  have "pos (advance (mask k) c) = unat ((?r OR mask ?n) + 1)"
    by (simp only: pos_def advance_def Let_def reverse_reverse reverse_or reverse_not_mask [OF assms])
  also have "\<dots> = (unat (?r OR mask ?n) + 1) mod 2 ^ 64"
    unfolding unat_word_ariths(1) by simp
  also have "unat (?r OR mask ?n) + 1 = (pos c div 2 ^ ?n + 1) * 2 ^ ?n"
  proof -
    have "(2 :: nat) ^ ?n - 1 + 1 = 2 ^ ?n" by simp
    then show ?thesis using unat_or_mask [of ?n ?r] by (simp only: pos_def diff_le_self add.assoc distrib_right mult_1)
  qed
  finally show ?thesis .
qed

text \<open>
  The interval a cursor move covers: from the old position up to the new one, or to the end of
  the order when the new cursor is 0.
\<close>

definition covered :: "64 word \<Rightarrow> 64 word \<Rightarrow> 64 word \<Rightarrow> bool" where
  "covered c c' h \<longleftrightarrow> pos c \<le> pos h \<and> (c' = 0 \<or> pos h < pos c')"

lemma pos_eq_0 [simp]: "pos c = 0 \<longleftrightarrow> c = 0"
  by (simp add: pos_def unsigned_eq_0_iff)

lemma dvd_no_bit: "2 ^ m dvd x \<Longrightarrow> j < m \<Longrightarrow> \<not> bit x j" for x :: nat
  by (auto simp: push_bit_eq_mult [symmetric] mult.commute bit_push_bit_iff elim!: dvdE)

lemma word_nonzero_bit: "w \<noteq> 0 \<Longrightarrow> \<exists>i. bit w i" for w :: "64 word"
  by (metis bit_eqI bit_0_eq bot_apply bot_bool_def)

lemma advance_interval:
  assumes "k \<le> 64" and "covered c (advance (mask k) c) h"
  shows "pos h div 2 ^ (64 - k) \<le> pos c div 2 ^ (64 - k)"
proof -
  let ?b = "(2 :: nat) ^ (64 - k)" and ?q = "pos c div 2 ^ (64 - k)"
  have bk: "?b * 2 ^ k = 2 ^ 64" using assms(1) by (simp flip: power_add)
  have "pos c < ?b * 2 ^ k" using pos_less [of c] bk by simp
  then have "?q < 2 ^ k" by (simp add: less_mult_imp_div_less mult.commute)
  then have "(?q + 1) * ?b \<le> 2 ^ k * ?b" by (intro mult_le_mono1) simp
  then have le: "(?q + 1) * ?b \<le> 2 ^ 64" using bk by (simp only: mult.commute)
  have p: "pos (advance (mask k) c) = (?q + 1) * ?b mod 2 ^ 64" using assms(1) by (rule pos_advance_mask)
  have "pos h < (?q + 1) * ?b"
  proof (cases "(?q + 1) * ?b = 2 ^ 64")
    case True
    then show ?thesis using pos_less [of h] by simp
  next
    case False
    with le have "(?q + 1) * ?b < 2 ^ 64" by simp
    then have "pos (advance (mask k) c) = (?q + 1) * ?b" using p by simp
    moreover from this have "pos (advance (mask k) c) \<noteq> 0" by simp
    then have "advance (mask k) c \<noteq> 0" by simp
    ultimately show ?thesis using assms(2) by (simp only: covered_def) simp
  qed
  then have "pos h div ?b < ?q + 1" by (rule less_mult_imp_div_less)
  then show ?thesis by simp
qed

text \<open>So the bucket of the cursor holds every entry of the interval.\<close>

lemma covered_same_bucket:
  assumes "k \<le> 64" and "covered c (advance (mask k) c) h"
  shows "h AND mask k = c AND mask k"
proof -
  have "pos c div 2 ^ (64 - k) \<le> pos h div 2 ^ (64 - k)"
    using assms(2) by (intro div_le_mono) (simp add: covered_def)
  with advance_interval [OF assms] show ?thesis using same_bucket_iff [OF assms(1)] by simp
qed

lemma emitted_bucket:
  assumes "wf_table t" and "(k, v) \<in> set (concat t)" and "hash k AND mask_of t = c AND mask_of t"
  shows "(k, v) \<in> set (emitBucket t (unat (c AND mask_of t)))"
proof -
  have "(k, v) \<in> set (t ! slot (hash k) t)" using in_table_iff [OF assms(1)] assms(2) by blast
  moreover have "slot (hash k) t = unat (c AND mask_of t)" using assms(3) by (simp add: slot_def)
  moreover have "slot (hash k) t < length t" using assms(1) by (rule wf_table_slot)
  ultimately show ?thesis by (simp add: emitBucket_def)
qed

lemma wf_table_mask:
  assumes "wf_table t"
  obtains k where "k \<le> 64" "mask_of t = mask k"
  using assms mask_of_wf by (metis wf_table_def min.cobounded2)

lemma plain_scan_covers:
  assumes "wf_table t" and "(k, v) \<in> set (concat t)" and "covered c (advance (mask_of t) c) (hash k)"
  shows "(k, v) \<in> set (emitBucket t (unat (c AND mask_of t)))"
proof -
  obtain n where "n \<le> 64" "mask_of t = mask n" using assms(1) by (rule wf_table_mask)
  with covered_same_bucket [of n c "hash k"] assms(3) have "hash k AND mask_of t = c AND mask_of t" by simp
  with assms(1,2) show ?thesis by (rule emitted_bucket)
qed

section \<open>The loop over the larger table\<close>

text \<open>While the loop goes on, the cursor stays in one block of the smaller table.\<close>

lemma advance_same_block:
  assumes "a \<le> b" and "b \<le> 64" and "advance (mask b) c AND (mask a XOR mask b) \<noteq> 0"
  shows "pos (advance (mask b) c) div 2 ^ (64 - a) = pos c div 2 ^ (64 - a)"
proof -
  let ?c = "advance (mask b) c" and ?x = "pos c div 2 ^ (64 - b) + 1" and ?d = "b - a"
  have pw: "(2 :: nat) ^ (64 - a) = 2 ^ (64 - b) * 2 ^ ?d" using assms(1,2) by (simp flip: power_add)
  have p: "pos ?c = ?x * 2 ^ (64 - b) mod 2 ^ 64" using assms(2) by (rule pos_advance_mask)
  obtain i where "bit (?c AND (mask a XOR mask b)) i" using word_nonzero_bit [OF assms(3)] by blast
  then have i: "bit ?c i" "bit (mask a XOR mask b :: 64 word) i" by (simp_all add: bit_and_iff)
  then have "a \<le> i" "i < b" using assms(1) by (auto simp: bit_simps)
  have "?c \<noteq> 0" using assms(3) by auto
  have "bit (pos ?c) (63 - i)"
  proof -
    have "i < 64" "63 - (63 - i) = i" using \<open>i < b\<close> assms(2) by simp_all
    then show ?thesis using i(1) by (simp add: pos_def bit_unsigned_iff bit_reverseBits)
  qed
  have "\<not> 2 ^ ?d dvd ?x"
  proof
    assume "2 ^ ?d dvd ?x"
    then have "2 ^ (64 - b) * 2 ^ ?d dvd ?x * 2 ^ (64 - b)"
      by (metis dvd_refl mult.commute mult_dvd_mono)
    moreover have "(2 :: nat) ^ (64 - a) dvd 2 ^ 64" by (rule le_imp_power_dvd) simp
    ultimately have "2 ^ (64 - a) dvd pos ?c" unfolding p pw [symmetric] by (simp add: dvd_mod)
    then have "\<not> bit (pos ?c) (63 - i)"
      using dvd_no_bit [of "64 - a" "pos ?c" "63 - i"] \<open>a \<le> i\<close> \<open>i < b\<close> assms(2) by linarith
    with \<open>bit (pos ?c) (63 - i)\<close> show False by simp
  qed
  then have e: "?x div 2 ^ ?d = pos c div 2 ^ (64 - b) div 2 ^ ?d"
    by (simp add: div_Suc dvd_eq_mod_eq_0)
  have lt: "?x * 2 ^ (64 - b) < 2 ^ 64"
  proof (rule ccontr)
    assume "\<not> ?x * 2 ^ (64 - b) < 2 ^ 64"
    have "pos c < 2 ^ (64 - b) * 2 ^ b" using pos_less [of c] assms(2) by (simp flip: power_add)
    then have "pos c div 2 ^ (64 - b) < 2 ^ b" by (simp add: less_mult_imp_div_less mult.commute)
    then have "?x * 2 ^ (64 - b) \<le> 2 ^ b * 2 ^ (64 - b)" by (intro mult_le_mono1) simp
    also have "\<dots> = 2 ^ 64" using assms(2) by (simp flip: power_add)
    finally have "?x * 2 ^ (64 - b) = 2 ^ 64" using \<open>\<not> ?x * 2 ^ (64 - b) < 2 ^ 64\<close> by simp
    then have "pos ?c = 0" using p by simp
    with \<open>?c \<noteq> 0\<close> show False by simp
  qed
  then have "pos ?c div 2 ^ (64 - a) = ?x div 2 ^ ?d"
    unfolding p pw by (simp add: div_mult2_eq)
  then show ?thesis unfolding e pw by (simp only: div_mult2_eq)
qed

lemma scanLoop_covers:
  assumes "wf_table large" and "mask_of large = mask b" and "a \<le> b" and "b \<le> 64"
  shows "scanLoop large (mask a) c = (es, c') \<Longrightarrow> covered c c' (hash k) \<Longrightarrow>
    ((k, v) \<in> set (concat large) \<longrightarrow> (k, v) \<in> set es) \<and> pos (hash k) div 2 ^ (64 - a) = pos c div 2 ^ (64 - a)"
proof (induction "2 ^ 64 - pos c" arbitrary: c es rule: less_induct)
  case less
  let ?d = "advance (mask b) c" and ?e = "emitBucket large (unat (c AND mask b))"
  have step: "scanLoop large (mask a) c = (if ?d AND (mask a XOR mask b) \<noteq> 0
      then (let (es', c') = scanLoop large (mask a) ?d in (?e @ es', c')) else (?e, ?d))"
    by (subst scanLoop.simps) (simp only: Let_def assms(2))
  have here: "((k, v) \<in> set (concat large) \<longrightarrow> (k, v) \<in> set ?e) \<and> pos (hash k) div 2 ^ (64 - a) = pos c div 2 ^ (64 - a)"
    if "covered c ?d (hash k)"
  proof -
    have h: "hash k AND mask b = c AND mask b" using covered_same_bucket [OF assms(4) that] .
    then have "pos (hash k) div 2 ^ (64 - b) = pos c div 2 ^ (64 - b)" using same_bucket_iff [OF assms(4)] by blast
    moreover have "(2 :: nat) ^ (64 - a) = 2 ^ (64 - b) * 2 ^ (b - a)" using assms(3,4) by (simp flip: power_add)
    ultimately have "pos (hash k) div 2 ^ (64 - a) = pos c div 2 ^ (64 - a)" by (simp only: div_mult2_eq)
    with plain_scan_covers [OF assms(1), of k v c] that assms(2) show ?thesis by simp
  qed
  show ?case
  proof (cases "?d AND (mask a XOR mask b) \<noteq> 0")
    case False
    then have "es = ?e" "c' = ?d" using less.prems(1) unfolding step by simp_all
    with here less.prems(2) show ?thesis by simp
  next
    case True
    then obtain es' where r: "scanLoop large (mask a) ?d = (es', c')" "es = ?e @ es'"
      using less.prems(1) unfolding step by (auto split: prod.splits)
    have nz: "?d \<noteq> 0" using True by auto
    have lt: "pos c < pos ?d" using nz by (rule pos_advance)
    show ?thesis
    proof (cases "pos (hash k) < pos ?d")
      case True
      then have "covered c ?d (hash k)" using less.prems(2) by (simp add: covered_def)
      from here [OF this] r(2) show ?thesis by auto
    next
      case False
      then have "covered ?d c' (hash k)" using less.prems(2) by (simp add: covered_def)
      moreover have "2 ^ 64 - pos ?d < 2 ^ 64 - pos c" using lt pos_less [of ?d] by linarith
      ultimately have "((k, v) \<in> set (concat large) \<longrightarrow> (k, v) \<in> set es') \<and>
          pos (hash k) div 2 ^ (64 - a) = pos ?d div 2 ^ (64 - a)"
        using less.hyps [of ?d es'] r(1) by blast
      with advance_same_block [OF assms(3,4) True] r(2) show ?thesis by simp
    qed
  qed
qed

section \<open>The guarantee\<close>

text \<open>One call emits every entry of the interval its cursor move covers.\<close>

lemma dict_scan_covers:
  assumes "dict_invar d" and "dict_scan c d = (es, c')" and "dict_lookup d k = Some v" and "covered c c' (hash k)"
  shows "(k, v) \<in> set es"
proof -
  note inv = dict_invarD [OF assms(1)]
  have mem: "(k, v) \<in> set (concat (table0 d)) \<or> (k, v) \<in> set (concat (table1 d))"
    using assms(3) by (auto simp: dict_lookup_def dict_forEach_def dest: map_of_SomeD)
  have ne: "\<not> dict_empty d" using dict_empty_lookup [OF assms(1)] assms(3) by auto
  show ?thesis
  proof (cases "isRehashing d")
    case False
    with assms(2) ne have "es = emitBucket (table0 d) (unat (c AND mask_of (table0 d)))"
        "c' = advance (mask_of (table0 d)) c"
      by (simp_all add: dict_scan_def Let_def)
    with mem inv(3) [OF False] plain_scan_covers [OF inv(1)] assms(4) show ?thesis by simp
  next
    case True
    have both: "(k, v) \<in> set es"
      if wf: "wf_table small" "wf_table large" and le: "length small \<le> length large"
        and s: "es = emitBucket small (unat (c AND mask_of small)) @ es'" "scanLoop large (mask_of small) c = (es', c')"
        and m: "(k, v) \<in> set (concat small) \<or> (k, v) \<in> set (concat large)" for small large es'
    proof -
      obtain i j where l: "length small = 2 ^ i" "length large = 2 ^ j" using wf by (auto simp: wf_table_def)
      with le have ij: "min i 64 \<le> min j 64" by (metis min.mono one_less_numeral_iff order_refl power_le_imp_le_exp semiring_norm(76))
      note ms = mask_of_wf [OF l(1)] and ml = mask_of_wf [OF l(2)]
      note c = scanLoop_covers [OF wf(2) ml ij _ s(2) [unfolded ms] assms(4), of v]
      have "hash k AND mask_of small = c AND mask_of small"
        using c same_bucket_iff [of "min i 64" "hash k" c] by (simp add: ms)
      with emitted_bucket [OF wf(1), of k v c] c m s(1) show ?thesis by auto
    qed
    obtain es' where "es = (if length (table0 d) \<le> length (table1 d)
        then emitBucket (table0 d) (unat (c AND mask_of (table0 d))) @ es'
        else emitBucket (table1 d) (unat (c AND mask_of (table1 d))) @ es')"
      "if length (table0 d) \<le> length (table1 d) then scanLoop (table1 d) (mask_of (table0 d)) c = (es', c')
        else scanLoop (table0 d) (mask_of (table1 d)) c = (es', c')"
      using assms(2) ne True by (auto simp: dict_scan_def Let_def split: prod.splits if_splits)
    with both [of "table0 d" "table1 d" es'] both [of "table1 d" "table0 d" es'] inv(1) inv(2) [OF True] mem
    show ?thesis by (cases "length (table0 d) \<le> length (table1 d)") auto
  qed
qed

text \<open>
  A whole iteration: the client passes the cursor back until it is 0, and the table may be any
  other table at each call, as the operations in between leave it.
\<close>

fun scan_iteration :: "64 word \<Rightarrow> 'v dict list \<Rightarrow> (bytes \<times> 'v) list \<times> 64 word" where
  "scan_iteration c [] = ([], c)"
| "scan_iteration c (d # ds) =
     (case dict_scan c d of (es, c') \<Rightarrow>
        if c' = 0 then (es, 0)
        else case scan_iteration c' ds of (es', c'') \<Rightarrow> (es @ es', c''))"

lemma scan_iteration_covers:
  "scan_iteration c ds = (es, 0) \<Longrightarrow> ds \<noteq> [] \<Longrightarrow> \<forall>d \<in> set ds. dict_invar d \<and> dict_lookup d k \<noteq> None \<Longrightarrow>
   pos c \<le> pos (hash k) \<Longrightarrow> \<exists>d v. d \<in> set ds \<and> dict_lookup d k = Some v \<and> (k, v) \<in> set es"
proof (induction ds arbitrary: c es)
  case (Cons d ds)
  obtain es1 c1 where s: "dict_scan c d = (es1, c1)" by (cases "dict_scan c d")
  from Cons.prems(3) obtain v where v: "dict_invar d" "dict_lookup d k = Some v" by auto
  show ?case
  proof (cases "c1 = 0 \<or> pos (hash k) < pos c1")
    case True
    then have "(k, v) \<in> set es1"
      using dict_scan_covers [OF v(1) s v(2)] Cons.prems(4) by (simp add: covered_def)
    moreover have "set es1 \<subseteq> set es" using Cons.prems(1) s by (auto split: if_splits prod.splits)
    ultimately show ?thesis using v(2) by auto
  next
    case False
    then obtain es2 where r: "scan_iteration c1 ds = (es2, 0)" "es = es1 @ es2"
      using Cons.prems(1) s by (auto split: prod.splits)
    have "ds \<noteq> []" using r(1) False by auto
    with Cons.IH [OF r(1)] Cons.prems(3) False r(2) show ?thesis by fastforce
  qed
qed simp

text \<open>C9: The promise of \<open>SCAN\<close>: an iteration that starts at cursor 0 and ends when the cursor returns
  to 0 has emitted every key that was in the table at all of its calls, with a value the key had
  at one of them, although the table may have been grown, shrunk or rehashed arbitrarily
  between the calls.\<close>

theorem scan_guarantee:
  assumes "scan_iteration 0 ds = (es, 0)" and "ds \<noteq> []"
    and "\<forall>d \<in> set ds. dict_invar d \<and> dict_lookup d k \<noteq> None"
  shows "\<exists>d v. d \<in> set ds \<and> dict_lookup d k = Some v \<and> (k, v) \<in> set es"
  using scan_iteration_covers [OF assms] by simp

theorem scan_guarantee_witness:
  "\<exists>d v. d \<in> set (replicate 4 (snd (dict_insert (str ''a'') (7 :: nat) dict_new))) \<and>
     dict_lookup d (str ''a'') = Some v \<and> (str ''a'', v) \<in> set [(str ''a'', 7)]"
proof -
  let ?d = "snd (dict_insert (str ''a'') (7 :: nat) dict_new)"
  have "scan_iteration 0 (replicate 4 ?d) = ([(str ''a'', 7)], 0)" by code_simp
  moreover have "dict_invar ?d \<and> dict_lookup ?d (str ''a'') = Some 7"
    using dict.snd_insert [OF dict_invar_new TrueI, of "str ''a''" "7 :: nat"] by simp
  ultimately show ?thesis
    by (intro scan_guarantee) simp_all
qed

end
