(* ===== verification/Hash_Value.thy ===== *)
theory Hash_Value
  imports Listpack_Spec Dict_Refine
begin

text \<open>
  Model of \<open>EncodingLimits\<close> and \<open>HashValue\<close> of \<open>src/core/collections.h\<close> and \<open>collections.cpp\<close>: a hash
  is a listpack of alternating fields and values until it outgrows its limits, and a hash table
  from then on. Both encodings implement one finite map, and the conversion keeps it. The
  accessors that the source declares const still advance a pending rehash of the table, so
  they return the value too.
\<close>

section \<open>Limits\<close>

record EncodingLimits =
  hash_max_listpack_entries :: nat
  hash_max_listpack_value :: nat
  list_max_listpack_bytes :: nat
  set_max_intset_entries :: nat
  set_max_listpack_entries :: nat
  set_max_listpack_value :: nat
  zset_max_listpack_entries :: nat
  zset_max_listpack_value :: nat

definition defaultLimits :: EncodingLimits where
  "defaultLimits = \<lparr>hash_max_listpack_entries = 512, hash_max_listpack_value = 64,
     list_max_listpack_bytes = 8192, set_max_intset_entries = 512, set_max_listpack_entries = 128,
     set_max_listpack_value = 64, zset_max_listpack_entries = 128, zset_max_listpack_value = 64\<rparr>"

section \<open>The value\<close>

record hashvalue =
  hv_encoding :: ObjEncoding
  hv_listpack :: bytes
  hv_table :: "bytes dict"

definition hv_new :: hashvalue where
  "hv_new = \<lparr>hv_encoding = ListPack, hv_listpack = lp_new, hv_table = dict_new\<rparr>"

definition hv_size :: "hashvalue \<Rightarrow> nat" where
  "hv_size h = (if hv_encoding h = ListPack then lp_numElements (hv_listpack h) div 2
                else dict_size (hv_table h))"

definition hv_get :: "bytes \<Rightarrow> hashvalue \<Rightarrow> bytes option \<times> hashvalue" where
  "hv_get field h =
     (if hv_encoding h = HashTable then
        (case dict_find field (hv_table h) of (found, t) \<Rightarrow> (found, h\<lparr>hv_table := t\<rparr>))
      else case lp_find (hv_listpack h) field 0 2 of
          None \<Rightarrow> (None, h)
        | Some index \<Rightarrow> (map_option lp_toString (lp_get (hv_listpack h) (index + 1)), h))"

definition hv_contains :: "bytes \<Rightarrow> hashvalue \<Rightarrow> bool \<times> hashvalue" where
  "hv_contains field h =
     (if hv_encoding h = HashTable then
        (case dict_find field (hv_table h) of (found, t) \<Rightarrow> (found \<noteq> None, h\<lparr>hv_table := t\<rparr>))
      else (lp_find (hv_listpack h) field 0 2 \<noteq> None, h))"

definition hv_shouldConvert :: "bytes \<Rightarrow> bytes \<Rightarrow> hashvalue \<Rightarrow> bool" where
  "hv_shouldConvert field value h =
     (if hv_size h \<ge> hash_max_listpack_entries defaultLimits then True
      else if length field > hash_max_listpack_value defaultLimits then True
      else if length value > hash_max_listpack_value defaultLimits then True
      else False)"

text \<open>The loop over consecutive pairs, which ignores a trailing single element.\<close>

fun insertPairs :: "bytes list \<Rightarrow> bytes dict \<Rightarrow> bytes dict" where
  "insertPairs (f # v # rest) t = insertPairs rest (snd (dict_insert f v t))"
| "insertPairs _ t = t"

definition hv_convertToHashTable :: "hashvalue \<Rightarrow> hashvalue" where
  "hv_convertToHashTable h =
     (if hv_encoding h = HashTable then h
      else h\<lparr>hv_table := insertPairs (lp_toStrings (hv_listpack h)) (hv_table h),
             hv_listpack := lp_clear (hv_listpack h), hv_encoding := HashTable\<rparr>)"

fun longestString :: "lp_element list \<Rightarrow> nat" where
  "longestString [] = 0"
| "longestString (LpInt n # es) = longestString es"
| "longestString (LpStr s # es) = max (length s) (longestString es)"

definition hv_adoptListpack :: "bytes \<Rightarrow> hashvalue \<Rightarrow> bool \<times> hashvalue" where
  "hv_adoptListpack lp h =
     (if lp_numElements lp mod 2 \<noteq> 0 then (False, h)
      else
        let longest = longestString (lp_forEach lp);
            h1 = h\<lparr>hv_listpack := lp, hv_encoding := ListPack\<rparr>
        in (True,
            if lp_numElements lp div 2 > hash_max_listpack_entries defaultLimits
               \<or> longest > hash_max_listpack_value defaultLimits
            then hv_convertToHashTable h1 else h1))"

definition hv_set :: "bytes \<Rightarrow> bytes \<Rightarrow> hashvalue \<Rightarrow> bool \<times> hashvalue" where
  "hv_set field value h =
     (if hv_encoding h = HashTable then
        (case dict_find field (hv_table h) of
           (found, t) \<Rightarrow> (found = None, h\<lparr>hv_table := snd (dict_insert field value t)\<rparr>))
      else case lp_find (hv_listpack h) field 0 2 of
          Some index \<Rightarrow> (False, h\<lparr>hv_listpack := snd (lp_replaceAt (index + 1) value (hv_listpack h))\<rparr>)
        | None \<Rightarrow>
            if hv_shouldConvert field value h then
              let h1 = hv_convertToHashTable h in
              (True, h1\<lparr>hv_table := snd (dict_insert field value (hv_table h1))\<rparr>)
            else (True, h\<lparr>hv_listpack := lp_append value (lp_append field (hv_listpack h))\<rparr>))"

definition hv_erase :: "bytes \<Rightarrow> hashvalue \<Rightarrow> bool \<times> hashvalue" where
  "hv_erase field h =
     (if hv_encoding h = HashTable then
        (case dict_erase field (hv_table h) of (erased, t) \<Rightarrow> (erased, h\<lparr>hv_table := t\<rparr>))
      else case lp_find (hv_listpack h) field 0 2 of
          None \<Rightarrow> (False, h)
        | Some index \<Rightarrow>
            (case lp_eraseRange index 2 (hv_listpack h) of
               (erased, lp) \<Rightarrow> (erased, h\<lparr>hv_listpack := lp\<rparr>)))"

definition hv_flatten :: "hashvalue \<Rightarrow> bytes list" where
  "hv_flatten h = (if hv_encoding h = ListPack then lp_toStrings (hv_listpack h)
                   else flat (dict_forEach (hv_table h)))"

text \<open>Every other element of a flat list, from the first or from the second.\<close>

fun evens :: "'a list \<Rightarrow> 'a list" where
  "evens [] = []"
| "evens [x] = [x]"
| "evens (x # y # xs) = x # evens xs"

fun odds :: "'a list \<Rightarrow> 'a list" where
  "odds [] = []"
| "odds [x] = []"
| "odds (x # y # xs) = y # odds xs"

definition hv_fields :: "hashvalue \<Rightarrow> bytes list" where
  "hv_fields h = evens (hv_flatten h)"

definition hv_values :: "hashvalue \<Rightarrow> bytes list" where
  "hv_values h = odds (hv_flatten h)"

text \<open>The copy constructor rebuilds the hash from its logical contents.\<close>

fun setPairs :: "bytes list \<Rightarrow> hashvalue \<Rightarrow> hashvalue" where
  "setPairs (f # v # rest) h = setPairs rest (snd (hv_set f v h))"
| "setPairs _ h = h"

definition hv_copy :: "hashvalue \<Rightarrow> hashvalue" where
  "hv_copy other = setPairs (hv_flatten other) hv_new"

section \<open>The map a hash stands for\<close>

fun unflat :: "'a list \<Rightarrow> ('a \<times> 'a) list" where
  "unflat (x # y # xs) = (x, y) # unflat xs"
| "unflat _ = []"

lemma unflat_flat [simp]: "unflat (flat ps) = ps"
  by (induction ps rule: flat.induct) simp_all

lemma evens_flat [simp]: "evens (flat ps) = map fst ps"
  by (induction ps rule: flat.induct) simp_all

lemma odds_flat [simp]: "odds (flat ps) = map snd ps"
  by (induction ps rule: flat.induct) simp_all

definition hv_entries :: "hashvalue \<Rightarrow> (bytes \<times> bytes) list" where
  "hv_entries h = unflat (hv_flatten h)"

definition hv_lookup :: "hashvalue \<Rightarrow> bytes \<Rightarrow> bytes option" where
  "hv_lookup h = map_of (hv_entries h)"

definition hv_invar :: "hashvalue \<Rightarrow> bool" where
  "hv_invar h \<longleftrightarrow> dict_invar (hv_table h) \<and>
     (if hv_encoding h = ListPack then
        dict_lookup (hv_table h) = Map.empty \<and>
        (\<exists>ps. lp_strs (hv_listpack h) (flat ps) \<and> distinct (map fst ps))
      else hv_encoding h = HashTable)"

lemma hv_lp:
  assumes "hv_invar h" and "hv_encoding h = ListPack"
  obtains ps where "lp_strs (hv_listpack h) (flat ps)" "distinct (map fst ps)"
    "hv_entries h = ps" "hv_lookup h = map_of ps" "dict_lookup (hv_table h) = Map.empty"
    "dict_invar (hv_table h)"
proof -
  from assms obtain ps where "lp_strs (hv_listpack h) (flat ps)" "distinct (map fst ps)"
    by (auto simp: hv_invar_def)
  with that assms show thesis
    by (auto simp: hv_invar_def hv_entries_def hv_lookup_def hv_flatten_def lp_rep_toStrings)
qed

lemma hv_ht:
  assumes "hv_invar h" and "hv_encoding h \<noteq> ListPack"
  shows "hv_encoding h = HashTable" "dict_invar (hv_table h)" "hv_entries h = dict_forEach (hv_table h)"
    "hv_lookup h = dict_lookup (hv_table h)"
  using assms by (auto simp: hv_invar_def hv_entries_def hv_lookup_def hv_flatten_def dict_lookup_def)

lemma hv_lpI:
  assumes "hv_encoding h = ListPack" and "lp_strs (hv_listpack h) (flat ps)" and "distinct (map fst ps)"
    and "dict_invar (hv_table h)" and "dict_lookup (hv_table h) = Map.empty"
  shows "hv_invar h \<and> hv_lookup h = map_of ps"
  using assms by (auto simp: hv_invar_def hv_lookup_def hv_entries_def hv_flatten_def lp_rep_toStrings)

lemma hv_htI:
  "hv_encoding h = HashTable \<Longrightarrow> dict_invar (hv_table h) \<Longrightarrow>
   hv_invar h \<and> hv_lookup h = dict_lookup (hv_table h)"
  by (auto simp: hv_invar_def hv_lookup_def hv_entries_def hv_flatten_def dict_lookup_def)

lemma hv_invar_new: "hv_invar hv_new" "hv_lookup hv_new = Map.empty"
  using hv_lpI [of hv_new "[]"] lp_rep_new dict_invar_new dict_lookup_new
  by (auto simp: hv_new_def simp del: lp_new_rep)

section \<open>Conversion\<close>

lemma insertPairs_flat: "insertPairs (flat ps) t = fold (\<lambda>(k, v) t. snd (dict_insert k v t)) ps t"
  by (induction ps arbitrary: t rule: flat.induct) simp_all

lemma hv_convert_props:
  assumes "hv_invar h"
  shows "hv_invar (hv_convertToHashTable h) \<and> hv_encoding (hv_convertToHashTable h) = HashTable \<and>
    hv_lookup (hv_convertToHashTable h) = hv_lookup h"
proof (cases "hv_encoding h = ListPack")
  case True
  with assms obtain ps where l: "lp_strs (hv_listpack h) (flat ps)" "distinct (map fst ps)"
      "hv_lookup h = map_of ps" "dict_lookup (hv_table h) = Map.empty" "dict_invar (hv_table h)"
    by (rule hv_lp)
  let ?h = "hv_convertToHashTable h"
  have t: "hv_table ?h = fold (\<lambda>(k, v) t. snd (dict_insert k v t)) ps (hv_table h)"
    using True l(1) by (simp add: hv_convertToHashTable_def lp_rep_toStrings insertPairs_flat)
  have e: "hv_encoding ?h = HashTable" using True by (simp add: hv_convertToHashTable_def)
  have "dict_invar (hv_table ?h) \<and> dict_lookup (hv_table ?h) = map_of ps"
    using dict.insert_all [OF l(5,2)] l(4) by (simp add: t)
  with hv_htI [OF e] l(3) e show ?thesis by simp
next
  case False
  with assms hv_ht [OF assms False] show ?thesis by (simp add: hv_convertToHashTable_def)
qed

section \<open>Operations\<close>

abbreviation hv_fits :: "bytes \<Rightarrow> bytes \<Rightarrow> bool" where
  "hv_fits field value \<equiv> lp_fits field \<and> lp_fits value"

lemma hv_get_props:
  assumes "hv_invar h" and "hv_get k h = (r, h')"
  shows "r = hv_lookup h k \<and> hv_invar h' \<and> hv_lookup h' = hv_lookup h"
proof (cases "hv_encoding h = ListPack")
  case True
  with assms(1) obtain ps where l: "lp_strs (hv_listpack h) (flat ps)" "hv_lookup h = map_of ps"
    by (rule hv_lp)
  with True assms lps.get_pair [OF l(1)] lps.find_pair_None [OF l(1)] show ?thesis
    by (auto simp: hv_get_def split: option.splits)
next
  case False
  note t = hv_ht [OF assms(1) False]
  obtain v d where f: "dict_find k (hv_table h) = (v, d)" by (cases "dict_find k (hv_table h)")
  with t(1) assms(2) have "r = v" "h' = h\<lparr>hv_table := d\<rparr>" by (simp_all add: hv_get_def)
  with dict.find [OF t(2) f] hv_htI [of h'] t show ?thesis by simp
qed

lemma hv_contains_get: "fst (hv_contains k h) = (fst (hv_get k h) \<noteq> None) \<and> snd (hv_contains k h) = snd (hv_get k h)"
  if "hv_invar h"
proof (cases "hv_encoding h = ListPack")
  case True
  with that obtain ps where l: "lp_strs (hv_listpack h) (flat ps)" by (rule hv_lp)
  show ?thesis
    using True lps.get_pair [OF l, of k] lps.find_pair_None [OF l, of k]
    by (cases "lp_find (hv_listpack h) k 0 2") (auto simp: hv_get_def hv_contains_def)
next
  case False
  with hv_ht(1) [OF that False] show ?thesis
    by (simp add: hv_get_def hv_contains_def split: prod.splits)
qed

lemma hv_set_props:
  assumes "hv_invar h" and "hv_fits k v" and "hv_set k v h = (new, h')"
  shows "new = (hv_lookup h k = None) \<and> hv_invar h' \<and> hv_lookup h' = (hv_lookup h)(k \<mapsto> v)"
proof (cases "hv_encoding h = ListPack")
  case True
  with assms(1) obtain ps where l: "lp_strs (hv_listpack h) (flat ps)" "distinct (map fst ps)"
      "hv_lookup h = map_of ps" "dict_lookup (hv_table h) = Map.empty" "dict_invar (hv_table h)"
    by (rule hv_lp)
  show ?thesis
  proof (cases "lp_find (hv_listpack h) k 0 2")
    case (Some j)
    with l(1) assms(2) obtain b qs where r: "lp_replaceAt (j + 1) v (hv_listpack h) = (True, b)"
        "lp_strs b (flat qs)" "map fst qs = map fst ps" "map_of qs = (map_of ps)(k \<mapsto> v)"
      using lps.replace_pair [OF l(1) Some] by blast
    have "new = False" "h' = h\<lparr>hv_listpack := b\<rparr>"
      using assms(3) True Some r(1) by (simp_all add: hv_set_def)
    moreover have "hv_lookup h k \<noteq> None" using lps.find_pair_None [OF l(1), of k] Some l(3) by simp
    ultimately show ?thesis using hv_lpI [of h' qs] True r l by simp
  next
    case None
    then have n: "hv_lookup h k = None" using lps.find_pair_None [OF l(1), of k] l(3) by simp
    show ?thesis
    proof (cases "hv_shouldConvert k v h")
      case True
      let ?c = "hv_convertToHashTable h"
      note c = hv_convert_props [OF assms(1)]
      have h': "new" "h' = ?c\<lparr>hv_table := snd (dict_insert k v (hv_table ?c))\<rparr>"
        using assms(3) \<open>hv_encoding h = ListPack\<close> None True by (auto simp: hv_set_def Let_def)
      have t: "hv_encoding ?c \<noteq> ListPack" using c by simp
      note t = hv_ht [OF conjunct1 [OF c] t]
      with dict.snd_insert [OF t(2) TrueI, of k v] hv_htI [of h'] h' c n show ?thesis by simp
    next
      case False
      have h': "new" "h' = h\<lparr>hv_listpack := lp_append v (lp_append k (hv_listpack h))\<rparr>"
        using assms(3) True None False by (auto simp: hv_set_def)
      have "lp_strs (hv_listpack h') (flat (ps @ [(k, v)]))"
        using lps.append_pair [OF l(1)] assms(2) h'(2) by simp
      moreover have "distinct (map fst (ps @ [(k, v)]))" using l(2,3) n by (auto simp: map_of_eq_None_iff)
      moreover have "map_of (ps @ [(k, v)]) = (map_of ps)(k \<mapsto> v)"
        using n l(3) by (auto simp: map_add_def fun_eq_iff split: option.splits)
      ultimately show ?thesis using hv_lpI [of h' "ps @ [(k, v)]"] True l h' n by simp
    qed
  qed
next
  case False
  note t = hv_ht [OF assms(1) False]
  obtain r d where f: "dict_find k (hv_table h) = (r, d)" by (cases "dict_find k (hv_table h)")
  note d = dict.find [OF t(2) f]
  have h': "new = (r = None)" "h' = h\<lparr>hv_table := snd (dict_insert k v d)\<rparr>"
    using t(1) f assms(3) by (simp_all add: hv_set_def)
  have "dict_invar (hv_table h') \<and> dict_lookup (hv_table h') = (dict_lookup (hv_table h))(k \<mapsto> v)"
    using dict.snd_insert [of d k v] d by (simp add: h')
  with hv_htI [of h'] h' t d show ?thesis by simp
qed

lemma hv_erase_props:
  assumes "hv_invar h" and "hv_erase k h = (found, h')"
  shows "found = (hv_lookup h k \<noteq> None) \<and> hv_invar h' \<and> hv_lookup h' = (hv_lookup h)(k := None)"
proof (cases "hv_encoding h = ListPack")
  case True
  with assms(1) obtain ps where l: "lp_strs (hv_listpack h) (flat ps)" "distinct (map fst ps)"
      "hv_lookup h = map_of ps" "dict_lookup (hv_table h) = Map.empty" "dict_invar (hv_table h)"
    by (rule hv_lp)
  show ?thesis
  proof (cases "lp_find (hv_listpack h) k 0 2")
    case None
    then have "hv_lookup h k = None" using lps.find_pair_None [OF l(1), of k] l(3) by simp
    with None True assms show ?thesis by (auto simp: hv_erase_def fun_upd_idem)
  next
    case (Some j)
    with l(1,2) obtain b qs where r: "lp_eraseRange j 2 (hv_listpack h) = (True, b)"
        "lp_strs b (flat qs)" "distinct (map fst qs)" "map_of qs = (map_of ps)(k := None)"
      by (rule lps.erase_pair)
    have "found" "h' = h\<lparr>hv_listpack := b\<rparr>"
      using assms(2) True Some r(1) by (simp_all add: hv_erase_def)
    moreover have "hv_lookup h k \<noteq> None" using lps.find_pair_None [OF l(1), of k] Some l(3) by simp
    ultimately show ?thesis using hv_lpI [of h' qs] True r l by simp
  qed
next
  case False
  note t = hv_ht [OF assms(1) False]
  obtain r d where f: "dict_erase k (hv_table h) = (r, d)" by (cases "dict_erase k (hv_table h)")
  with t(1) assms(2) have "found = r" "h' = h\<lparr>hv_table := d\<rparr>" by (simp_all add: hv_erase_def)
  with dict.erase [OF t(2) f] hv_htI [of h'] t show ?thesis by simp
qed

lemma hv_size_entries: "hv_invar h \<Longrightarrow> hv_size h = length (hv_entries h)"
proof (cases "hv_encoding h = ListPack")
  case True
  assume "hv_invar h"
  then obtain ps where "lp_strs (hv_listpack h) (flat ps)" "hv_entries h = ps" using True by (rule hv_lp)
  with True lps.rep_count show ?thesis by (simp add: hv_size_def)
next
  case False
  assume "hv_invar h"
  from hv_ht [OF this False] False show ?thesis by (simp add: hv_size_def dict_size_forEach)
qed

lemma hv_entries_props: "hv_invar h \<Longrightarrow> distinct (map fst (hv_entries h)) \<and> map_of (hv_entries h) = hv_lookup h"
proof (cases "hv_encoding h = ListPack")
  case True
  assume "hv_invar h"
  then obtain ps where "distinct (map fst ps)" "hv_entries h = ps" using True by (rule hv_lp)
  then show ?thesis by (simp add: hv_lookup_def)
next
  case False
  assume "hv_invar h"
  from hv_ht [OF this False] show ?thesis using dict_invarD(6) by (simp add: hv_lookup_def)
qed

interpretation hash: map_impl hv_invar hv_fits hv_lookup hv_get hv_set hv_erase hv_size hv_entries
proof
  fix h k v and r :: "bytes option" and b :: bool and h'
  assume i: "hv_invar h"
  show "r = hv_lookup h k \<and> hv_invar h' \<and> hv_lookup h' = hv_lookup h" if "hv_get k h = (r, h')"
    using i that by (rule hv_get_props)
  show "b = (hv_lookup h k = None) \<and> hv_invar h' \<and> hv_lookup h' = (hv_lookup h)(k \<mapsto> v)"
    if "hv_fits k v" "hv_set k v h = (b, h')"
    using i that by (rule hv_set_props)
  show "b = (hv_lookup h k \<noteq> None) \<and> hv_invar h' \<and> hv_lookup h' = (hv_lookup h)(k := None)"
    if "hv_erase k h = (b, h')"
    using i that by (rule hv_erase_props)
qed (simp_all add: hv_size_entries hv_entries_props)

text \<open>The flat list always pairs up.\<close>

lemma hv_flatten_flat: "hv_invar h \<Longrightarrow> hv_flatten h = flat (hv_entries h)"
proof (cases "hv_encoding h = ListPack")
  case True
  assume "hv_invar h"
  then obtain ps where "lp_strs (hv_listpack h) (flat ps)" "hv_entries h = ps" using True by (rule hv_lp)
  with True show ?thesis by (simp add: hv_flatten_def lp_rep_toStrings)
next
  case False
  assume "hv_invar h"
  from hv_ht [OF this False] False show ?thesis by (simp add: hv_flatten_def)
qed

lemma setPairs_flat: "setPairs (flat ps) h = fold (\<lambda>(k, v) h. snd (hv_set k v h)) ps h"
  by (induction ps arbitrary: h rule: flat.induct) simp_all

lemma hv_copy_props:
  assumes "hv_invar h" and "\<forall>(k, v) \<in> set (hv_entries h). hv_fits k v"
  shows "hv_invar (hv_copy h) \<and> hv_lookup (hv_copy h) = hv_lookup h"
  using hash.insert_all [OF hv_invar_new(1), of "hv_entries h"] hash.entries [OF assms(1)] assms(2)
  by (simp add: hv_copy_def hv_flatten_flat [OF assms(1)] setPairs_flat hv_invar_new(2))

section \<open>Properties\<close>

text \<open>C11: A hash is a finite map from fields to values in both of its encodings and across the
  conversion between them: reading, writing and deleting a field have map semantics, the results
  say whether the field was there, the size counts the fields, and the listings enumerate them.\<close>

theorem hash_refines_map:
  assumes "hv_invar h" and "hv_fits field value"
    and "hv_get field h = (r, h1)" and "hv_set field value h = (new, h2)" and "hv_erase field h = (erased, h3)"
  shows "r = hv_lookup h field \<and> hv_invar h1 \<and> hv_lookup h1 = hv_lookup h \<and>
    new = (hv_lookup h field = None) \<and> hv_invar h2 \<and> hv_lookup h2 = (hv_lookup h)(field \<mapsto> value) \<and>
    erased = (hv_lookup h field \<noteq> None) \<and> hv_invar h3 \<and> hv_lookup h3 = (hv_lookup h)(field := None) \<and>
    hv_size h = card (dom (hv_lookup h)) \<and> set (hv_fields h) = dom (hv_lookup h)"
proof -
  have "set (hv_fields h) = dom (hv_lookup h)"
    using hash.entries [OF assms(1)] by (simp add: hv_fields_def hv_flatten_flat [OF assms(1)])
      (metis dom_map_of_conv_image_fst)
  then show ?thesis
    using hash.find [OF assms(1,3)] hash.insert [OF assms(1,2,4)] hash.erase [OF assms(1,5)]
      hash.size_card [OF assms(1)] by blast
qed

theorem hash_refines_map_witness:
  "hv_lookup (snd (hv_set (str ''f'') (str ''1'') hv_new)) (str ''f'') = Some (str ''1'')"
proof -
  obtain r h1 new h2 erased h3 where e: "hv_get (str ''f'') hv_new = (r, h1)"
      "hv_set (str ''f'') (str ''1'') hv_new = (new, h2)" "hv_erase (str ''f'') hv_new = (erased, h3)"
    by (meson surj_pair)
  have "hv_fits (str ''f'') (str ''1'')" by simp
  from hash_refines_map [OF hv_invar_new(1) this e] show ?thesis by (simp add: e [simplified])
qed

end
