(* ===== verification/Set_Value.thy ===== *)
theory Set_Value
  imports Hash_Value Intset
begin

text \<open>
  Model of \<open>SetValue\<close> of \<open>src/core/collections.cpp\<close>: a set is an intset while all members are
  integers, a listpack while it is small, and a hash table otherwise. The three encodings
  implement one set of strings, and both conversions keep it.
\<close>

section \<open>The value\<close>

record setvalue =
  sv_encoding :: ObjEncoding
  sv_intset :: intset
  sv_listpack :: bytes
  sv_table :: "bool dict"

definition sv_new :: setvalue where
  "sv_new = \<lparr>sv_encoding = IntSet, sv_intset = intset_new, sv_listpack = lp_new, sv_table = dict_new\<rparr>"

definition sv_size :: "setvalue \<Rightarrow> nat" where
  "sv_size s = (case sv_encoding s of
      IntSet \<Rightarrow> is_size (sv_intset s)
    | ListPack \<Rightarrow> lp_numElements (sv_listpack s)
    | _ \<Rightarrow> dict_size (sv_table s))"

definition sv_contains :: "bytes \<Rightarrow> setvalue \<Rightarrow> bool \<times> setvalue" where
  "sv_contains member s =
     (if sv_encoding s = IntSet then
        (case stringToInt64 member of
           None \<Rightarrow> (False, s)
         | Some value \<Rightarrow> (is_contains (sv_intset s) value, s))
      else if sv_encoding s = ListPack then (lp_find (sv_listpack s) member 0 1 \<noteq> None, s)
      else case dict_find member (sv_table s) of (found, t) \<Rightarrow> (found \<noteq> None, s\<lparr>sv_table := t\<rparr>))"

definition sv_convertToListpack :: "setvalue \<Rightarrow> setvalue" where
  "sv_convertToListpack s =
     (if sv_encoding s \<noteq> IntSet then s
      else s\<lparr>sv_listpack := fold lp_appendInteger (is_values (sv_intset s)) (sv_listpack s),
             sv_intset := is_clear (sv_intset s), sv_encoding := ListPack\<rparr>)"

definition insertMembers :: "bytes list \<Rightarrow> bool dict \<Rightarrow> bool dict" where
  "insertMembers ms t = fold (\<lambda>m t. snd (dict_insert m True t)) ms t"

definition sv_convertToHashTable :: "setvalue \<Rightarrow> setvalue" where
  "sv_convertToHashTable s =
     (if sv_encoding s = HashTable then s
      else
        let s1 = (if sv_encoding s = IntSet then
                    s\<lparr>sv_table := insertMembers (map to_string (is_values (sv_intset s))) (sv_table s),
                      sv_intset := is_clear (sv_intset s)\<rparr>
                  else
                    s\<lparr>sv_table := insertMembers (lp_toStrings (sv_listpack s)) (sv_table s),
                      sv_listpack := lp_clear (sv_listpack s)\<rparr>)
        in s1\<lparr>sv_encoding := HashTable\<rparr>)"

definition sv_adoptIntSet :: "intset \<Rightarrow> setvalue \<Rightarrow> setvalue" where
  "sv_adoptIntSet is s =
     (let s1 = s\<lparr>sv_intset := is, sv_encoding := IntSet\<rparr> in
      if is_size is > set_max_intset_entries defaultLimits then
        (if is_size is \<le> set_max_listpack_entries defaultLimits then sv_convertToListpack s1
         else sv_convertToHashTable s1)
      else s1)"

definition sv_adoptListpack :: "bytes \<Rightarrow> setvalue \<Rightarrow> setvalue" where
  "sv_adoptListpack lp s =
     (let s1 = s\<lparr>sv_listpack := lp, sv_encoding := ListPack\<rparr> in
      if lp_numElements lp > set_max_listpack_entries defaultLimits then sv_convertToHashTable s1
      else s1)"

text \<open>
  \<open>add\<close> in the order of the source: the intset part either answers or changes the encoding, then
  the listpack part either answers or converts, then the table.
\<close>

definition sv_addIntset :: "bytes \<Rightarrow> setvalue \<Rightarrow> (bool \<times> setvalue) + setvalue" where
  "sv_addIntset member s =
     (if sv_encoding s = IntSet then
        (case stringToInt64 member of
           Some value \<Rightarrow>
             if is_contains (sv_intset s) value then Inl (False, s)
             else if is_size (sv_intset s) < set_max_intset_entries defaultLimits then
               (case is_add value (sv_intset s) of (added, is) \<Rightarrow> Inl (added, s\<lparr>sv_intset := is\<rparr>))
             else if is_size (sv_intset s) < set_max_listpack_entries defaultLimits then
               Inr (sv_convertToListpack s)
             else Inr (sv_convertToHashTable s)
         | None \<Rightarrow>
             if is_size (sv_intset s) \<ge> set_max_listpack_entries defaultLimits
                \<or> length member > set_max_listpack_value defaultLimits
             then Inr (sv_convertToHashTable s)
             else Inr (sv_convertToListpack s))
      else Inr s)"

definition sv_addListpack :: "bytes \<Rightarrow> setvalue \<Rightarrow> (bool \<times> setvalue) + setvalue" where
  "sv_addListpack member s =
     (if sv_encoding s = ListPack then
        (if lp_find (sv_listpack s) member 0 1 \<noteq> None then Inl (False, s)
         else if lp_numElements (sv_listpack s) \<ge> set_max_listpack_entries defaultLimits
                 \<or> length member > set_max_listpack_value defaultLimits
         then Inr (sv_convertToHashTable s)
         else Inl (True, s\<lparr>sv_listpack := lp_append member (sv_listpack s)\<rparr>))
      else Inr s)"

definition sv_addTable :: "bytes \<Rightarrow> setvalue \<Rightarrow> bool \<times> setvalue" where
  "sv_addTable member s =
     (case dict_find member (sv_table s) of
        (Some _, t) \<Rightarrow> (False, s\<lparr>sv_table := t\<rparr>)
      | (None, t) \<Rightarrow> (True, s\<lparr>sv_table := snd (dict_insert member True t)\<rparr>))"

definition sv_add :: "bytes \<Rightarrow> setvalue \<Rightarrow> bool \<times> setvalue" where
  "sv_add member s =
     (case sv_addIntset member s of
        Inl r \<Rightarrow> r
      | Inr s1 \<Rightarrow> (case sv_addListpack member s1 of Inl r \<Rightarrow> r | Inr s2 \<Rightarrow> sv_addTable member s2))"

definition sv_erase :: "bytes \<Rightarrow> setvalue \<Rightarrow> bool \<times> setvalue" where
  "sv_erase member s =
     (if sv_encoding s = IntSet then
        (case stringToInt64 member of
           None \<Rightarrow> (False, s)
         | Some value \<Rightarrow> (case is_remove value (sv_intset s) of (removed, is) \<Rightarrow> (removed, s\<lparr>sv_intset := is\<rparr>)))
      else if sv_encoding s = ListPack then
        (case lp_find (sv_listpack s) member 0 1 of
           None \<Rightarrow> (False, s)
         | Some index \<Rightarrow> (case lp_eraseAt index (sv_listpack s) of (erased, lp) \<Rightarrow> (erased, s\<lparr>sv_listpack := lp\<rparr>)))
      else case dict_erase member (sv_table s) of (erased, t) \<Rightarrow> (erased, s\<lparr>sv_table := t\<rparr>))"

definition sv_members :: "setvalue \<Rightarrow> bytes list" where
  "sv_members s =
     (if sv_encoding s = IntSet then map to_string (is_values (sv_intset s))
      else if sv_encoding s = ListPack then lp_toStrings (sv_listpack s)
      else map fst (dict_forEach (sv_table s)))"

text \<open>\<open>randomMember\<close>, on the draws of the generator from position \<open>n\<close> on.\<close>

definition sv_randomMember :: "(nat \<Rightarrow> 64 word) \<Rightarrow> nat \<Rightarrow> setvalue \<Rightarrow> bytes option \<times> nat" where
  "sv_randomMember rng n s =
     (if sv_size s = 0 then (None, n)
      else if sv_encoding s = HashTable then
        (case randomEntry rng n (sv_table s) of (entry, n') \<Rightarrow> (map_option fst entry, n'))
      else let all = sv_members s in (Some (all ! (unat (rng n) mod length all)), n + 1))"

definition sv_copy :: "setvalue \<Rightarrow> setvalue" where
  "sv_copy other = fold (\<lambda>m s. snd (sv_add m s)) (sv_members other) sv_new"

section \<open>The set it stands for\<close>

definition sv_elems :: "setvalue \<Rightarrow> bytes set" where
  "sv_elems s = set (sv_members s)"

definition sv_invar :: "setvalue \<Rightarrow> bool" where
  "sv_invar s \<longleftrightarrow> dict_invar (sv_table s) \<and>
     (if sv_encoding s = IntSet then
        intset_invar (sv_intset s) \<and> sv_listpack s = lp_new \<and> dict_lookup (sv_table s) = Map.empty
      else if sv_encoding s = ListPack then
        (\<exists>vs. lp_strs (sv_listpack s) vs \<and> distinct vs) \<and> dict_lookup (sv_table s) = Map.empty
      else sv_encoding s = HashTable)"

lemma sv_invar_new: "sv_invar sv_new" "sv_elems sv_new = {}"
  using intset_invar_new dict_invar_new dict_lookup_new
  by (simp_all add: sv_invar_def sv_new_def sv_elems_def sv_members_def) (simp add: intset_new_def)

lemma sv_int:
  assumes "sv_invar s" and "sv_encoding s = IntSet"
  shows "intset_invar (sv_intset s)" "sv_listpack s = lp_new" "dict_lookup (sv_table s) = Map.empty"
    "dict_invar (sv_table s)" "sv_members s = map to_string (is_values (sv_intset s))"
    "sv_elems s = to_string ` set (is_values (sv_intset s))"
  using assms by (simp_all add: sv_invar_def sv_members_def sv_elems_def del: lp_new_rep)

lemma sv_lp:
  assumes "sv_invar s" and "sv_encoding s = ListPack"
  obtains vs where "lp_strs (sv_listpack s) vs" "distinct vs" "dict_lookup (sv_table s) = Map.empty"
    "dict_invar (sv_table s)" "sv_members s = vs" "sv_elems s = set vs"
  using assms by (auto simp: sv_invar_def sv_members_def sv_elems_def lp_rep_toStrings)

lemma sv_ht:
  assumes "sv_invar s" and "sv_encoding s \<noteq> IntSet" and "sv_encoding s \<noteq> ListPack"
  shows "sv_encoding s = HashTable" "dict_invar (sv_table s)" "sv_elems s = dom (dict_lookup (sv_table s))"
    "sv_members s = map fst (dict_forEach (sv_table s))"
  using assms by (auto simp: sv_invar_def sv_members_def sv_elems_def dict_lookup_def dom_map_of_conv_image_fst)

lemma sv_intI:
  "sv_encoding s = IntSet \<Longrightarrow> intset_invar (sv_intset s) \<Longrightarrow> sv_listpack s = lp_new \<Longrightarrow>
   dict_invar (sv_table s) \<Longrightarrow> dict_lookup (sv_table s) = Map.empty \<Longrightarrow>
   sv_invar s \<and> sv_elems s = to_string ` set (is_values (sv_intset s))"
  by (simp add: sv_invar_def sv_members_def sv_elems_def del: lp_new_rep)

lemma sv_lpI:
  "sv_encoding s = ListPack \<Longrightarrow> lp_strs (sv_listpack s) vs \<Longrightarrow> distinct vs \<Longrightarrow>
   dict_invar (sv_table s) \<Longrightarrow> dict_lookup (sv_table s) = Map.empty \<Longrightarrow> sv_invar s \<and> sv_elems s = set vs"
  by (auto simp: sv_invar_def sv_members_def sv_elems_def lp_rep_toStrings)

lemma sv_htI:
  "sv_encoding s = HashTable \<Longrightarrow> dict_invar (sv_table s) \<Longrightarrow>
   sv_invar s \<and> sv_elems s = dom (dict_lookup (sv_table s))"
  by (simp add: sv_invar_def sv_members_def sv_elems_def dict_lookup_def dom_map_of_conv_image_fst)

text \<open>Integers and their decimal spellings.\<close>

lemma to_string_mem:
  assumes "intset_invar i"
  shows "m \<in> to_string ` set (is_values i) \<longleftrightarrow> (\<exists>n. stringToInt64 m = Some n \<and> n \<in> set (is_values i))"
proof -
  have "is_int64 n" if "n \<in> set (is_values i)" for n using assms that by (simp add: intset_invar_def)
  then show ?thesis by (auto simp: stringToInt64_complete dest: stringToInt64_to_string)
qed

section \<open>Conversions\<close>

lemma appendIntegers_rep:
  "lp_rep b es \<Longrightarrow> \<forall>n \<in> set ns. is_int64 n \<Longrightarrow> lp_rep (fold lp_appendInteger ns b) (es @ map LpInt ns)"
proof (induction ns arbitrary: b es)
  case (Cons n ns)
  from Cons.IH [of "lp_appendInteger n b" "es @ [LpInt n]"] Cons.prems show ?case
    by (simp add: lp_rep_appendInteger)
qed simp

lemma elem_of_to_string: "is_int64 n \<Longrightarrow> elem_of (to_string n) = LpInt n"
  by (simp add: elem_of_def stringToInt64_complete)

lemma to_string_distinct: "distinct ns \<Longrightarrow> distinct (map to_string ns)"
  by (simp add: distinct_map inj_on_def) (metis to_string_inj)

lemma intset_distinct: "intset_invar i \<Longrightarrow> distinct (map to_string (is_values i))"
  by (rule to_string_distinct) (simp add: intset_invar_def strict_sorted_iff)

lemma sv_convertToListpack_props:
  assumes "sv_invar s" and "sv_encoding s = IntSet"
  shows "sv_invar (sv_convertToListpack s) \<and> sv_encoding (sv_convertToListpack s) = ListPack \<and>
    sv_elems (sv_convertToListpack s) = sv_elems s"
proof -
  note i = sv_int [OF assms]
  let ?ns = "is_values (sv_intset s)" and ?s = "sv_convertToListpack s"
  have n: "\<forall>n \<in> set ?ns. is_int64 n" using i(1) by (simp add: intset_invar_def)
  have "lp_rep (fold lp_appendInteger ?ns lp_new) ([] @ map LpInt ?ns)"
    using lp_rep_new n by (rule appendIntegers_rep)
  moreover have "map LpInt ?ns = map elem_of (map to_string ?ns)"
    using n by (simp add: elem_of_to_string)
  ultimately have r: "lp_strs (fold lp_appendInteger ?ns lp_new) (map to_string ?ns)" by simp
  have f: "sv_listpack ?s = fold lp_appendInteger ?ns lp_new" "sv_encoding ?s = ListPack" "sv_table ?s = sv_table s"
    using assms(2) i(2) by (simp_all add: sv_convertToListpack_def del: lp_new_rep)
  show ?thesis
    using sv_lpI [OF f(2), of "map to_string ?ns"] r f i intset_distinct [OF i(1)] by simp
qed

lemma insertMembers_props:
  assumes "dict_invar t" and "dict_lookup t = Map.empty" and "distinct ms"
  shows "dict_invar (insertMembers ms t) \<and> dom (dict_lookup (insertMembers ms t)) = set ms"
proof -
  let ?ps = "map (\<lambda>m. (m, True)) ms"
  have "insertMembers ms t = fold (\<lambda>(k, v) t. snd (dict_insert k v t)) ?ps t"
    by (simp add: insertMembers_def fold_map comp_def)
  moreover have "distinct (map fst ?ps)" using assms(3) by (simp add: comp_def)
  moreover have "dom (map_of ?ps) = set ms" by (force simp: dom_map_of_conv_image_fst)
  ultimately show ?thesis using dict.insert_all [OF assms(1), of ?ps] assms(2) by simp
qed

lemma sv_convertToHashTable_props:
  assumes "sv_invar s"
  shows "sv_invar (sv_convertToHashTable s) \<and> sv_encoding (sv_convertToHashTable s) = HashTable \<and>
    sv_elems (sv_convertToHashTable s) = sv_elems s"
proof -
  let ?s = "sv_convertToHashTable s"
  consider "sv_encoding s = IntSet" | "sv_encoding s = ListPack" | "sv_encoding s \<noteq> IntSet" "sv_encoding s \<noteq> ListPack"
    by blast
  then show ?thesis
  proof cases
    case 1
    note i = sv_int [OF assms 1]
    have f: "sv_encoding ?s = HashTable" "sv_table ?s = insertMembers (map to_string (is_values (sv_intset s))) (sv_table s)"
      using 1 by (simp_all add: sv_convertToHashTable_def Let_def)
    from insertMembers_props [OF i(4,3) intset_distinct [OF i(1)]] sv_htI [OF f(1)] f i show ?thesis by simp
  next
    case 2
    with assms obtain vs where l: "lp_strs (sv_listpack s) vs" "distinct vs" "dict_lookup (sv_table s) = Map.empty"
      "dict_invar (sv_table s)" "sv_elems s = set vs" by (rule sv_lp)
    have f: "sv_encoding ?s = HashTable" "sv_table ?s = insertMembers vs (sv_table s)"
      using 2 l(1) by (simp_all add: sv_convertToHashTable_def Let_def lp_rep_toStrings)
    from insertMembers_props [OF l(4,3,2)] sv_htI [OF f(1)] f l show ?thesis by simp
  next
    case 3
    with sv_ht [OF assms 3] assms show ?thesis by (simp add: sv_convertToHashTable_def)
  qed
qed

section \<open>Operations\<close>

lemma sv_contains_props:
  assumes "sv_invar s" and "sv_contains m s = (found, s')"
  shows "found = (m \<in> sv_elems s) \<and> sv_invar s' \<and> sv_elems s' = sv_elems s"
proof -
  consider "sv_encoding s = IntSet" | "sv_encoding s = ListPack" | "sv_encoding s \<noteq> IntSet" "sv_encoding s \<noteq> ListPack"
    by blast
  then show ?thesis
  proof cases
    case 1
    note i = sv_int [OF assms(1) 1]
    have e: "m \<in> sv_elems s \<longleftrightarrow> (\<exists>n. stringToInt64 m = Some n \<and> n \<in> set (is_values (sv_intset s)))"
      using to_string_mem [OF i(1), of m] i(6) by simp
    from assms(2) 1 is_contains_correct [OF i(1)] have "s' = s \<and> found = (m \<in> sv_elems s)"
      unfolding e by (cases "stringToInt64 m") (auto simp: sv_contains_def)
    with assms(1) show ?thesis by simp
  next
    case 2
    with assms(1) obtain vs where l: "lp_strs (sv_listpack s) vs" "sv_elems s = set vs" by (rule sv_lp)
    from assms(2) 2 have "found = (lp_find (sv_listpack s) m 0 1 \<noteq> None)" "s' = s"
      by (auto simp: sv_contains_def)
    with assms(1) l(2) lps.find_plain_None [OF l(1), of m] show ?thesis by simp
  next
    case 3
    note t = sv_ht [OF assms(1) 3]
    obtain r d where f: "dict_find m (sv_table s) = (r, d)" by (cases "dict_find m (sv_table s)")
    then have "found = (r \<noteq> None)" "s' = s\<lparr>sv_table := d\<rparr>" using t(1) assms(2) by (simp_all add: sv_contains_def)
    with dict.find [OF t(2) f] sv_htI [of s'] t show ?thesis by auto
  qed
qed

lemma sv_addTable_props:
  assumes "sv_invar s" and "sv_encoding s = HashTable" and "sv_addTable m s = (new, s')"
  shows "new = (m \<notin> sv_elems s) \<and> sv_invar s' \<and> sv_elems s' = insert m (sv_elems s)"
proof -
  have t: "dict_invar (sv_table s)" "sv_elems s = dom (dict_lookup (sv_table s))"
    using sv_ht [OF assms(1)] assms(2) by simp_all
  obtain r d where f: "dict_find m (sv_table s) = (r, d)" by (cases "dict_find m (sv_table s)")
  note d = dict.find [OF t(1) f]
  show ?thesis
  proof (cases r)
    case None
    then have s': "new" "s' = s\<lparr>sv_table := snd (dict_insert m True d)\<rparr>"
      using assms(3) f by (auto simp: sv_addTable_def)
    have "dict_invar (sv_table s') \<and> dict_lookup (sv_table s') = (dict_lookup (sv_table s))(m \<mapsto> True)"
      using dict.snd_insert [of d m True] d by (simp add: s')
    with sv_htI [of s'] s' assms(2) t d None show ?thesis by auto
  next
    case (Some b)
    then have "\<not> new" "s' = s\<lparr>sv_table := d\<rparr>" using assms(3) f by (auto simp: sv_addTable_def)
    with sv_htI [of s'] assms(2) t d Some show ?thesis by auto
  qed
qed

lemma sv_addListpack_props:
  assumes "sv_invar s" and "sv_encoding s \<noteq> IntSet"
  shows "case sv_addListpack m s of
      Inl (new, s') \<Rightarrow> new = (m \<notin> sv_elems s) \<and> sv_invar s' \<and> sv_elems s' = insert m (sv_elems s)
    | Inr s' \<Rightarrow> sv_invar s' \<and> sv_encoding s' = HashTable \<and> sv_elems s' = sv_elems s"
proof (cases "sv_encoding s = ListPack")
  case False
  with assms sv_ht [OF assms(1)] show ?thesis by (simp add: sv_addListpack_def)
next
  case True
  with assms(1) obtain vs where l: "lp_strs (sv_listpack s) vs" "distinct vs" "dict_lookup (sv_table s) = Map.empty"
    "dict_invar (sv_table s)" "sv_elems s = set vs" by (rule sv_lp)
  note f = lps.find_plain_None [OF l(1), of m]
  consider "m \<in> set vs" | "m \<notin> set vs" "lp_numElements (sv_listpack s) \<ge> 128 \<or> length m > 64"
    | "m \<notin> set vs" "\<not> (lp_numElements (sv_listpack s) \<ge> 128 \<or> length m > 64)" by blast
  then show ?thesis
  proof cases
    case 1
    with True f assms(1) l(5) show ?thesis by (auto simp: sv_addListpack_def)
  next
    case 2
    with True f sv_convertToHashTable_props [OF assms(1)] show ?thesis
      by (simp add: sv_addListpack_def defaultLimits_def)
  next
    case 3
    let ?s = "s\<lparr>sv_listpack := lp_append m (sv_listpack s)\<rparr>"
    have "lp_strs (sv_listpack ?s) (vs @ [m])" using lps.rep_append [OF l(1), of m] 3(2) by simp
    with sv_lpI [of ?s "vs @ [m]"] True l 3(1) have "sv_invar ?s \<and> sv_elems ?s = insert m (set vs)" by simp
    with True f 3 l(5) show ?thesis by (simp add: sv_addListpack_def defaultLimits_def)
  qed
qed

lemma sv_addIntset_props:
  assumes "sv_invar s"
  shows "case sv_addIntset m s of
      Inl (new, s') \<Rightarrow> new = (m \<notin> sv_elems s) \<and> sv_invar s' \<and> sv_elems s' = insert m (sv_elems s)
    | Inr s' \<Rightarrow> sv_invar s' \<and> sv_encoding s' \<noteq> IntSet \<and> sv_elems s' = sv_elems s"
proof (cases "sv_encoding s = IntSet")
  case False
  with assms show ?thesis by (simp add: sv_addIntset_def)
next
  case True
  note i = sv_int [OF assms True] and c = sv_convertToListpack_props [OF assms True] sv_convertToHashTable_props [OF assms]
  show ?thesis
  proof (cases "stringToInt64 m")
    case None
    with True c show ?thesis by (simp add: sv_addIntset_def)
  next
    case (Some n)
    have n: "is_int64 n" "to_string n = m"
      using Some stringToInt64_range stringToInt64_to_string by blast+
    have m: "m \<in> sv_elems s \<longleftrightarrow> n \<in> set (is_values (sv_intset s))"
      using to_string_mem [OF i(1), of m] Some i(6) by simp
    note ct = is_contains_correct [OF i(1), of n]
    show ?thesis
    proof (cases "n \<in> set (is_values (sv_intset s)) \<or> \<not> is_size (sv_intset s) < set_max_intset_entries defaultLimits")
      case True
      with \<open>sv_encoding s = IntSet\<close> Some ct m c assms show ?thesis by (auto simp: sv_addIntset_def)
    next
      case False
      obtain added i' where a: "is_add n (sv_intset s) = (added, i')" by (cases "is_add n (sv_intset s)")
      note p = ints.add [OF i(1) n(1) a]
      let ?s = "s\<lparr>sv_intset := i'\<rparr>"
      have "sv_invar ?s \<and> sv_elems ?s = to_string ` set (is_values i')"
        using sv_intI [of ?s] True i p by simp
      moreover have "sv_addIntset m s = Inl (added, ?s)"
        using True Some False ct a by (simp add: sv_addIntset_def)
      ultimately show ?thesis using p m False n(2) i(6) by simp
    qed
  qed
qed

lemma sv_add_props:
  assumes "sv_invar s" and "sv_add m s = (new, s')"
  shows "new = (m \<notin> sv_elems s) \<and> sv_invar s' \<and> sv_elems s' = insert m (sv_elems s)"
proof (cases "sv_addIntset m s")
  case (Inl r)
  with sv_addIntset_props [OF assms(1), of m] assms(2) show ?thesis by (simp add: sv_add_def)
next
  case (Inr s1)
  with sv_addIntset_props [OF assms(1), of m]
  have s1: "sv_invar s1" "sv_encoding s1 \<noteq> IntSet" "sv_elems s1 = sv_elems s" by simp_all
  show ?thesis
  proof (cases "sv_addListpack m s1")
    case (Inl r)
    with sv_addListpack_props [OF s1(1,2), of m] \<open>sv_addIntset m s = Inr s1\<close> assms(2) s1(3) show ?thesis
      by (simp add: sv_add_def)
  next
    case (Inr s2)
    with sv_addListpack_props [OF s1(1,2), of m] sv_addTable_props [of s2 m new s'] \<open>sv_addIntset m s = Inr s1\<close> assms(2) s1(3)
    show ?thesis by (simp add: sv_add_def)
  qed
qed

lemma sv_erase_props:
  assumes "sv_invar s" and "sv_erase m s = (found, s')"
  shows "found = (m \<in> sv_elems s) \<and> sv_invar s' \<and> sv_elems s' = sv_elems s - {m}"
proof -
  consider "sv_encoding s = IntSet" | "sv_encoding s = ListPack" | "sv_encoding s \<noteq> IntSet" "sv_encoding s \<noteq> ListPack"
    by blast
  then show ?thesis
  proof cases
    case 1
    note i = sv_int [OF assms(1) 1]
    have e: "m \<in> sv_elems s \<longleftrightarrow> (\<exists>n. stringToInt64 m = Some n \<and> n \<in> set (is_values (sv_intset s)))"
      using to_string_mem [OF i(1), of m] i(6) by simp
    show ?thesis
    proof (cases "stringToInt64 m")
      case None
      with e assms 1 show ?thesis by (simp add: sv_erase_def)
    next
      case (Some n)
      have n: "is_int64 n" "to_string n = m"
        using Some stringToInt64_range stringToInt64_to_string by blast+
      obtain removed i' where r: "is_remove n (sv_intset s) = (removed, i')" by (cases "is_remove n (sv_intset s)")
      note p = ints.remove [OF i(1) n(1) r]
      have s': "found = removed" "s' = s\<lparr>sv_intset := i'\<rparr>" using assms(2) 1 Some r by (simp_all add: sv_erase_def)
      have "sv_invar s' \<and> sv_elems s' = to_string ` set (is_values i')"
        using sv_intI [of s'] 1 i p s' by simp
      moreover have "to_string ` (set (is_values (sv_intset s)) - {n}) = to_string ` set (is_values (sv_intset s)) - {m}"
        using n(2) to_string_inj by auto
      ultimately show ?thesis using p e s' Some i(6) by simp
    qed
  next
    case 2
    with assms(1) obtain vs where l: "lp_strs (sv_listpack s) vs" "distinct vs" "dict_lookup (sv_table s) = Map.empty"
      "dict_invar (sv_table s)" "sv_elems s = set vs" by (rule sv_lp)
    show ?thesis
    proof (cases "lp_find (sv_listpack s) m 0 1")
      case None
      with lps.find_plain_None [OF l(1), of m] assms 2 l(5) show ?thesis by (simp add: sv_erase_def)
    next
      case (Some j)
      note j = lps.find_plain_Some [OF l(1) Some]
      then obtain b where b: "lp_eraseRange j 1 (sv_listpack s) = (True, b)" "lp_strs b (take j vs @ drop (j + 1) vs)"
        using lps.rep_erase [OF l(1), of j 1] by auto
      let ?w = "take j vs @ drop (j + 1) vs"
      have v: "vs = take j vs @ m # drop (Suc j) vs" using j by (metis id_take_nth_drop)
      then have "distinct (take j vs @ m # drop (Suc j) vs)" using l(2) by simp
      then have "distinct ?w" "set ?w = set (take j vs @ m # drop (Suc j) vs) - {m}" by auto
      then have w: "distinct ?w" "set ?w = set vs - {m}" using v by simp_all
      have s': "found" "s' = s\<lparr>sv_listpack := b\<rparr>"
        using assms(2) 2 Some b(1) by (simp_all add: sv_erase_def lp_eraseAt_def)
      from sv_lpI [of s' ?w] 2 b w l s' j show ?thesis by auto
    qed
  next
    case 3
    note t = sv_ht [OF assms(1) 3]
    obtain r d where f: "dict_erase m (sv_table s) = (r, d)" by (cases "dict_erase m (sv_table s)")
    then have "found = r" "s' = s\<lparr>sv_table := d\<rparr>" using t(1) assms(2) by (simp_all add: sv_erase_def)
    with dict.erase [OF t(2) f] sv_htI [of s'] t show ?thesis by auto
  qed
qed

lemma sv_members_distinct: "sv_invar s \<Longrightarrow> distinct (sv_members s)"
proof -
  assume i: "sv_invar s"
  consider "sv_encoding s = IntSet" | "sv_encoding s = ListPack" | "sv_encoding s \<noteq> IntSet" "sv_encoding s \<noteq> ListPack"
    by blast
  then show ?thesis
  proof cases
    case 1
    with sv_int [OF i 1] intset_distinct show ?thesis by simp
  next
    case 2
    with i obtain vs where "distinct vs" "sv_members s = vs" by (rule sv_lp)
    then show ?thesis by simp
  next
    case 3
    with sv_ht [OF i 3] dict_invarD(6) show ?thesis by simp
  qed
qed

lemma sv_size_members: "sv_invar s \<Longrightarrow> sv_size s = length (sv_members s)"
proof -
  assume i: "sv_invar s"
  consider "sv_encoding s = IntSet" | "sv_encoding s = ListPack" | "sv_encoding s \<noteq> IntSet" "sv_encoding s \<noteq> ListPack"
    by blast
  then show ?thesis
  proof cases
    case 1
    with sv_int [OF i 1] show ?thesis by (simp add: sv_size_def is_size_def)
  next
    case 2
    with i obtain vs where "lp_strs (sv_listpack s) vs" "sv_members s = vs" by (rule sv_lp)
    with 2 lps.rep_count show ?thesis by (simp add: sv_size_def)
  next
    case 3
    with sv_ht [OF i 3] dict_size_forEach show ?thesis by (simp add: sv_size_def)
  qed
qed

interpretation strs: set_impl sv_invar sv_elems "\<lambda>_. True" sv_contains sv_add sv_erase sv_size
proof
  fix s m b s'
  assume i: "sv_invar s"
  show "b = (m \<in> sv_elems s) \<and> sv_invar s' \<and> sv_elems s' = sv_elems s" if "sv_contains m s = (b, s')"
    using i that by (rule sv_contains_props)
  show "b = (m \<notin> sv_elems s) \<and> sv_invar s' \<and> sv_elems s' = insert m (sv_elems s)" if "sv_add m s = (b, s')"
    using i that by (rule sv_add_props)
  show "b = (m \<in> sv_elems s) \<and> sv_invar s' \<and> sv_elems s' = sv_elems s - {m}" if "sv_erase m s = (b, s')"
    using i that by (rule sv_erase_props)
next
  fix s
  assume "sv_invar s"
  with sv_members_distinct sv_size_members show "finite (sv_elems s) \<and> sv_size s = card (sv_elems s)"
    by (simp add: sv_elems_def distinct_card)
qed

section \<open>Properties\<close>

text \<open>C12: A set is a set of byte strings in all three of its encodings and across the conversions
  between them: membership, insertion and removal have set semantics with the right results, and
  the size and the listing agree with it.\<close>

theorem set_refines_set:
  assumes "sv_invar s" and "sv_contains m s = (found, s1)" and "sv_add m s = (new, s2)" and "sv_erase m s = (erased, s3)"
  shows "found = (m \<in> sv_elems s) \<and> sv_invar s1 \<and> sv_elems s1 = sv_elems s \<and>
    new = (m \<notin> sv_elems s) \<and> sv_invar s2 \<and> sv_elems s2 = insert m (sv_elems s) \<and>
    erased = (m \<in> sv_elems s) \<and> sv_invar s3 \<and> sv_elems s3 = sv_elems s - {m} \<and>
    sv_size s = card (sv_elems s) \<and> distinct (sv_members s)"
  using strs.contains [OF assms(1) TrueI assms(2)] strs.add [OF assms(1) TrueI assms(3)]
    strs.remove [OF assms(1) TrueI assms(4)] strs.size [OF assms(1)] sv_members_distinct [OF assms(1)] by blast

theorem set_refines_set_witness:
  "sv_elems (snd (sv_add (str ''x'') (snd (sv_add (str ''12'') sv_new)))) = {str ''x'', str ''12''}"
proof -
  let ?s = "snd (sv_add (str ''12'') sv_new)"
  obtain f1 s1 n s2 e s3 where e0: "sv_contains (str ''12'') sv_new = (f1, s1)"
      "sv_add (str ''12'') sv_new = (n, s2)" "sv_erase (str ''12'') sv_new = (e, s3)"
    by (meson surj_pair)
  note a = set_refines_set [OF sv_invar_new(1) e0]
  obtain f1' s1' n' s2' e' s3' where e1: "sv_contains (str ''x'') s2 = (f1', s1')"
      "sv_add (str ''x'') s2 = (n', s2')" "sv_erase (str ''x'') s2 = (e', s3')"
    by (meson surj_pair)
  from set_refines_set [OF _ e1] a show ?thesis by (simp add: e0 [simplified] e1 [simplified] sv_invar_new(2))
qed

text \<open>Adding a list of members, the loop of \<open>SADD\<close>, yields the union and counts exactly the
  members that were not there before, duplicates in the list counted once.\<close>

lemma set_add_all:
  assumes "sv_invar s"
    and "fold (\<lambda>m (n, s). let (new, s') = sv_add m s in (if new then n + 1 else n, s')) ms (0, s) = (n, s')"
  shows "sv_invar s' \<and> sv_elems s' = sv_elems s \<union> set ms \<and> n = card (set ms - sv_elems s)"
  using strs.add_all [OF assms(1), of ms 0 n s'] assms(2) by (simp add: list_all_iff)

end
