(* ===== verification/List_Value.thy ===== *)
theory List_Value
  imports Hash_Value
begin

text \<open>
  Model of \<open>ListValue\<close> of \<open>src/core/collections.h\<close> and \<open>collections.cpp\<close>: a quicklist, a vector of
  listpack nodes that holds one sequence. A node takes an element only while an estimate of its
  size stays within the byte budget, and the reported encoding follows from the nodes. Every
  operation is shown to be the list operation it stands for on the concatenated nodes.
\<close>

section \<open>The value\<close>

record listvalue =
  lv_encoding :: ObjEncoding
  lv_nodes :: "bytes list"

definition lv_new :: listvalue where
  "lv_new = \<lparr>lv_encoding = ListPack, lv_nodes = [lp_new]\<rparr>"

definition lv_size :: "listvalue \<Rightarrow> nat" where
  "lv_size l = sum_list (map lp_numElements (lv_nodes l))"

definition lv_maybeConvert :: "listvalue \<Rightarrow> listvalue" where
  "lv_maybeConvert l =
     l\<lparr>lv_encoding :=
        (if length (lv_nodes l) = 1 \<and> length (lv_nodes l ! 0) \<le> list_max_listpack_bytes defaultLimits
         then ListPack else QuickList)\<rparr>"

definition lv_adoptNodes :: "bytes list \<Rightarrow> listvalue \<Rightarrow> bool \<times> listvalue" where
  "lv_adoptNodes nodes l =
     (let total = sum_list (map lp_numElements nodes) in
      if total = 0 then (False, l)
      else (True, lv_maybeConvert (l\<lparr>lv_nodes := nodes\<rparr>)))"

definition wouldOverflowNode :: "bytes \<Rightarrow> bytes \<Rightarrow> bool" where
  "wouldOverflowNode node value =
     (let projected = length node + length value + 11 in
      lp_numElements node > 0 \<and> projected > list_max_listpack_bytes defaultLimits)"

text \<open>\<open>nodes_.back()\<close> with a fresh node behind it when it is full, then the append.\<close>

definition appendNode :: "bytes \<Rightarrow> bytes list \<Rightarrow> bytes list" where
  "appendNode value nodes =
     (let nodes1 = (if wouldOverflowNode (last nodes) value then nodes @ [lp_new] else nodes)
      in butlast nodes1 @ [lp_append value (last nodes1)])"

definition lv_pushBack :: "bytes \<Rightarrow> listvalue \<Rightarrow> listvalue" where
  "lv_pushBack value l = lv_maybeConvert (l\<lparr>lv_nodes := appendNode value (lv_nodes l)\<rparr>)"

definition lv_pushFront :: "bytes \<Rightarrow> listvalue \<Rightarrow> listvalue" where
  "lv_pushFront value l =
     (let nodes1 = (if wouldOverflowNode (hd (lv_nodes l)) value then lp_new # lv_nodes l else lv_nodes l)
      in lv_maybeConvert (l\<lparr>lv_nodes := snd (lp_insertAt 0 value (hd nodes1)) # tl nodes1\<rparr>))"

text \<open>
  The loop of the two pops over the nodes: empty nodes are skipped, and the node that gave its
  last element is dropped unless it is the only one. \<open>pick\<close> maps the count to the index taken.
\<close>

fun popLoop :: "(nat \<Rightarrow> nat) \<Rightarrow> bool \<Rightarrow> bytes list \<Rightarrow> bytes option \<times> bytes list" where
  "popLoop pick many [] = (None, [])"
| "popLoop pick many (node # rest) =
     (let cnt = lp_numElements node in
      if cnt = 0 then (case popLoop pick many rest of (r, rest') \<Rightarrow> (r, node # rest'))
      else case lp_get node (pick cnt) of
          None \<Rightarrow> (None, node # rest)
        | Some element \<Rightarrow>
            let node' = snd (lp_eraseAt (pick cnt) node) in
            (Some (lp_toString element),
             if lp_numElements node' = 0 \<and> many then rest else node' # rest))"

definition lv_popFront :: "listvalue \<Rightarrow> bytes option \<times> listvalue" where
  "lv_popFront l =
     (case popLoop (\<lambda>cnt. 0) (length (lv_nodes l) > 1) (lv_nodes l) of
        (None, nodes) \<Rightarrow> (None, l)
      | (Some value, nodes) \<Rightarrow> (Some value, lv_maybeConvert (l\<lparr>lv_nodes := nodes\<rparr>)))"

definition lv_popBack :: "listvalue \<Rightarrow> bytes option \<times> listvalue" where
  "lv_popBack l =
     (case popLoop (\<lambda>cnt. cnt - 1) (length (lv_nodes l) > 1) (rev (lv_nodes l)) of
        (None, nodes) \<Rightarrow> (None, l)
      | (Some value, nodes) \<Rightarrow> (Some value, lv_maybeConvert (l\<lparr>lv_nodes := rev nodes\<rparr>)))"

text \<open>\<open>npos\<close> is \<open>None\<close>.\<close>

definition lv_resolveIndex :: "int \<Rightarrow> listvalue \<Rightarrow> nat option" where
  "lv_resolveIndex index l =
     (let len = int (lv_size l);
          i = (if index < 0 then index + len else index)
      in if i < 0 \<or> i \<ge> len then None else Some (nat i))"

definition lv_toVector :: "listvalue \<Rightarrow> bytes list" where
  "lv_toVector l = concat (map (\<lambda>node. map lp_toString (lp_forEach node)) (lv_nodes l))"

definition lv_rebuildFrom :: "bytes list \<Rightarrow> listvalue \<Rightarrow> listvalue" where
  "lv_rebuildFrom items l = lv_maybeConvert (l\<lparr>lv_nodes := fold appendNode items [lp_new]\<rparr>)"

fun atLoop :: "nat \<Rightarrow> bytes list \<Rightarrow> bytes option" where
  "atLoop remaining [] = None"
| "atLoop remaining (node # rest) =
     (let cnt = lp_numElements node in
      if remaining < cnt then map_option lp_toString (lp_get node remaining)
      else atLoop (remaining - cnt) rest)"

definition lv_at :: "int \<Rightarrow> listvalue \<Rightarrow> bytes option" where
  "lv_at index l =
     (case lv_resolveIndex index l of None \<Rightarrow> None | Some resolved \<Rightarrow> atLoop resolved (lv_nodes l))"

fun setLoop :: "nat \<Rightarrow> bytes \<Rightarrow> bytes list \<Rightarrow> bool \<times> bytes list" where
  "setLoop remaining value [] = (False, [])"
| "setLoop remaining value (node # rest) =
     (let cnt = lp_numElements node in
      if remaining < cnt then
        (case lp_replaceAt remaining value node of (ok, node') \<Rightarrow> (ok, node' # rest))
      else case setLoop (remaining - cnt) value rest of (ok, rest') \<Rightarrow> (ok, node # rest'))"

definition lv_set :: "int \<Rightarrow> bytes \<Rightarrow> listvalue \<Rightarrow> bool \<times> listvalue" where
  "lv_set index value l =
     (case lv_resolveIndex index l of
        None \<Rightarrow> (False, l)
      | Some resolved \<Rightarrow>
          (case setLoop resolved value (lv_nodes l) of (ok, nodes) \<Rightarrow> (ok, l\<lparr>lv_nodes := nodes\<rparr>)))"

definition lv_range :: "int \<Rightarrow> int \<Rightarrow> listvalue \<Rightarrow> bytes list" where
  "lv_range start stop l =
     (let len = int (lv_size l) in
      if len = 0 then []
      else
        let start1 = (if start < 0 then start + len else start);
            stop1 = (if stop < 0 then stop + len else stop);
            start2 = (if start1 < 0 then 0 else start1);
            stop2 = (if stop1 \<ge> len then len - 1 else stop1)
        in if start2 > stop2 \<or> start2 \<ge> len then []
           else take (nat (stop2 + 1 - start2)) (drop (nat start2) (lv_toVector l)))"

fun indexOfLoop :: "bytes \<Rightarrow> nat \<Rightarrow> bytes list \<Rightarrow> nat option" where
  "indexOfLoop value index [] = None"
| "indexOfLoop value index (node # rest) =
     (case lp_find node value 0 1 of
        Some found \<Rightarrow> Some (index + found)
      | None \<Rightarrow> indexOfLoop value (index + lp_numElements node) rest)"

definition lv_indexOf :: "bytes \<Rightarrow> listvalue \<Rightarrow> nat option" where
  "lv_indexOf value l = indexOfLoop value 0 (lv_nodes l)"

text \<open>
  The erase loop of \<open>removeValue\<close> in its direction of travel; the second component counts what
  was removed. \<open>std::abs\<close> of the smallest 64-bit integer is undefined in C++; the model takes
  the mathematical value, which is what the wrapped result converts to.
\<close>

fun eraseLoop :: "bytes \<Rightarrow> nat \<Rightarrow> bytes list \<Rightarrow> bytes list \<times> nat" where
  "eraseLoop value 0 items = (items, 0)"
| "eraseLoop value (Suc left) [] = ([], 0)"
| "eraseLoop value (Suc left) (x # xs) =
     (if x = value then (case eraseLoop value left xs of (r, n) \<Rightarrow> (r, n + 1))
      else case eraseLoop value (Suc left) xs of (r, n) \<Rightarrow> (x # r, n))"

definition lv_removeValue :: "bytes \<Rightarrow> int \<Rightarrow> listvalue \<Rightarrow> nat \<times> listvalue" where
  "lv_removeValue value cnt l =
     (let items = lv_toVector l;
          limit = (if cnt = 0 then length items else nat \<bar>cnt\<bar>);
          (items', removed) =
            (if cnt \<ge> 0 then eraseLoop value limit items
             else case eraseLoop value limit (rev items) of (r, n) \<Rightarrow> (rev r, n))
      in (removed, if removed > 0 then lv_rebuildFrom items' l else l))"

definition lv_trim :: "int \<Rightarrow> int \<Rightarrow> listvalue \<Rightarrow> listvalue" where
  "lv_trim start stop l = lv_rebuildFrom (lv_range start stop l) l"

section \<open>The sequence it stands for\<close>

definition lv_rep :: "listvalue \<Rightarrow> bytes list \<Rightarrow> bool" where
  "lv_rep l xs \<longleftrightarrow> lv_nodes l \<noteq> [] \<and> (\<exists>xss. list_all2 lp_strs (lv_nodes l) xss \<and> xs = concat xss)"

text \<open>The encoding a list has to report: a listpack exactly while it is one node of at most 8192 bytes.\<close>

definition lv_encoded :: "listvalue \<Rightarrow> bool" where
  "lv_encoded l \<longleftrightarrow> lv_encoding l = (if length (lv_nodes l) = 1 \<and> length (lv_nodes l ! 0) \<le> 8192 then ListPack else QuickList)"

lemma lv_maybeConvert_simps [simp]:
  "lv_nodes (lv_maybeConvert l) = lv_nodes l" "lv_rep (lv_maybeConvert l) xs = lv_rep l xs"
  "lv_encoded (lv_maybeConvert l)"
  by (simp_all add: lv_maybeConvert_def lv_rep_def lv_encoded_def defaultLimits_def)

lemma lv_rep_nodes:
  assumes "lv_rep l xs"
  obtains xss where "lv_nodes l \<noteq> []" "list_all2 lp_strs (lv_nodes l) xss" "xs = concat xss"
  using assms by (auto simp: lv_rep_def)

lemma lv_repI: "lv_nodes l \<noteq> [] \<Longrightarrow> list_all2 lp_strs (lv_nodes l) xss \<Longrightarrow> concat xss = xs \<Longrightarrow> lv_rep l xs"
  by (auto simp: lv_rep_def)

lemma lp_toStrings_strs: "lp_strs node xs \<Longrightarrow> map lp_toString (lp_forEach node) = xs"
  using lp_rep_toStrings [of node xs] by (simp add: lp_toStrings_def)

lemma nodes_size: "list_all2 lp_strs nodes xss \<Longrightarrow> sum_list (map lp_numElements nodes) = length (concat xss)"
  by (induction rule: list_all2_induct) (simp_all add: lps.rep_count)

lemma nodes_vector:
  "list_all2 lp_strs nodes xss \<Longrightarrow> concat (map (\<lambda>node. map lp_toString (lp_forEach node)) nodes) = concat xss"
  by (induction rule: list_all2_induct) (simp_all add: lp_toStrings_strs)

lemma lv_size_rep: "lv_rep l xs \<Longrightarrow> lv_size l = length xs"
  by (auto simp: lv_rep_def lv_size_def nodes_size)

lemma lv_toVector_rep: "lv_rep l xs \<Longrightarrow> lv_toVector l = xs"
  by (auto simp: lv_rep_def lv_toVector_def nodes_vector)

lemma lv_rep_new: "lv_rep lv_new []"
  by (rule lv_repI [of _ "[[]]"]) (use lps.rep_new in \<open>simp_all add: lv_new_def del: lp_new_rep\<close>)

section \<open>Pushing\<close>

lemma nodes_snoc:
  assumes "list_all2 lp_strs nodes xss" and "nodes \<noteq> []"
  obtains ns n ys y where "nodes = ns @ [n]" "xss = ys @ [y]" "list_all2 lp_strs ns ys" "lp_strs n y"
proof -
  from assms(2) obtain ns n where n: "nodes = ns @ [n]" by (metis rev_exhaust)
  with assms(1) obtain ys y where "xss = ys @ [y]" "list_all2 lp_strs ns ys" "lp_strs n y"
    by (auto simp: list_all2_append1 list_all2_Cons1)
  with n that show thesis by blast
qed

lemma appendNode_rep:
  assumes "list_all2 lp_strs nodes xss" and "nodes \<noteq> []" and "lp_fits v"
  shows "\<exists>yss. list_all2 lp_strs (appendNode v nodes) yss \<and> concat yss = concat xss @ [v] \<and> appendNode v nodes \<noteq> []"
proof -
  obtain ns n ys y where n: "nodes = ns @ [n]" "xss = ys @ [y]" "list_all2 lp_strs ns ys" "lp_strs n y"
    using assms(1,2) by (rule nodes_snoc)
  show ?thesis
  proof (cases "wouldOverflowNode (last nodes) v")
    case True
    then have "appendNode v nodes = nodes @ [lp_append v lp_new]" by (simp add: appendNode_def Let_def del: lp_new_rep)
    moreover have "lp_strs (lp_append v lp_new) [v]" using lps.rep_append [OF lps.rep_new assms(3)] by simp
    ultimately have "list_all2 lp_strs (appendNode v nodes) (xss @ [[v]])"
      using assms(1) by (simp add: list_all2_appendI)
    with \<open>appendNode v nodes = _\<close> show ?thesis by (intro exI [of _ "xss @ [[v]]"]) simp
  next
    case False
    then have e: "appendNode v nodes = ns @ [lp_append v n]" by (simp add: appendNode_def n)
    have "lp_strs (lp_append v n) (y @ [v])" using lps.rep_append [OF n(4) assms(3)] .
    with n e show ?thesis by (intro exI [of _ "ys @ [y @ [v]]"]) (simp add: list_all2_appendI)
  qed
qed

lemma lv_pushBack_rep:
  assumes "lv_rep l xs" and "lp_fits v"
  shows "lv_rep (lv_pushBack v l) (xs @ [v]) \<and> lv_encoded (lv_pushBack v l)"
proof -
  obtain xss where x: "lv_nodes l \<noteq> []" "list_all2 lp_strs (lv_nodes l) xss" "xs = concat xss"
    using assms(1) by (rule lv_rep_nodes)
  with appendNode_rep [OF x(2,1) assms(2)] show ?thesis by (auto simp: lv_pushBack_def lv_rep_def)
qed

lemma lv_pushFront_rep:
  assumes "lv_rep l xs" and "lp_fits v"
  shows "lv_rep (lv_pushFront v l) (v # xs) \<and> lv_encoded (lv_pushFront v l)"
proof -
  obtain xss where x: "lv_nodes l \<noteq> []" "list_all2 lp_strs (lv_nodes l) xss" "xs = concat xss"
    using assms(1) by (rule lv_rep_nodes)
  define nodes1 where "nodes1 = (if wouldOverflowNode (hd (lv_nodes l)) v then lp_new # lv_nodes l else lv_nodes l)"
  obtain yss where y: "list_all2 lp_strs nodes1 yss" "concat yss = xs" "nodes1 \<noteq> []"
  proof (cases "wouldOverflowNode (hd (lv_nodes l)) v")
    case True
    with x lps.rep_new that [of "[] # xss"] show ?thesis by (simp add: nodes1_def del: lp_new_rep)
  next
    case False
    with x that [of xss] show ?thesis by (simp add: nodes1_def)
  qed
  then obtain n ns z zs where n: "nodes1 = n # ns" "yss = z # zs" "lp_strs n z" "list_all2 lp_strs ns zs"
    by (auto simp: neq_Nil_conv list_all2_Cons1)
  obtain b where "lp_insertAt 0 v n = (True, b)" "lp_strs b (v # z)"
    using lps.rep_insert [OF n(3) _ assms(2), of 0] by auto
  then have "lv_nodes (lv_pushFront v l) = b # ns" "list_all2 lp_strs (b # ns) ((v # z) # zs)"
    using n by (simp_all add: lv_pushFront_def nodes1_def [symmetric] Let_def)
  then have "lv_rep (lv_pushFront v l) (v # xs)" using y n by (intro lv_repI [of _ "(v # z) # zs"]) simp_all
  then show ?thesis by (simp add: lv_pushFront_def Let_def)
qed

section \<open>Popping\<close>

lemma lp_erase_one:
  assumes "lp_strs n xs" and "i < length xs"
  shows "lp_strs (snd (lp_eraseAt i n)) (take i xs @ drop (i + 1) xs)"
  using lps.rep_erase [OF assms(1,2), of 1] assms(2) by (auto simp: lp_eraseAt_def)

lemma lp_get_strs: "lp_strs n xs \<Longrightarrow> i < length xs \<Longrightarrow> \<exists>e. lp_get n i = Some e \<and> lp_toString e = xs ! i"
  using lps.rep_get [of n xs i] by auto

lemma popLoop_skip:
  "list_all2 lp_strs pre xss \<Longrightarrow> concat xss = [] \<Longrightarrow>
   popLoop pick many (pre @ rest) = (case popLoop pick many rest of (r, rest') \<Rightarrow> (r, pre @ rest'))"
proof (induction rule: list_all2_induct)
  case (Cons n ns x xs)
  from Cons.prems have "x = []" "concat xs = []" by simp_all
  with lps.rep_count [OF Cons.hyps(1)] Cons.IH show ?case by (simp split: prod.splits)
qed simp

lemma popLoop_hit:
  assumes "lp_strs n x" and "pick (length x) < length x"
  shows "\<exists>n'. lp_strs n' (take (pick (length x)) x @ drop (pick (length x) + 1) x) \<and>
    popLoop pick many (n # ns) = (Some (x ! pick (length x)), if length x = 1 \<and> many then ns else n' # ns)"
proof -
  let ?n = "snd (lp_eraseAt (pick (length x)) n)" and ?x = "take (pick (length x)) x @ drop (pick (length x) + 1) x"
  obtain e where e: "lp_get n (pick (length x)) = Some e" "lp_toString e = x ! pick (length x)"
    using lp_get_strs [OF assms] by blast
  note r = lp_erase_one [OF assms]
  have "lp_numElements ?n = 0 \<longleftrightarrow> length x = 1" using lps.rep_count [OF r] assms(2) by auto
  moreover have "lp_numElements n = length x" "length x \<noteq> 0" using lps.rep_count [OF assms(1)] assms(2) by auto
  ultimately show ?thesis using r e by (intro exI [of _ ?n]) (simp add: Let_def)
qed

text \<open>One statement for both ends: the loop takes from the first node that has an element.\<close>

lemma popLoop_rep:
  assumes "list_all2 lp_strs nodes xss" and "concat xss \<noteq> []" and "\<And>n. 0 < n \<Longrightarrow> pick n < n"
  obtains pre x post nodes' yss where "xss = pre @ x # post" "concat pre = []" "x \<noteq> []"
    "popLoop pick (length nodes > 1) nodes = (Some (x ! pick (length x)), nodes')" "nodes' \<noteq> []"
    "list_all2 lp_strs nodes' (pre @ yss @ post)"
    "concat yss = take (pick (length x)) x @ drop (pick (length x) + 1) x" "concat (rev yss) = concat yss"
proof -
  from assms(2) have "\<exists>x \<in> set xss. x \<noteq> []" by auto
  then obtain pre x post where x: "xss = pre @ x # post" "x \<noteq> []" "\<forall>y \<in> set pre. y = []"
    using split_list_first_prop [of xss "\<lambda>x. x \<noteq> []"] by auto
  with assms(1) obtain npre n npost where n: "nodes = npre @ n # npost" "list_all2 lp_strs npre pre"
      "lp_strs n x" "list_all2 lp_strs npost post"
    by (auto simp: list_all2_append2 list_all2_Cons2)
  let ?x = "take (pick (length x)) x @ drop (pick (length x) + 1) x" and ?many = "length nodes > 1"
  have k: "pick (length x) < length x" using x(2) by (simp add: assms(3))
  obtain n' where n': "lp_strs n' ?x"
    "popLoop pick ?many (n # npost) = (Some (x ! pick (length x)), if length x = 1 \<and> ?many then npost else n' # npost)"
    using popLoop_hit [of n x pick ?many npost, OF n(3) k] by blast
  have c: "concat pre = []" using x(3) by simp
  have p: "popLoop pick ?many nodes =
      (Some (x ! pick (length x)), npre @ (if length x = 1 \<and> ?many then npost else n' # npost))"
    using popLoop_skip [OF n(2) c, of pick ?many "n # npost"] n'(2) n(1) by simp
  show thesis
  proof (cases "length x = 1 \<and> ?many")
    case True
    then have "?x = []" using k by auto
    with True p n x c that [of pre x post "npre @ npost" "[]"] show ?thesis by (simp add: list_all2_appendI)
  next
    case False
    with p n n' x c that [of pre x post "npre @ n' # npost" "[?x]"] show ?thesis by (simp add: list_all2_appendI)
  qed
qed

lemma popLoop_empty:
  assumes "list_all2 lp_strs nodes xss" and "concat xss = []"
  shows "popLoop pick many nodes = (None, nodes)"
  using popLoop_skip [OF assms, of pick many "[]"] by simp

lemma lv_popFront_rep:
  assumes "lv_rep l xs"
  shows "case xs of [] \<Rightarrow> lv_popFront l = (None, l)
    | x # rest \<Rightarrow> \<exists>l'. lv_popFront l = (Some x, l') \<and> lv_rep l' rest \<and> lv_encoded l'"
proof -
  obtain xss where x: "lv_nodes l \<noteq> []" "list_all2 lp_strs (lv_nodes l) xss" "xs = concat xss"
    using assms by (rule lv_rep_nodes)
  show ?thesis
  proof (cases "xs = []")
    case True
    with x popLoop_empty [OF x(2)] show ?thesis by (simp add: lv_popFront_def)
  next
    case False
    with x(3) have "concat xss \<noteq> []" by simp
    with x(2) obtain pre y post nodes' yss where p: "xss = pre @ y # post" "concat pre = []" "y \<noteq> []"
      "popLoop (\<lambda>cnt. 0) (length (lv_nodes l) > 1) (lv_nodes l) = (Some (y ! 0), nodes')" "nodes' \<noteq> []"
      "list_all2 lp_strs nodes' (pre @ yss @ post)" "concat yss = take 0 y @ drop (0 + 1) y"
      by (rule popLoop_rep [where pick = "\<lambda>cnt. 0"]) (simp, assumption)
    obtain z zs where z: "y = z # zs" using p(3) by (cases y) auto
    have "lv_rep (l\<lparr>lv_nodes := nodes'\<rparr>) (zs @ concat post)"
      using p z by (intro lv_repI [of _ "pre @ yss @ post"]) simp_all
    moreover have "xs = z # zs @ concat post" using x(3) p(1,2) z by (simp only: concat_append concat.simps append.simps)
    ultimately show ?thesis using p(4) z by (simp add: lv_popFront_def)
  qed
qed

lemma lv_popBack_rep:
  assumes "lv_rep l xs"
  shows "if xs = [] then lv_popBack l = (None, l)
    else \<exists>l'. lv_popBack l = (Some (last xs), l') \<and> lv_rep l' (butlast xs) \<and> lv_encoded l'"
proof -
  obtain xss where x: "lv_nodes l \<noteq> []" "list_all2 lp_strs (lv_nodes l) xss" "xs = concat xss"
    using assms by (rule lv_rep_nodes)
  then have r: "list_all2 lp_strs (rev (lv_nodes l)) (rev xss)" by simp
  show ?thesis
  proof (cases "xs = []")
    case True
    with x popLoop_empty [OF r] show ?thesis by (simp add: lv_popBack_def)
  next
    case False
    with x(3) have "concat (rev xss) \<noteq> []" by simp
    with r obtain pre y post nodes' yss where p: "rev xss = pre @ y # post" "concat pre = []" "y \<noteq> []"
      "popLoop (\<lambda>cnt. cnt - 1) (length (rev (lv_nodes l)) > 1) (rev (lv_nodes l)) = (Some (y ! (length y - 1)), nodes')"
      "nodes' \<noteq> []" "list_all2 lp_strs nodes' (pre @ yss @ post)"
      "concat yss = take (length y - 1) y @ drop (length y - 1 + 1) y" "concat (rev yss) = concat yss"
      by (rule popLoop_rep [where pick = "\<lambda>cnt. cnt - 1"]) (simp, assumption)
    have "xss = rev post @ y # rev pre" using p(1) by (metis append.assoc append_Cons append_Nil rev_append rev_rev_ident rev.simps(2))
    then have e: "xs = concat (rev post) @ y" using p(2) x(3) by simp
    have "concat yss = butlast y" using p(3,7) by (simp add: butlast_conv_take)
    moreover have "list_all2 lp_strs (rev nodes') (rev (pre @ yss @ post))" using p(6) by (simp only: list_all2_rev)
    moreover have "concat (rev pre) = []" using p(2) by simp
    ultimately have "lv_rep (l\<lparr>lv_nodes := rev nodes'\<rparr>) (butlast xs)"
      using p(3,5,8) by (intro lv_repI [of _ "rev (pre @ yss @ post)"]) (simp_all add: e butlast_append)
    with p e False show ?thesis by (simp add: lv_popBack_def last_conv_nth [OF p(3)])
  qed
qed

section \<open>Access by index\<close>

text \<open>A negative index counts from the end.\<close>

definition from_end :: "int \<Rightarrow> nat \<Rightarrow> int" where
  "from_end i n = (if i < 0 then i + int n else i)"

lemma lv_resolveIndex_rep:
  "lv_rep l xs \<Longrightarrow> lv_resolveIndex i l =
   (let k = from_end i (length xs) in if 0 \<le> k \<and> k < int (length xs) then Some (nat k) else None)"
  by (auto simp: lv_resolveIndex_def lv_size_rep from_end_def Let_def)

lemma atLoop_rep:
  "list_all2 lp_strs nodes xss \<Longrightarrow>
   atLoop i nodes = (if i < length (concat xss) then Some (concat xss ! i) else None)"
proof (induction arbitrary: i rule: list_all2_induct)
  case (Cons n ns x xs)
  note c = lps.rep_count [OF Cons.hyps(1)] and g = lps.rep_get [OF Cons.hyps(1), of i]
  show ?case
  proof (cases "i < length x")
    case True
    with c g show ?thesis by (simp add: nth_append)
  next
    case False
    then have "i < length x + length (concat xs) \<longleftrightarrow> i - length x < length (concat xs)" by auto
    with False c Cons.IH [of "i - length x"] show ?thesis by (simp add: nth_append)
  qed
qed simp

lemma setLoop_rep:
  assumes "list_all2 lp_strs nodes xss" and "i < length (concat xss)" and "lp_fits v"
  shows "\<exists>nodes' yss. setLoop i v nodes = (True, nodes') \<and> list_all2 lp_strs nodes' yss \<and>
    concat yss = (concat xss)[i := v] \<and> length nodes' = length nodes"
  using assms(1,2)
proof (induction arbitrary: i rule: list_all2_induct)
  case (Cons n ns x xs)
  note c = lps.rep_count [OF Cons.hyps(1)]
  show ?case
  proof (cases "i < length x")
    case True
    then obtain b where "lp_replaceAt i v n = (True, b)" "lp_strs b (x[i := v])"
      using lps.rep_replace [OF Cons.hyps(1) True assms(3)] by blast
    with True c Cons.hyps show ?thesis
      by (intro exI [of _ "b # ns"] exI [of _ "x[i := v] # xs"]) (simp add: list_update_append)
  next
    case False
    with Cons.prems have "i - length x < length (concat xs)" by auto
    with Cons.IH obtain nodes' yss where "setLoop (i - length x) v ns = (True, nodes')" "list_all2 lp_strs nodes' yss"
      "concat yss = (concat xs)[i - length x := v]" "length nodes' = length ns" by blast
    with False c Cons.hyps show ?thesis
      by (intro exI [of _ "n # nodes'"] exI [of _ "x # yss"]) (simp add: list_update_append)
  qed
qed simp

lemma find_idx_append:
  "find_idx p n (xs @ ys) = (case find_idx p n xs of Some i \<Rightarrow> Some i | None \<Rightarrow> find_idx p (n + length xs) ys)"
proof (induction xs arbitrary: n)
  case (Cons x xs)
  from Cons.IH [of "Suc n"] show ?case by (cases "find_idx p (Suc n) xs") simp_all
qed simp

lemma find_idx_offset:
  "find_idx (\<lambda>_ u. u = v) (k + n) xs = map_option ((+) k) (find_idx (\<lambda>_ u. u = v) n xs)"
  by (induction xs arbitrary: n) (auto simp flip: add_Suc_right)

lemma indexOfLoop_rep:
  "list_all2 lp_strs nodes xss \<Longrightarrow> indexOfLoop v k nodes = find_idx (\<lambda>_ u. u = v) k (concat xss)"
proof (induction arbitrary: k rule: list_all2_induct)
  case (Cons n ns x xs)
  have "lp_find n v 0 1 = find_idx (\<lambda>_ u. u = v) 0 x" using lps.rep_find [OF Cons.hyps(1), of v 0 1] by simp
  with Cons.IH lps.rep_count [OF Cons.hyps(1)] find_idx_offset [of v k 0 x] show ?case
    by (cases "find_idx (\<lambda>_ u. u = v) 0 x") (simp_all add: find_idx_append)
qed simp

lemma nths_cong:
  assumes "\<And>i. i < length xs \<Longrightarrow> i \<in> A \<longleftrightarrow> i \<in> B"
  shows "nths xs A = nths xs B"
proof -
  have "filter (\<lambda>p. snd p \<in> A) (zip xs [0..<length xs]) = filter (\<lambda>p. snd p \<in> B) (zip xs [0..<length xs])"
    using assms by (intro filter_cong) (auto simp: set_zip)
  then show ?thesis by (simp add: nths_def)
qed

lemma nths_interval: "nths xs {i. a \<le> i \<and> i < b} = take (b - a) (drop a xs)"
proof (induction xs arbitrary: a b)
  case (Cons x xs)
  have e: "{j. a \<le> Suc j \<and> Suc j < b} = {j. a - 1 \<le> j \<and> j < b - 1}" by auto
  show ?case
  proof (cases a)
    case 0
    with Cons.IH [of 0 "b - 1"] e show ?thesis by (cases b) (simp_all add: nths_Cons)
  next
    case (Suc a')
    with Cons.IH [of a' "b - 1"] e show ?thesis by (cases b) (simp_all add: nths_Cons)
  qed
qed simp

lemma lv_range_rep:
  assumes "lv_rep l xs"
  shows "lv_range start stop l =
    nths xs {i. from_end start (length xs) \<le> int i \<and> int i \<le> from_end stop (length xs)}"
proof -
  define a where "a = max 0 (from_end start (length xs))"
  define b where "b = min (int (length xs) - 1) (from_end stop (length xs))"
  have "nths xs {i. from_end start (length xs) \<le> int i \<and> int i \<le> from_end stop (length xs)} =
      nths xs {i. nat a \<le> i \<and> i < nat (b + 1)}"
    by (intro nths_cong) (auto simp: a_def b_def)
  also have "\<dots> = take (nat (b + 1) - nat a) (drop (nat a) xs)" by (rule nths_interval)
  finally have n: "nths xs {i. from_end start (length xs) \<le> int i \<and> int i \<le> from_end stop (length xs)} =
      take (nat (b + 1) - nat a) (drop (nat a) xs)" .
  define n where "n = length xs"
  have z: "xs = [] \<longleftrightarrow> n = 0" by (simp add: n_def)
  have r: "lv_range start stop l =
      (if xs = [] \<or> a > b \<or> a \<ge> int (length xs) then [] else take (nat (b + 1 - a)) (drop (nat a) xs))"
    unfolding z using lv_size_rep [OF assms]
    by (simp add: lv_range_def Let_def a_def b_def from_end_def lv_toVector_rep [OF assms] flip: n_def)
  show ?thesis
  proof (cases "xs = [] \<or> a > b \<or> a \<ge> int (length xs)")
    case True
    moreover have "0 \<le> a" by (simp add: a_def)
    ultimately have "take (nat (b + 1) - nat a) (drop (nat a) xs) = []" by auto
    with True r n show ?thesis by simp
  next
    case False
    moreover have "0 \<le> a" by (simp add: a_def)
    ultimately have "nat (b + 1 - a) = nat (b + 1) - nat a" by (simp add: nat_diff_distrib)
    with False r n show ?thesis by simp
  qed
qed

section \<open>Removal and trimming\<close>

lemma lv_rebuildFrom_rep:
  assumes "list_all lp_fits items"
  shows "lv_rep (lv_rebuildFrom items l) items \<and> lv_encoded (lv_rebuildFrom items l)"
proof -
  have "\<exists>yss. list_all2 lp_strs (fold appendNode items nodes) yss \<and> concat yss = concat xss @ items \<and>
      fold appendNode items nodes \<noteq> []" if "list_all2 lp_strs nodes xss" "nodes \<noteq> []" for nodes xss
    using assms that
  proof (induction items arbitrary: nodes xss)
    case (Cons v items)
    obtain yss where "list_all2 lp_strs (appendNode v nodes) yss" "concat yss = concat xss @ [v]" "appendNode v nodes \<noteq> []"
      using appendNode_rep [OF Cons.prems(2,3), of v] Cons.prems(1) by auto
    with Cons.IH [of "appendNode v nodes" yss] Cons.prems(1) show ?case by simp
  qed auto
  from this [of "[lp_new]" "[[]]"] lps.rep_new show ?thesis
    by (auto simp: lv_rebuildFrom_def lv_rep_def simp del: lp_new_rep)
qed

text \<open>What the erase loop removes: the first occurrences, up to the limit.\<close>

lemma eraseLoop_split:
  "eraseLoop v limit xs = (r, n) \<Longrightarrow> n = min limit (count_list xs v) \<and>
   (\<exists>ys zs. xs = ys @ zs \<and> count_list ys v = n \<and> r = filter (\<lambda>x. x \<noteq> v) ys @ zs)"
proof (induction v limit xs arbitrary: r n rule: eraseLoop.induct)
  case (1 v items)
  then show ?case by (auto intro: exI [of _ "[]"])
next
  case (2 v left)
  then show ?case by simp
next
  case (3 v left x xs)
  show ?case
  proof (cases "x = v")
    case True
    obtain r' n' where e: "eraseLoop v left xs = (r', n')" by (cases "eraseLoop v left xs")
    from "3.IH"(1) [OF True e] obtain ys zs where i: "n' = min left (count_list xs v)" "xs = ys @ zs"
      "count_list ys v = n'" "r' = filter (\<lambda>x. x \<noteq> v) ys @ zs" by blast
    from "3.prems" True e have "r = r'" "n = n' + 1" by simp_all
    with True i(1,3,4) have "n = min (Suc left) (count_list (x # xs) v)" "count_list (x # ys) v = n"
      "r = filter (\<lambda>x. x \<noteq> v) (x # ys) @ zs" by simp_all
    moreover have "x # xs = (x # ys) @ zs" by (simp add: i(2))
    ultimately show ?thesis by blast
  next
    case False
    obtain r' n' where e: "eraseLoop v (Suc left) xs = (r', n')" by (cases "eraseLoop v (Suc left) xs")
    from "3.IH"(2) [OF False e] obtain ys zs where i: "n' = min (Suc left) (count_list xs v)" "xs = ys @ zs"
      "count_list ys v = n'" "r' = filter (\<lambda>x. x \<noteq> v) ys @ zs" by blast
    from "3.prems" False e have "r = x # r'" "n = n'" by simp_all
    with False i(1,3,4) have "n = min (Suc left) (count_list (x # xs) v)" "count_list (x # ys) v = n"
      "r = filter (\<lambda>x. x \<noteq> v) (x # ys) @ zs" by simp_all
    moreover have "x # xs = (x # ys) @ zs" by (simp add: i(2))
    ultimately show ?thesis by blast
  qed
qed

lemma lv_removeValue_items:
  assumes "lv_removeValue v cnt l = (n, l')" and "lv_rep l xs" and "list_all lp_fits xs"
  shows "\<exists>ys zs. n = min (if cnt = 0 then length xs else nat \<bar>cnt\<bar>) (count_list xs v) \<and> xs = ys @ zs \<and>
    (if cnt \<ge> 0 then count_list ys v = n \<and> lv_rep l' (filter (\<lambda>x. x \<noteq> v) ys @ zs)
     else count_list zs v = n \<and> lv_rep l' (ys @ filter (\<lambda>x. x \<noteq> v) zs))"
proof -
  define limit where "limit = (if cnt = 0 then length xs else nat \<bar>cnt\<bar>)"
  have keep: "lv_rep l' items'" if "l' = (if n > 0 then lv_rebuildFrom items' l else l)" "list_all lp_fits items'"
      "n = 0 \<Longrightarrow> items' = xs" for items'
    using that lv_rebuildFrom_rep [of items' l] assms(2) by (cases "n > 0") simp_all
  show ?thesis
  proof (cases "cnt \<ge> 0")
    case True
    obtain r k where e: "eraseLoop v limit xs = (r, k)" by (cases "eraseLoop v limit xs")
    from eraseLoop_split [OF e] obtain ys zs where s: "k = min limit (count_list xs v)" "xs = ys @ zs"
      "count_list ys v = k" "r = filter (\<lambda>x. x \<noteq> v) ys @ zs" by blast
    have u: "n = k" "l' = (if n > 0 then lv_rebuildFrom r l else l)"
      using assms(1) True e lv_toVector_rep [OF assms(2)] by (auto simp: lv_removeValue_def Let_def limit_def)
    have "r = xs" if "n = 0"
    proof -
      from s(3) u(1) that have "v \<notin> set ys" by (simp add: count_list_0_iff)
      then have "filter (\<lambda>x. x \<noteq> v) ys = ys" by (auto simp: filter_id_conv)
      with s(2,4) show ?thesis by simp
    qed
    moreover have "list_all lp_fits r" using assms(3) unfolding s(2,4) by (auto simp: list_all_iff)
    ultimately have "lv_rep l' r" using keep [OF u(2)] by blast
    with True s u(1) show ?thesis by (intro exI [of _ ys] exI [of _ zs]) (simp add: limit_def)
  next
    case False
    obtain r k where e: "eraseLoop v limit (rev xs) = (r, k)" by (cases "eraseLoop v limit (rev xs)")
    from eraseLoop_split [OF e] obtain ys zs where s: "k = min limit (count_list (rev xs) v)" "rev xs = ys @ zs"
      "count_list ys v = k" "r = filter (\<lambda>x. x \<noteq> v) ys @ zs" by blast
    have x: "xs = rev zs @ rev ys" using s(2) by (metis rev_append rev_rev_ident)
    have u: "n = k" "l' = (if n > 0 then lv_rebuildFrom (rev r) l else l)"
      using assms(1) False e lv_toVector_rep [OF assms(2)] by (auto simp: lv_removeValue_def Let_def limit_def)
    have "rev r = xs" if "n = 0"
    proof -
      from s(3) u(1) that have "v \<notin> set ys" by (simp add: count_list_0_iff)
      then have "filter (\<lambda>x. x \<noteq> v) ys = ys" by (auto simp: filter_id_conv)
      with s(4) x show ?thesis by simp
    qed
    moreover have "list_all lp_fits (rev r)" using assms(3) unfolding x s(4) by (auto simp: list_all_iff)
    ultimately have "lv_rep l' (rev r)" using keep [OF u(2)] by blast
    with False s u(1) x show ?thesis
      by (intro exI [of _ "rev zs"] exI [of _ "rev ys"]) (simp add: limit_def rev_filter)
  qed
qed

section \<open>Stored sizes\<close>

lemma lp_entry_size: "lp_entry (LpStr s) bs \<Longrightarrow> length s \<le> length bs"
proof -
  have "length s \<le> n" if "decodePayload p = Some (LpStr s, n)" for p n
    using that by (auto simp: decodePayload_def Let_def split: if_splits)
  then show "lp_entry (LpStr s) bs \<Longrightarrow> length s \<le> length bs"
    by (fastforce simp: lp_entry_def decodeEntry_def Let_def split: option.splits if_splits)
qed

lemma length_elem_concat: "x \<in> set xs \<Longrightarrow> length x \<le> length (concat xs)"
  by (induction xs) auto

lemma lp_strs_size:
  assumes "lp_strs b vs" and "v \<in> set vs" and "stringToInt64 v = None"
  shows "length v \<le> length b"
proof -
  obtain c ebs where b: "b = lp_buffer c ebs" "list_all2 lp_entry (map elem_of vs) ebs"
    using assms(1) by (auto simp: lp_rep_def)
  from assms(2) obtain i where i: "i < length vs" "vs ! i = v" by (auto simp: in_set_conv_nth)
  have "lp_entry (elem_of v) (ebs ! i)" using list_all2_nthD [OF b(2), of i] i by simp
  then have "length v \<le> length (ebs ! i)" using lp_entry_size assms(3) by (simp add: elem_of_def)
  moreover have "ebs ! i \<in> set ebs" using list_all2_lengthD [OF b(2)] i by simp
  ultimately show ?thesis using length_elem_concat [of "ebs ! i" ebs] b(1) by simp
qed

section \<open>Properties\<close>

lemma lv_sample_rep:
  "lv_rep (lv_pushBack (str ''b'') (lv_pushBack (str ''a'') lv_new)) [str ''a'', str ''b'']"
  using lv_pushBack_rep [of _ "[str ''a'']" "str ''b''"] lv_pushBack_rep [OF lv_rep_new, of "str ''a''"] by simp

text \<open>C13: A list value is a double-ended queue of byte strings, however its elements are spread over
  nodes: the pushes add at the ends, the pops return and remove the end element or report the
  empty list without a change, the size is the length, and each of them leaves the list reported as a
  listpack exactly when it is one node of at most 8192 bytes, and as a quicklist otherwise.\<close>

theorem list_is_deque:
  assumes "lv_rep l xs" and "lp_fits v"
  shows "lv_size l = length xs \<and>
    lv_rep (lv_pushBack v l) (xs @ [v]) \<and> lv_encoded (lv_pushBack v l) \<and>
    lv_rep (lv_pushFront v l) (v # xs) \<and> lv_encoded (lv_pushFront v l) \<and>
    (if xs = [] then lv_popFront l = (None, l) \<and> lv_popBack l = (None, l)
     else (\<exists>l1 l2. lv_popFront l = (Some (hd xs), l1) \<and> lv_rep l1 (tl xs) \<and> lv_encoded l1 \<and>
             lv_popBack l = (Some (last xs), l2) \<and> lv_rep l2 (butlast xs) \<and> lv_encoded l2))"
  using lv_size_rep [OF assms(1)] lv_pushBack_rep [OF assms] lv_pushFront_rep [OF assms]
    lv_popFront_rep [OF assms(1)] lv_popBack_rep [OF assms(1)]
  by (cases xs) auto

theorem list_is_deque_witness:
  "fst (lv_popFront (lv_pushBack (str ''b'') (lv_pushBack (str ''a'') lv_new))) = Some (str ''a'')"
  using list_is_deque [OF lv_sample_rep, of "str ''c''"] by auto

text \<open>C14: Access by index and by value agrees with the sequence: \<open>at\<close> and \<open>set\<close> count negative
  indices from the end and refuse the ones out of range, \<open>indexOf\<close> finds the first occurrence,
  and \<open>range\<close> selects exactly the elements between its two bounds.\<close>

theorem list_index_correct:
  assumes "lv_rep l xs" and "lp_fits v" and "k = from_end i (length xs)"
  shows "lv_at i l = (if 0 \<le> k \<and> k < int (length xs) then Some (xs ! nat k) else None) \<and>
    (if 0 \<le> k \<and> k < int (length xs) then (\<exists>l'. lv_set i v l = (True, l') \<and> lv_rep l' (xs[nat k := v]))
     else lv_set i v l = (False, l)) \<and>
    lv_indexOf v l = find_idx (\<lambda>_ u. u = v) 0 xs \<and>
    lv_range a b l = nths xs {j. from_end a (length xs) \<le> int j \<and> int j \<le> from_end b (length xs)}"
proof -
  obtain xss where x: "lv_nodes l \<noteq> []" "list_all2 lp_strs (lv_nodes l) xss" "xs = concat xss"
    using assms(1) by (rule lv_rep_nodes)
  have r: "lv_resolveIndex i l = (if 0 \<le> k \<and> k < int (length xs) then Some (nat k) else None)"
    using lv_resolveIndex_rep [OF assms(1), of i] assms(3) by (simp add: Let_def)
  have "\<exists>l'. lv_set i v l = (True, l') \<and> lv_rep l' (xs[nat k := v])" if k: "0 \<le> k" "k < int (length xs)"
  proof -
    have "nat k < length (concat xss)" using k x(3) by simp
    from setLoop_rep [OF x(2) this assms(2)] obtain nodes' yss where n: "setLoop (nat k) v (lv_nodes l) = (True, nodes')"
      "list_all2 lp_strs nodes' yss" "concat yss = (concat xss)[nat k := v]" "length nodes' = length (lv_nodes l)" by blast
    then have "lv_rep (l\<lparr>lv_nodes := nodes'\<rparr>) (xs[nat k := v])"
      using x by (intro lv_repI [of _ yss]) auto
    with n(1) r k show ?thesis by (simp add: lv_set_def)
  qed
  moreover have "lv_at i l = (if 0 \<le> k \<and> k < int (length xs) then Some (xs ! nat k) else None)"
    using r atLoop_rep [OF x(2), of "nat k"] x(3) by (simp add: lv_at_def nat_less_iff)
  moreover have "lv_indexOf v l = find_idx (\<lambda>_ u. u = v) 0 xs"
    using indexOfLoop_rep [OF x(2)] x(3) by (simp add: lv_indexOf_def)
  ultimately show ?thesis using r lv_range_rep [OF assms(1)] by (simp add: lv_set_def)
qed

theorem list_index_correct_witness:
  "lv_at (-1) (lv_pushBack (str ''b'') (lv_pushBack (str ''a'') lv_new)) = Some (str ''b'') \<and>
   lv_range 0 0 (lv_pushBack (str ''b'') (lv_pushBack (str ''a'') lv_new)) = [str ''a'']"
  using list_index_correct [OF lv_sample_rep _ refl, of "str ''b''" "-1" 0 0]
  by (simp add: from_end_def nths_Cons)

text \<open>C15: \<open>removeValue\<close> removes exactly the first \<open>n\<close> occurrences for a positive count, the last
  ones for a negative count and all of them for zero, returns how many there were, and keeps every
  other element in its place; \<open>trim\<close> keeps exactly the elements of the range.\<close>

theorem list_remove_trim:
  assumes "lv_rep l xs" and "list_all lp_fits xs" and "lv_removeValue v cnt l = (n, l')"
  shows "n = min (if cnt = 0 then length xs else nat \<bar>cnt\<bar>) (count_list xs v) \<and>
    (\<exists>ys zs. xs = ys @ zs \<and>
      (if cnt \<ge> 0 then count_list ys v = n \<and> lv_rep l' (filter (\<lambda>x. x \<noteq> v) ys @ zs)
       else count_list zs v = n \<and> lv_rep l' (ys @ filter (\<lambda>x. x \<noteq> v) zs))) \<and>
    lv_rep (lv_trim a b l) (nths xs {j. from_end a (length xs) \<le> int j \<and> int j \<le> from_end b (length xs)})"
proof -
  let ?ys = "nths xs {j. from_end a (length xs) \<le> int j \<and> int j \<le> from_end b (length xs)}"
  have "list_all lp_fits ?ys" using assms(2) notin_set_nthsI by (auto simp: list_all_iff set_nths)
  then have "lv_rep (lv_trim a b l) ?ys"
    using lv_rebuildFrom_rep [of ?ys l] by (simp add: lv_trim_def lv_range_rep [OF assms(1)])
  with lv_removeValue_items [OF assms(3,1,2)] show ?thesis by blast
qed

theorem list_remove_trim_witness:
  "fst (lv_removeValue (str ''a'') (-1) (lv_pushBack (str ''b'') (lv_pushBack (str ''a'') lv_new))) = 1"
proof -
  let ?l = "lv_pushBack (str ''b'') (lv_pushBack (str ''a'') lv_new)"
  obtain n l' where e: "lv_removeValue (str ''a'') (-1) ?l = (n, l')" by (cases "lv_removeValue (str ''a'') (-1) ?l")
  from list_remove_trim [OF lv_sample_rep _ e] have "n = 1" by simp
  with e show ?thesis by simp
qed

text \<open>\<open>set\<close> is the one update that does not re-derive the encoding: overwriting an element of a
  list with a value beyond the byte budget leaves it reported as a listpack, which is not the
  encoding its nodes call for.\<close>

lemma list_set_keeps_encoding:
  assumes "lv_rep l [x]" and "lv_encoding l = ListPack" and "lp_fits v" and "length v > 8192" and "lv_set 0 v l = (ok, l')"
  shows "ok \<and> lv_rep l' [v] \<and> lv_encoding l' = ListPack \<and> \<not> lv_encoded l'"
proof -
  obtain xss where x: "lv_nodes l \<noteq> []" "list_all2 lp_strs (lv_nodes l) xss" "concat xss = [x]"
    using assms(1) by (metis lv_rep_nodes)
  then have "0 < length (concat xss)" by (metis length_greater_0_conv list.distinct(1))
  from setLoop_rep [OF x(2) this assms(3)] x(3) obtain nodes' yss where n: "setLoop 0 v (lv_nodes l) = (True, nodes')"
    "list_all2 lp_strs nodes' yss" "concat yss = [v]" "length nodes' = length (lv_nodes l)" by auto
  have "lv_resolveIndex 0 l = Some 0" using lv_resolveIndex_rep [OF assms(1), of 0] by (simp add: from_end_def)
  then have l': "ok" "l' = l\<lparr>lv_nodes := nodes'\<rparr>" using assms(5) n(1) by (simp_all add: lv_set_def)
  have "stringToInt64 v = None" using assms(4) by (simp add: stringToInt64_def)
  have "8192 < length b" if "nodes' = [b]" for b
  proof -
    from n(2,3) that have "lp_strs b [v]" by (auto simp: list_all2_Cons1)
    from lp_strs_size [OF this, of v] \<open>stringToInt64 v = None\<close> assms(4) show ?thesis by simp
  qed
  then have "\<not> (length nodes' = 1 \<and> length (nodes' ! 0) \<le> 8192)" by (cases nodes') auto
  moreover have e: "lv_encoding l' = ListPack" using l'(2) assms(2) by simp
  ultimately have "\<not> lv_encoded l'" using l'(2) by (auto simp: lv_encoded_def)
  moreover have "lv_rep l' [v]" using n x(1) l'(2) by (intro lv_repI [of _ yss]) auto
  ultimately show ?thesis using e l'(1) by blast
qed

end
