(* ===== verification/Double.thy ===== *)
theory Double
  imports Encoding
begin

text \<open>
  The IEEE 754 binary64 arithmetic the sources use: a \<open>double\<close> is its bit pattern, comparison
  is the order of sign and magnitude, with NaN unordered, conversion from integers and from
  text rounds the exact rational to the nearest pattern with ties to even, and \<open>strtod\<close> accepts the
  grammar of the C standard. The properties at the end say that the two ways in which a stored
  integral score is read back, by the cast and by the parse of its text, are the same.
\<close>

type_synonym double = "64 word"

section \<open>Patterns\<close>

definition kFracMask :: "64 word" where
  "kFracMask = 0x000FFFFFFFFFFFFF"

definition kExpMask :: "64 word" where
  "kExpMask = 0x7FF0000000000000"

definition kHiddenBit :: "64 word" where
  "kHiddenBit = 0x0010000000000000"

definition kSignMask :: "64 word" where
  "kSignMask = 0x8000000000000000"

definition dbl_isnan :: "double \<Rightarrow> bool" where
  "dbl_isnan x \<longleftrightarrow> x AND kExpMask = kExpMask \<and> x AND kFracMask \<noteq> 0"

definition dbl_isinf :: "double \<Rightarrow> bool" where
  "dbl_isinf x \<longleftrightarrow> x AND kExpMask = kExpMask \<and> x AND kFracMask = 0"

text \<open>The magnitude bits order like the values they stand for, infinity included.\<close>

definition dbl_mag :: "double \<Rightarrow> nat" where
  "dbl_mag x = unat (take_bit 63 x)"

definition dbl_neg :: "double \<Rightarrow> bool" where
  "dbl_neg x = bit x 63"

definition dbl_key :: "double \<Rightarrow> int" where
  "dbl_key x = (if dbl_neg x then - int (dbl_mag x) else int (dbl_mag x))"

definition dbl_lt :: "double \<Rightarrow> double \<Rightarrow> bool" where
  "dbl_lt x y \<longleftrightarrow> \<not> dbl_isnan x \<and> \<not> dbl_isnan y \<and> dbl_key x < dbl_key y"

definition dbl_le :: "double \<Rightarrow> double \<Rightarrow> bool" where
  "dbl_le x y \<longleftrightarrow> \<not> dbl_isnan x \<and> \<not> dbl_isnan y \<and> dbl_key x \<le> dbl_key y"

definition dbl_eq :: "double \<Rightarrow> double \<Rightarrow> bool" where
  "dbl_eq x y \<longleftrightarrow> \<not> dbl_isnan x \<and> \<not> dbl_isnan y \<and> dbl_key x = dbl_key y"

section \<open>Rounding\<close>

fun bit_length :: "nat \<Rightarrow> nat" where
  "bit_length n = (if n = 0 then 0 else Suc (bit_length (n div 2)))"

declare bit_length.simps [simp del]

lemma bit_length_numeral [simp]:
  "bit_length 0 = 0" "bit_length 1 = 1" "bit_length (Suc 0) = 1"
  "bit_length (numeral (num.Bit0 k)) = Suc (bit_length (numeral k))"
  "bit_length (numeral (num.Bit1 k)) = Suc (bit_length (numeral k))"
  by (simp_all add: bit_length.simps [of 0] bit_length.simps [of "Suc 0"] bit_length.simps [of "numeral (num.Bit0 k)"]
      bit_length.simps [of "numeral (num.Bit1 k)"])

text \<open>
  The magnitude pattern nearest to \<open>n / d\<close>. With \<open>e\<close> the binary exponent of the quotient, the
  unit in the last place is \<open>2 ^ q\<close>, at least the subnormal one; the significand is the quotient
  by that unit, rounded half to even. Adding it to the shifted exponent also carries into the
  exponent when the rounding reaches the next power of two.
\<close>

definition round_ratio :: "nat \<Rightarrow> nat \<Rightarrow> nat" where
  "round_ratio n d =
     (if n = 0 then 0
      else
        let l = int (bit_length n) - int (bit_length d);
            e = (if d * 2 ^ nat l \<le> n * 2 ^ nat (- l) then l else l - 1);
            q = max (e - 52) (-1074);
            n' = n * 2 ^ nat (- q);
            d' = d * 2 ^ nat q;
            m = n' div d';
            r = n' mod d';
            m' = (if 2 * r > d' \<or> 2 * r = d' \<and> odd m then m + 1 else m);
            bits = m' + nat (q + 1074) * 2 ^ 52
        in if bits < 0x7FF0000000000000 then bits else 0x7FF0000000000000)"

definition dbl_make :: "bool \<Rightarrow> nat \<Rightarrow> double" where
  "dbl_make neg mag = (if neg then of_nat mag OR kSignMask else of_nat mag)"

text \<open>\<open>static_cast<double>\<close> of an integer.\<close>

definition dbl_of_int :: "int \<Rightarrow> double" where
  "dbl_of_int n = dbl_make (n < 0) (round_ratio (nat \<bar>n\<bar>) 1)"

text \<open>A finite pattern is \<open>significand * 2 ^ exponent\<close>.\<close>

definition dbl_sig :: "double \<Rightarrow> nat" where
  "dbl_sig x = (if dbl_mag x div 2 ^ 52 = 0 then dbl_mag x mod 2 ^ 52 else dbl_mag x mod 2 ^ 52 + 2 ^ 52)"

definition dbl_exp :: "double \<Rightarrow> int" where
  "dbl_exp x = (if dbl_mag x div 2 ^ 52 = 0 then -1074 else int (dbl_mag x div 2 ^ 52) - 1075)"

text \<open>\<open>static_cast\<close> of a finite double to an integer type that holds it: truncation.\<close>

definition dbl_trunc :: "double \<Rightarrow> int" where
  "dbl_trunc x =
     (let a = dbl_sig x * 2 ^ nat (dbl_exp x) div 2 ^ nat (- dbl_exp x)
      in if dbl_neg x then - int a else int a)"

text \<open>The product of two finite doubles.\<close>

definition dbl_mul :: "double \<Rightarrow> double \<Rightarrow> double" where
  "dbl_mul x y =
     (let e = dbl_exp x + dbl_exp y
      in dbl_make (dbl_neg x \<noteq> dbl_neg y)
           (round_ratio (dbl_sig x * dbl_sig y * 2 ^ nat e) (2 ^ nat (- e))))"

section \<open>Parsing\<close>

definition is_space :: "byte \<Rightarrow> bool" where
  "is_space c \<longleftrightarrow> c = 32 \<or> 9 \<le> c \<and> c \<le> 13"

text \<open>\<open>std::tolower\<close> in the C locale.\<close>

definition tolower :: "byte \<Rightarrow> byte" where
  "tolower c = (if 65 \<le> c \<and> c \<le> 90 then c + 32 else c)"

definition hex_digit :: "byte \<Rightarrow> nat option" where
  "hex_digit c =
     (if is_digit c then Some (digit_val c)
      else if 97 \<le> tolower c \<and> tolower c \<le> 102 then Some (unat (tolower c) - 87)
      else None)"

definition has_prefix :: "bytes \<Rightarrow> bytes \<Rightarrow> bool" where
  "has_prefix w s \<longleftrightarrow> map tolower (take (length w) s) = w"

text \<open>\<open>inf\<close>, \<open>infinity\<close> and \<open>nan\<close>, the last with an optional parenthesised payload.\<close>

definition nan_payload :: "bytes \<Rightarrow> nat" where
  "nan_payload s =
     (case s of
        [] \<Rightarrow> 0
      | c # r \<Rightarrow>
          let body = takeWhile (\<lambda>c. is_digit c \<or> 97 \<le> tolower c \<and> tolower c \<le> 122 \<or> c = 95) r
          in if c = 40 \<and> length body < length r \<and> r ! length body = 41 then length body + 2 else 0)"

definition strtod_special :: "bytes \<Rightarrow> (nat \<times> nat) option" where
  "strtod_special s =
     (if has_prefix (str ''infinity'') s then Some (0x7FF0000000000000, 8)
      else if has_prefix (str ''inf'') s then Some (0x7FF0000000000000, 3)
      else if has_prefix (str ''nan'') s then Some (0x7FF8000000000000, 3 + nan_payload (drop 3 s))
      else None)"

text \<open>The exponent part: a marker, an optional sign and at least one digit; its value and length.\<close>

definition exponent_part :: "byte \<Rightarrow> bytes \<Rightarrow> int \<times> nat" where
  "exponent_part marker s =
     (case s of
        [] \<Rightarrow> (0, 0)
      | c # r \<Rightarrow>
          if tolower c \<noteq> marker then (0, 0)
          else
            let sl = (if r \<noteq> [] \<and> (hd r = 43 \<or> hd r = 45) then 1 else 0);
                ds = takeWhile is_digit (drop sl r);
                v = int (dec_value 0 ds)
            in if ds = [] then (0, 0)
               else (if sl = 1 \<and> hd r = 45 then - v else v, 1 + sl + length ds))"

definition fraction_part :: "(byte \<Rightarrow> bool) \<Rightarrow> bytes \<Rightarrow> bytes \<times> nat" where
  "fraction_part digit s =
     (case s of
        [] \<Rightarrow> ([], 0)
      | c # r \<Rightarrow> if c = 46 then (takeWhile digit r, 1 + length (takeWhile digit r)) else ([], 0))"

definition strtod_dec :: "bytes \<Rightarrow> (nat \<times> nat) option" where
  "strtod_dec s =
     (let ip = takeWhile is_digit s;
          (fp, flen) = fraction_part is_digit (drop (length ip) s);
          mlen = length ip + flen;
          (e, elen) = exponent_part 101 (drop mlen s);
          e' = e - int (length fp)
      in if ip = [] \<and> fp = [] then None
         else Some (round_ratio (dec_value 0 (ip @ fp) * 10 ^ nat e') (10 ^ nat (- e')), mlen + elen))"

definition strtod_hex :: "bytes \<Rightarrow> (nat \<times> nat) option" where
  "strtod_hex s =
     (if \<not> has_prefix (str ''0x'') s then None
      else
        let is_hex = (\<lambda>c. hex_digit c \<noteq> None);
            body = drop 2 s;
            ip = takeWhile is_hex body;
            (fp, flen) = fraction_part is_hex (drop (length ip) body);
            mlen = length ip + flen;
            (e, elen) = exponent_part 112 (drop mlen body);
            e' = e - 4 * int (length fp);
            v = foldl (\<lambda>a c. a * 16 + the (hex_digit c)) 0 (ip @ fp)
        in if ip = [] \<and> fp = [] then None
           else Some (round_ratio (v * 2 ^ nat e') (2 ^ nat (- e')), 2 + mlen + elen))"

text \<open>The value and the number of bytes consumed; no conversion is zero with none consumed.\<close>

definition strtod :: "bytes \<Rightarrow> double \<times> nat" where
  "strtod s =
     (let ws = length (takeWhile is_space s);
          p = drop ws s;
          neg = (p \<noteq> [] \<and> hd p = 45);
          sl = (if p \<noteq> [] \<and> (hd p = 45 \<or> hd p = 43) then 1 else 0);
          q = drop sl p
      in case strtod_special q of
           Some (mag, n) \<Rightarrow> (dbl_make neg mag, ws + sl + n)
         | None \<Rightarrow>
             (case strtod_hex q of
                Some (mag, n) \<Rightarrow> (dbl_make neg mag, ws + sl + n)
              | None \<Rightarrow>
                  (case strtod_dec q of
                     Some (mag, n) \<Rightarrow> (dbl_make neg mag, ws + sl + n)
                   | None \<Rightarrow> (0, 0))))"

section \<open>Integers\<close>

lemma digits_takeWhile: "list_all is_digit ds \<Longrightarrow> takeWhile is_digit ds = ds"
  by (simp add: takeWhile_eq_all_conv list_all_iff)

lemma strtod_dec_digits:
  assumes "list_all is_digit ds" and "ds \<noteq> []"
  shows "strtod_dec ds = Some (round_ratio (dec_value 0 ds) 1, length ds)"
  using assms by (simp add: strtod_dec_def digits_takeWhile fraction_part_def exponent_part_def Let_def)

lemma digit_byte: "is_digit c \<Longrightarrow> c \<in> {48, 49, 50, 51, 52, 53, 54, 55, 56, 57}"
  using digit_val_inv [of c] digit_val_less [of c]
  by (auto simp: less_Suc_eq eval_nat_numeral)

lemma digit_not:
  assumes "is_digit c"
  shows "tolower c = c" "\<not> is_space c" "c \<noteq> 45" "c \<noteq> 43" "c \<noteq> 105" "c \<noteq> 110" "c \<noteq> 120"
  using digit_byte [OF assms] by (auto simp: tolower_def is_space_def)

lemma strtod_digits:
  assumes "list_all is_digit ds" and "ds \<noteq> []"
  shows "strtod_special ds = None" "strtod_hex ds = None"
proof -
  obtain c cs where c: "ds = c # cs" "is_digit c" using assms by (cases ds) auto
  note d = digit_not [OF c(2)]
  show "strtod_special ds = None" using d by (simp add: strtod_special_def has_prefix_def c(1))
  have "cs \<noteq> [] \<Longrightarrow> is_digit (hd cs)" using assms c by (cases cs) auto
  then have "cs \<noteq> [] \<Longrightarrow> tolower (hd cs) \<noteq> 120" using digit_not by metis
  then show "strtod_hex ds = None" by (cases cs) (simp_all add: strtod_hex_def has_prefix_def c(1))
qed

lemma strtod_unsigned:
  assumes "list_all is_digit ds" and "ds \<noteq> []"
  shows "strtod ds = (dbl_make False (round_ratio (dec_value 0 ds) 1), length ds)"
    and "strtod (45 # ds) = (dbl_make True (round_ratio (dec_value 0 ds) 1), Suc (length ds))"
proof -
  obtain c cs where c: "ds = c # cs" "is_digit c" using assms by (cases ds) auto
  note d = digit_not [OF c(2)]
  have s: "takeWhile is_space ds = []" "takeWhile is_space (45 # ds) = []" using d by (simp_all add: c(1) is_space_def)
  show "strtod ds = (dbl_make False (round_ratio (dec_value 0 ds) 1), length ds)"
    using s strtod_digits [OF assms] strtod_dec_digits [OF assms] d by (simp add: strtod_def Let_def c(1))
  show "strtod (45 # ds) = (dbl_make True (round_ratio (dec_value 0 ds) 1), Suc (length ds))"
    using s strtod_digits [OF assms] strtod_dec_digits [OF assms] by (simp add: strtod_def Let_def)
qed

text \<open>Reading the decimal text of an integer agrees with the cast from the integer, so the two ways in
  which a sorted set reads an integral score back from its listpack agree.\<close>

lemma strtod_to_string: "strtod (to_string n) = (dbl_of_int n, length (to_string n))"
proof -
  have d: "list_all is_digit (nat_digits k)" "nat_digits k \<noteq> []" for k by (simp_all add: nat_digits_digits)
  show ?thesis
    using strtod_unsigned [OF d, of "nat n"] strtod_unsigned [OF d, of "nat (- n)"]
    by (simp add: to_string_def dbl_of_int_def)
qed

end
