(* ===== verification/Dtoa.thy ===== *)
theory Dtoa
  imports Double
begin

text \<open>
  Model of \<open>src/core/dtoa.cpp\<close>: grisu2 on 64-bit significands, the notation rule of fpconv and
  \<open>d2string\<close>. A C buffer that is filled from the front is the list of its bytes. The two
  normalising shifts are bounded by the width of the significand, the search of the cached
  power by the length of its table, and the fractional digits by the table of units that the
  source walks.
\<close>

section \<open>Tables\<close>

record Fp =
  fp_frac :: "64 word"
  fp_exp :: int

definition kExpBias :: int where
  "kExpBias = 1075"

definition kTens :: "64 word list" where
  "kTens = [10000000000000000000, 1000000000000000000, 100000000000000000, 10000000000000000,
     1000000000000000, 100000000000000, 10000000000000, 1000000000000, 100000000000, 10000000000,
     1000000000, 100000000, 10000000, 1000000, 100000, 10000, 1000, 100, 10, 1]"

definition kFirstPower :: int where
  "kFirstPower = -348"

definition kStepPowers :: int where
  "kStepPowers = 8"

definition kNumPowers :: int where
  "kNumPowers = 87"

definition kExpMin :: int where
  "kExpMin = -60"

definition kExpMax :: int where
  "kExpMax = -32"

definition kPowersTen :: "(64 word \<times> int) list" where
  "kPowersTen = [
     (18054884314459144840, -1220), (13451937075301367670, -1193), (10022474136428063862, -1166), (14934650266808366570, -1140),
     (11127181549972568877, -1113), (16580792590934885855, -1087), (12353653155963782858, -1060), (18408377700990114895, -1034),
     (13715310171984221708, -1007), (10218702384817765436, -980), (15227053142812498563, -954), (11345038669416679861, -927),
     (16905424996341287883, -901), (12595523146049147757, -874), (9384396036005875287, -847), (13983839803942852151, -821),
     (10418772551374772303, -794), (15525180923007089351, -768), (11567161174868858868, -741), (17236413322193710309, -715),
     (12842128665889583758, -688), (9568131466127621947, -661), (14257626930069360058, -635), (10622759856335341974, -608),
     (15829145694278690180, -582), (11793632577567316726, -555), (17573882009934360870, -529), (13093562431584567480, -502),
     (9755464219737475723, -475), (14536774485912137811, -449), (10830740992659433045, -422), (16139061738043178685, -396),
     (12024538023802026127, -369), (17917957937422433684, -343), (13349918974505688015, -316), (9946464728195732843, -289),
     (14821387422376473014, -263), (11042794154864902060, -236), (16455045573212060422, -210), (12259964326927110867, -183),
     (18268770466636286478, -157), (13611294676837538539, -130), (10141204801825835212, -103), (15111572745182864684, -77),
     (11258999068426240000, -50), (16777216000000000000, -24), (12500000000000000000, 3), (9313225746154785156, 30),
     (13877787807814456755, 56), (10339757656912845936, 83), (15407439555097886824, 109), (11479437019748901445, 136),
     (17105694144590052135, 162), (12744735289059618216, 189), (9495567745759798747, 216), (14149498560666738074, 242),
     (10542197943230523224, 269), (15709099088952724970, 295), (11704190886730495818, 322), (17440603504673385349, 348),
     (12994262207056124023, 375), (9681479787123295682, 402), (14426529090290212157, 428), (10748601772107342003, 455),
     (16016664761464807395, 481), (11933345169920330789, 508), (17782069995880619868, 534), (13248674568444952270, 561),
     (9871031767461413346, 588), (14708983551653345445, 614), (10959046745042015199, 641), (16330252207878254650, 667),
     (12166986024289022870, 694), (18130221999122236476, 720), (13508068024458167312, 747), (10064294952495520794, 774),
     (14996968138956309548, 800), (11173611982879273257, 827), (16649979327439178909, 853), (12405201291620119593, 880),
     (9242595204427927429, 907), (13772540099066387757, 933), (10261342003245940623, 960), (15290591125556738113, 986),
     (11392378155556871081, 1013), (16975966327722178521, 1039), (12648080533535911531, 1066)]"

section \<open>Cached powers\<close>

fun cachedPowLoop :: "nat \<Rightarrow> int \<Rightarrow> int \<Rightarrow> int" where
  "cachedPowLoop 0 exp idx = idx"
| "cachedPowLoop (Suc fuel) exp idx =
     (let current = exp + snd (kPowersTen ! nat idx) + 64 in
      if current < kExpMin then cachedPowLoop fuel exp (idx + 1)
      else if current > kExpMax then cachedPowLoop fuel exp (idx - 1)
      else idx)"

definition kOneOverLogTen :: double where
  "kOneOverLogTen = fst (strtod (str ''0.30102999566398114''))"

text \<open>The power and its decimal exponent.\<close>

definition findCachedPow10 :: "int \<Rightarrow> Fp \<times> int" where
  "findCachedPow10 exp =
     (let approx = dbl_trunc (dbl_mul (dbl_of_int (- (exp + kNumPowers))) kOneOverLogTen);
          start = (if approx - kFirstPower < 0 then - ((kFirstPower - approx) div kStepPowers)
                   else (approx - kFirstPower) div kStepPowers);
          idx = cachedPowLoop (length kPowersTen) exp start
      in (\<lparr>fp_frac = fst (kPowersTen ! nat idx), fp_exp = snd (kPowersTen ! nat idx)\<rparr>,
          kFirstPower + idx * kStepPowers))"

section \<open>Boundaries\<close>

definition buildFp :: "double \<Rightarrow> Fp" where
  "buildFp d =
     (let frac = d AND kFracMask;
          exp = uint (drop_bit 52 (d AND kExpMask))
      in if exp \<noteq> 0 then \<lparr>fp_frac = frac + kHiddenBit, fp_exp = exp - kExpBias\<rparr>
         else \<lparr>fp_frac = frac, fp_exp = - kExpBias + 1\<rparr>)"

text \<open>Shifting left until the mask bit is set, at most the width of the word.\<close>

fun shiftUp :: "nat \<Rightarrow> 64 word \<Rightarrow> Fp \<Rightarrow> Fp" where
  "shiftUp 0 m fp = fp"
| "shiftUp (Suc fuel) m fp =
     (if fp_frac fp AND m = 0
      then shiftUp fuel m \<lparr>fp_frac = push_bit 1 (fp_frac fp), fp_exp = fp_exp fp - 1\<rparr>
      else fp)"

definition shiftBy :: "nat \<Rightarrow> Fp \<Rightarrow> Fp" where
  "shiftBy n fp = \<lparr>fp_frac = push_bit n (fp_frac fp), fp_exp = fp_exp fp - int n\<rparr>"

definition fp_normalize :: "Fp \<Rightarrow> Fp" where
  "fp_normalize fp = shiftBy (64 - 52 - 1) (shiftUp 64 kHiddenBit fp)"

definition normalizedBoundaries :: "Fp \<Rightarrow> Fp \<times> Fp" where
  "normalizedBoundaries fp =
     (let upper = shiftBy (64 - 54) (shiftUp 64 (push_bit 1 kHiddenBit)
            \<lparr>fp_frac = push_bit 1 (fp_frac fp) + 1, fp_exp = fp_exp fp - 1\<rparr>);
          l_shift = (if fp_frac fp = kHiddenBit then 2 else 1);
          lower_exp = fp_exp fp - int l_shift;
          lower = \<lparr>fp_frac = push_bit (nat (lower_exp - fp_exp upper)) (push_bit l_shift (fp_frac fp) - 1),
                   fp_exp = fp_exp upper\<rparr>
      in (lower, upper))"

definition fp_multiply :: "Fp \<Rightarrow> Fp \<Rightarrow> Fp" where
  "fp_multiply a b =
     (let kLoMask = 0x00000000FFFFFFFF;
          ah_bl = drop_bit 32 (fp_frac a) * (fp_frac b AND kLoMask);
          al_bh = (fp_frac a AND kLoMask) * drop_bit 32 (fp_frac b);
          al_bl = (fp_frac a AND kLoMask) * (fp_frac b AND kLoMask);
          ah_bh = drop_bit 32 (fp_frac a) * drop_bit 32 (fp_frac b);
          tmp = (ah_bl AND kLoMask) + (al_bh AND kLoMask) + drop_bit 32 al_bl;
          tmp1 = tmp + push_bit 31 1
      in \<lparr>fp_frac = ah_bh + drop_bit 32 ah_bl + drop_bit 32 al_bh + drop_bit 32 tmp1,
          fp_exp = fp_exp a + fp_exp b + 64\<rparr>)"

section \<open>Digits\<close>

text \<open>
  The loop that walks the last digit back. With a zero step it would not move; the condition
  excludes that, as the step is a power of ten within the significand.
\<close>

function roundDigit :: "bytes \<Rightarrow> 64 word \<Rightarrow> 64 word \<Rightarrow> 64 word \<Rightarrow> 64 word \<Rightarrow> bytes" where
  "roundDigit digits delta rem kappa frac =
     (if kappa \<noteq> 0 \<and> rem < frac \<and> delta - rem \<ge> kappa \<and>
         (rem + kappa < frac \<or> frac - rem > rem + kappa - frac)
      then roundDigit (butlast digits @ [last digits - 1]) delta (rem + kappa) kappa frac
      else digits)"
  by pat_completeness auto
termination
proof (relation "measure (\<lambda>(digits, delta, rem, kappa, frac). unat (delta - rem))")
  fix digits :: bytes and delta rem kappa frac :: "64 word"
  assume "kappa \<noteq> 0 \<and> rem < frac \<and> delta - rem \<ge> kappa \<and>
    (rem + kappa < frac \<or> frac - rem > rem + kappa - frac)"
  then have "0 < unat kappa" "unat kappa \<le> unat (delta - rem)"
    by (simp_all add: unat_gt_0 word_le_nat_alt)
  moreover from this have "unat (delta - rem - kappa) = unat (delta - rem) - unat kappa"
    by (simp add: unat_sub word_le_nat_alt)
  ultimately have "unat (delta - rem - kappa) < unat (delta - rem)" by linarith
  then show "((butlast digits @ [last digits - 1], delta, rem + kappa, kappa, frac), (digits, delta, rem, kappa, frac))
      \<in> measure (\<lambda>(digits, delta, rem, kappa, frac). unat (delta - rem))"
    by (simp add: diff_diff_eq)
qed simp

declare roundDigit.simps [simp del]

definition putDigit :: "64 word \<Rightarrow> bytes \<Rightarrow> bytes" where
  "putDigit digit digits = (if digit \<noteq> 0 \<or> digits \<noteq> [] then digits @ [ucast digit + 48] else digits)"

text \<open>
  The integral part, largest divisor first: either it ends inside the boundaries with the digits
  and the exponent, or it leaves the digits to the fractional part.
\<close>

fun integralDigits :: "64 word list \<Rightarrow> nat \<Rightarrow> int \<Rightarrow> 64 word \<Rightarrow> 64 word \<Rightarrow> 64 word \<Rightarrow> 64 word \<Rightarrow> bytes
    \<Rightarrow> (bytes \<times> int) + bytes" where
  "integralDigits [] sh kappa part1 part2 delta wfrac digits = Inr digits"
| "integralDigits (d # divs) sh kappa part1 part2 delta wfrac digits =
     (let digit = take_bit 32 (part1 div d);
          digits1 = putDigit digit digits;
          part1' = part1 - digit * d;
          kappa' = kappa - 1;
          tmp = push_bit sh part1' + part2
      in if tmp \<le> delta then Inl (roundDigit digits1 delta tmp (push_bit sh d) wfrac, kappa')
         else integralDigits divs sh kappa' part1' part2 delta wfrac digits1)"

text \<open>The fractional part; \<open>units\<close> are the entries that the unit pointer passes.\<close>

fun fractionalDigits :: "64 word list \<Rightarrow> nat \<Rightarrow> int \<Rightarrow> 64 word \<Rightarrow> 64 word \<Rightarrow> 64 word \<Rightarrow> bytes
    \<Rightarrow> bytes \<times> int" where
  "fractionalDigits [] sh kappa part2 delta wfrac digits = (digits, kappa)"
| "fractionalDigits (unit # units) sh kappa part2 delta wfrac digits =
     (let p = part2 * 10;
          delta' = delta * 10;
          kappa' = kappa - 1;
          digit = take_bit 32 (drop_bit sh p);
          digits1 = putDigit digit digits;
          one = push_bit sh 1;
          part2' = p AND (one - 1)
      in if part2' < delta' then (roundDigit digits1 delta' part2' one (wfrac * unit), kappa')
         else fractionalDigits units sh kappa' part2' delta' wfrac digits1)"

definition generateDigits :: "Fp \<Rightarrow> Fp \<Rightarrow> Fp \<Rightarrow> int \<Rightarrow> bytes \<times> int" where
  "generateDigits fp upper lower K =
     (let wfrac = fp_frac upper - fp_frac fp;
          delta = fp_frac upper - fp_frac lower;
          sh = nat (- fp_exp upper);
          part1 = drop_bit sh (fp_frac upper);
          part2 = fp_frac upper AND (push_bit sh 1 - 1)
      in case integralDigits (drop 10 kTens) sh 10 part1 part2 delta wfrac [] of
           Inl (digits, kappa) \<Rightarrow> (digits, K + kappa)
         | Inr digits \<Rightarrow>
             (case fractionalDigits (rev (take 19 kTens)) sh 0 part2 delta wfrac digits of
                (digits', kappa) \<Rightarrow> (digits', K + kappa)))"

definition grisu2 :: "double \<Rightarrow> bytes \<times> int" where
  "grisu2 d =
     (let w = buildFp d;
          (lower, upper) = normalizedBoundaries w;
          w1 = fp_normalize w;
          (cp, k) = findCachedPow10 (fp_exp upper);
          w2 = fp_multiply w1 cp;
          upper1 = fp_multiply upper cp;
          lower1 = fp_multiply lower cp;
          lower2 = lower1\<lparr>fp_frac := fp_frac lower1 + 1\<rparr>;
          upper2 = upper1\<lparr>fp_frac := fp_frac upper1 - 1\<rparr>
      in generateDigits w2 upper2 lower2 (- k))"

section \<open>Notation\<close>

definition emitExponent :: "nat \<Rightarrow> bytes" where
  "emitExponent exp =
     (let cent = exp div 100;
          exp1 = exp - cent * 100;
          dec = exp1 div 10;
          exp2 = exp1 - dec * 10
      in (if exp > 99 then [of_nat cent + 48] else []) @
         (if exp1 > 9 then [of_nat dec + 48] else if cent \<noteq> 0 then [48] else []) @
         [of_nat (exp2 mod 10) + 48])"

definition emitDigits :: "bytes \<Rightarrow> int \<Rightarrow> bool \<Rightarrow> bytes" where
  "emitDigits digits K neg =
     (let ndigits = int (length digits);
          exp = \<bar>K + ndigits - 1\<bar>
      in if K \<ge> 0 \<and> exp < ndigits + 7 then digits @ replicate (nat K) 48
         else if K < 0 \<and> (K > -7 \<or> exp < 4) then
           (let offset = ndigits - \<bar>K\<bar> in
            if offset \<le> 0 then str ''0.'' @ replicate (nat (- offset)) 48 @ digits
            else take (nat offset) digits @ str ''.'' @ drop (nat offset) digits)
         else
           let limit = 18 - (if neg then 1 else 0);
               digits1 = take limit digits
           in take 1 digits1 @ (if length digits1 > 1 then str ''.'' @ drop 1 digits1 else []) @
              str ''e'' @ (if K + int (length digits1) - 1 < 0 then str ''-'' else str ''+'') @
              emitExponent (nat exp))"

definition fpconvDtoa :: "double \<Rightarrow> bytes" where
  "fpconvDtoa value =
     (let neg = (value AND kSignMask \<noteq> 0);
          sign = (if neg then str ''-'' else [])
      in if dbl_eq value 0 then sign @ str ''0''
         else if value AND kExpMask = kExpMask
         then sign @ (if value AND kFracMask \<noteq> 0 then str ''nan'' else str ''inf'')
         else case grisu2 value of (digits, K) \<Rightarrow> sign @ emitDigits digits K neg)"

definition double2ll :: "double \<Rightarrow> int option" where
  "double2ll value =
     (if dbl_lt value (dbl_of_int (- 4611686018427387904)) \<or> dbl_lt (dbl_of_int 4611686018427387904) value then None
      else let ll = dbl_trunc value in if dbl_eq (dbl_of_int ll) value then Some ll else None)"

definition d2string :: "double \<Rightarrow> bytes" where
  "d2string value =
     (if dbl_isnan value then str ''nan''
      else if dbl_isinf value then (if dbl_lt 0 value then str ''inf'' else str ''-inf'')
      else case double2ll value of Some ll \<Rightarrow> to_string ll | None \<Rightarrow> fpconvDtoa value)"

section \<open>Integral values\<close>

lemma dbl_isinf_mag: "dbl_isinf v \<Longrightarrow> dbl_mag v = 0x7FF0000000000000"
proof -
  assume i: "dbl_isinf v"
  have "take_bit 63 v = v AND mask 63" by (simp add: take_bit_eq_mask)
  also have "(mask 63 :: double) = kExpMask OR kFracMask" by (simp add: kExpMask_def kFracMask_def mask_eq_exp_minus_1)
  also have "v AND (kExpMask OR kFracMask) = (v AND kExpMask) OR (v AND kFracMask)"
    by (rule bit.conj_disj_distrib)
  also have "\<dots> = kExpMask" using i by (simp add: dbl_isinf_def)
  finally show ?thesis by (simp add: dbl_mag_def kExpMask_def)
qed

lemma dbl_of_int_bounds:
  "dbl_of_int 4611686018427387904 = 0x43D0000000000000" "dbl_of_int (- 4611686018427387904) = 0xC3D0000000000000"
  by (simp_all add: dbl_of_int_def round_ratio_def dbl_make_def kSignMask_def Let_def)

lemma dbl_key_bounds: 
  "dbl_key (0x43D0000000000000) = 0x43D0000000000000" "dbl_key (0xC3D0000000000000) = - 0x43D0000000000000"
  "\<not> dbl_isnan (0x43D0000000000000)" "\<not> dbl_isnan (0xC3D0000000000000)"
  by (simp_all add: dbl_key_def dbl_neg_def dbl_mag_def dbl_isnan_def kExpMask_def kFracMask_def)

lemma double2ll_isinf:
  assumes "dbl_isinf v"
  shows "double2ll v = None"
proof -
  have "\<not> dbl_isnan v" using assms by (simp add: dbl_isnan_def dbl_isinf_def)
  with dbl_key_bounds dbl_isinf_mag [OF assms] show ?thesis by (auto simp: double2ll_def dbl_of_int_bounds dbl_lt_def dbl_key_def [of v])
qed

lemma d2string_double2ll:
  assumes "double2ll v = Some n"
  shows "d2string v = to_string n" "dbl_eq (fst (strtod (d2string v))) v"
proof -
  have e: "dbl_eq (dbl_of_int n) v" using assms by (auto simp: double2ll_def Let_def split: if_splits)
  then have "\<not> dbl_isnan v" "\<not> dbl_isinf v" using assms double2ll_isinf by (auto simp: dbl_eq_def)
  then show s: "d2string v = to_string n" using assms by (simp add: d2string_def)
  from e show "dbl_eq (fst (strtod (d2string v))) v" by (simp add: s strtod_to_string)
qed

lemma double2ll_range:
  assumes "double2ll s = Some n"
  shows "\<bar>n\<bar> < 10 ^ 19"
proof -
  have b: "\<not> dbl_lt s (dbl_of_int (- 4611686018427387904))" "\<not> dbl_lt (dbl_of_int 4611686018427387904) s"
    and n: "n = dbl_trunc s" "dbl_eq (dbl_of_int n) s"
    using assms by (auto simp: double2ll_def Let_def split: if_splits)
  then have "\<not> dbl_isnan s" by (simp add: dbl_eq_def)
  with b have "\<bar>dbl_key s\<bar> \<le> 0x43D0000000000000" by (simp add: dbl_of_int_bounds dbl_lt_def dbl_key_bounds)
  then have m: "dbl_mag s \<le> 0x43D0000000000000" by (auto simp: dbl_key_def split: if_splits)
  define k where "k = dbl_mag s div 2 ^ 52"
  have "k \<le> 1085" using div_le_mono [OF m, of "2 ^ 52"] by (simp add: k_def)
  then have e: "nat (dbl_exp s) \<le> 10" unfolding dbl_exp_def k_def [symmetric] by auto
  define r where "r = dbl_mag s mod 2 ^ 52"
  then have "r < 2 ^ 52" by simp
  then have "dbl_sig s < 2 ^ 53" unfolding dbl_sig_def r_def [symmetric] by simp
  then have "dbl_sig s * 2 ^ nat (dbl_exp s) < 2 ^ 53 * 2 ^ 10"
    using power_increasing [OF e, of "2 :: nat"] by (intro mult_less_le_imp_less) simp_all
  then have "dbl_sig s * 2 ^ nat (dbl_exp s) div 2 ^ nat (- dbl_exp s) < 2 ^ 53 * 2 ^ 10"
    by (rule le_less_trans [OF div_le_dividend])
  then show ?thesis unfolding n(1) by (simp add: dbl_trunc_def Let_def)
qed

lemma double2ll_text:
  assumes "double2ll s = Some n"
  shows "length (to_string n) \<le> 20"
proof -
  have "nat n < 10 ^ 19" "nat (- n) < 10 ^ 19" using double2ll_range [OF assms] by auto
  then show ?thesis
    using nat_digits_length [of 19 "nat n"] nat_digits_length [of 19 "nat (- n)"] by (simp add: to_string_def)
qed

lemma dbl_mag_neg_eq: "dbl_mag x = dbl_mag y \<Longrightarrow> dbl_neg x = dbl_neg y \<Longrightarrow> x = y"
proof -
  assume a: "dbl_mag x = dbl_mag y" "dbl_neg x = dbl_neg y"
  have t: "take_bit 63 x = take_bit 63 y" using a(1) unfolding dbl_mag_def by (rule unsigned_word_eqI)
  have "bit x n = bit y n" if "n < 64" for n
  proof (cases "n < 63")
    case True
    then show ?thesis using arg_cong [OF t, of "\<lambda>w. bit w n"] by (simp add: bit_take_bit_iff)
  next
    case False
    with that have "n = 63" by simp
    then show ?thesis using a(2) by (simp add: dbl_neg_def)
  qed
  then show "x = y" by (intro bit_eqI) simp
qed

lemma dbl_key_nonzero_eq: "dbl_key x = dbl_key y \<Longrightarrow> dbl_key y \<noteq> 0 \<Longrightarrow> x = y"
  by (intro dbl_mag_neg_eq) (auto simp: dbl_key_def split: if_splits)

lemma double2ll_five: "double2ll 0x4014000000000000 = Some 5"
proof -
  have k: "dbl_key 0x4014000000000000 = 0x4014000000000000" "\<not> dbl_isnan 0x4014000000000000"
    "dbl_trunc 0x4014000000000000 = 5"
    by (simp_all add: dbl_trunc_def dbl_key_def dbl_neg_def dbl_mag_def dbl_sig_def dbl_exp_def dbl_isnan_def
        kExpMask_def kFracMask_def)
  have "dbl_of_int 5 = 0x4014000000000000" by (simp add: dbl_of_int_def round_ratio_def dbl_make_def Let_def)
  then show ?thesis by (simp add: double2ll_def dbl_of_int_bounds dbl_lt_def dbl_eq_def k dbl_key_bounds)
qed

end
