(* ===== verification/Strings.thy ===== *)
theory Strings
  imports Double
begin

text \<open>
  The string helpers of \<open>core/strings.h\<close> and the glob matcher of \<open>core/strings.cpp\<close>, which
  \<open>KEYS\<close>, \<open>SCAN MATCH\<close> and the pattern subscriptions call.

  \<open>globMatch\<close> is an iterative matcher with one saved position per open star.  It is modelled with
  the indices of the source (\<open>globLoop\<close>, \<open>classLoop\<close>, \<open>starRun\<close>), and shown to terminate and to
  decide the language of the pattern: the pattern is read as a list of tokens, and a target matches
  when it can be cut into pieces that match the tokens one by one.
\<close>

section \<open>Case folding\<close>

definition toupper :: "byte \<Rightarrow> byte" where
  "toupper c = (if 97 \<le> c \<and> c \<le> 122 then c - 32 else c)"

fun ignoreCaseLoop :: "bytes \<Rightarrow> bytes \<Rightarrow> nat \<Rightarrow> nat \<Rightarrow> bool" where
  "ignoreCaseLoop a b i 0 \<longleftrightarrow> True"
| "ignoreCaseLoop a b i (Suc n) \<longleftrightarrow>
     (if tolower (a ! i) \<noteq> tolower (b ! i) then False else ignoreCaseLoop a b (i + 1) n)"

definition equalsIgnoreCase :: "bytes \<Rightarrow> bytes \<Rightarrow> bool" where
  "equalsIgnoreCase a b \<longleftrightarrow>
     (if length a \<noteq> length b then False else ignoreCaseLoop a b 0 (length a))"

definition toLower :: "bytes \<Rightarrow> bytes" where
  "toLower s = map tolower s"

definition toUpper :: "bytes \<Rightarrow> bytes" where
  "toUpper s = map toupper s"

section \<open>The glob matcher\<close>

text \<open>The lambda \<open>fold\<close>; characters are compared as signed \<open>char\<close>s.\<close>

definition foldCase :: "bool \<Rightarrow> byte \<Rightarrow> byte" where
  "foldCase ci c = (if ci then tolower c else c)"

definition charLess :: "byte \<Rightarrow> byte \<Rightarrow> bool" where
  "charLess a b \<longleftrightarrow> sint a < sint b"

definition inRange :: "bool \<Rightarrow> byte \<Rightarrow> byte \<Rightarrow> byte \<Rightarrow> bool" where
  "inRange ci a b c =
     (let lo = foldCase ci a; hi = foldCase ci b;
          (lo, hi) = if charLess hi lo then (hi, lo) else (lo, hi)
      in \<not> charLess (foldCase ci c) lo \<and> \<not> charLess hi (foldCase ci c))"

text \<open>The run of stars that is collapsed into one: \<open>p\<close> moves to the last of them.\<close>

function starRun :: "bytes \<Rightarrow> nat \<Rightarrow> nat" where
  "starRun pattern p =
     (if p + 1 < length pattern \<and> pattern ! (p + 1) = 42 then starRun pattern (p + 1) else p)"
  by pat_completeness auto
termination by (relation "measure (\<lambda>(pattern, p). length pattern - p)") auto

declare starRun.simps [simp del]

text \<open>The loop over a bracket expression: the cursor of the closing bracket and \<open>matched\<close>.\<close>

function classLoop :: "bool \<Rightarrow> bytes \<Rightarrow> byte \<Rightarrow> nat \<Rightarrow> bool \<Rightarrow> nat \<times> bool" where
  "classLoop ci pattern c cursor matched =
     (if cursor < length pattern \<and> pattern ! cursor \<noteq> 93 then
        if pattern ! cursor = 92 \<and> cursor + 1 < length pattern then
          classLoop ci pattern c (cursor + 2)
            (matched \<or> foldCase ci (pattern ! (cursor + 1)) = foldCase ci c)
        else if cursor + 2 < length pattern \<and> pattern ! (cursor + 1) = 45 \<and>
                pattern ! (cursor + 2) \<noteq> 93 then
          classLoop ci pattern c (cursor + 3)
            (matched \<or> inRange ci (pattern ! cursor) (pattern ! (cursor + 2)) c)
        else
          classLoop ci pattern c (cursor + 1)
            (matched \<or> foldCase ci (pattern ! cursor) = foldCase ci c)
      else (cursor, matched))"
  by pat_completeness auto
termination
  by (relation "measure (\<lambda>(ci, pattern, c, cursor, matched). length pattern - cursor)") auto

declare classLoop.simps [simp del]

text \<open>What the body of the loop does with a pattern character other than a star: \<open>Some p\<close> when the
  target character is consumed and matching goes on at \<open>p\<close>, and \<open>None\<close> when it falls to the
  mismatch case.\<close>

definition classStep :: "bool \<Rightarrow> bytes \<Rightarrow> byte \<Rightarrow> nat \<Rightarrow> nat option" where
  "classStep ci pattern c p =
     (let cursor = p + 1;
          negate = cursor < length pattern \<and> pattern ! cursor = 94;
          cursor = if negate then cursor + 1 else cursor;
          (cursor, matched) = classLoop ci pattern c cursor False
      in if cursor < length pattern \<and> (if negate then \<not> matched else matched)
         then Some (cursor + 1) else None)"

definition literalStep :: "bool \<Rightarrow> bytes \<Rightarrow> byte \<Rightarrow> nat \<Rightarrow> nat option" where
  "literalStep ci pattern c p =
     (let pc = pattern ! p;
          literal = if pc = 92 \<and> p + 1 < length pattern then pattern ! (p + 1) else pc;
          advance = if pc = 92 \<and> p + 1 < length pattern then 2 else 1
      in if foldCase ci literal = foldCase ci c then Some (p + advance) else None)"

definition charStep :: "bool \<Rightarrow> bytes \<Rightarrow> byte \<Rightarrow> nat \<Rightarrow> nat option" where
  "charStep ci pattern c p =
     (if p < length pattern then
        if pattern ! p = 63 then Some (p + 1)
        else if pattern ! p = 91 then classStep ci pattern c p
        else literalStep ci pattern c p
      else None)"

text \<open>The trailing loop: \<open>p\<close> moves past the stars at the end of the pattern.\<close>

function endStars :: "bytes \<Rightarrow> nat \<Rightarrow> nat" where
  "endStars pattern p =
     (if p < length pattern \<and> pattern ! p = 42 then endStars pattern (p + 1) else p)"
  by pat_completeness auto
termination by (relation "measure (\<lambda>(pattern, p). length pattern - p)") auto

declare endStars.simps [simp del]

text \<open>The main loop; \<open>star\<close> is \<open>None\<close> while \<open>star_p\<close> is \<open>npos\<close>.  When the target is used up the
  trailing stars of the pattern are skipped.\<close>

definition star_rank :: "bytes \<Rightarrow> nat \<Rightarrow> nat option \<Rightarrow> nat" where
  "star_rank pattern p star =
     (case star of None \<Rightarrow> length pattern + 1
      | Some s \<Rightarrow> if s < p then length pattern - s else length pattern + 2)"

lemma starRun_bounds: "p \<le> starRun pattern p" "p < length pattern \<Longrightarrow> starRun pattern p < length pattern"
proof (induction pattern p rule: starRun.induct)
  case (1 pattern p)
  { case 1 then show ?case using "1.IH"(1) by (subst starRun.simps) auto }
  { case 2 then show ?case using "1.IH"(2) by (subst starRun.simps) auto }
qed

lemma charStep_less:
  assumes "charStep ci pattern c p = Some q"
  shows "p < q" and "q \<le> length pattern"
proof -
  have "k \<le> fst (classLoop ci pattern c k m)" for k m
  proof (induction ci pattern c k m rule: classLoop.induct)
    case (1 ci pattern c cursor matched)
    then show ?case by (subst classLoop.simps) (auto intro: order_trans [rotated])
  qed
  note ge = this
  show "p < q"
    using assms ge [of "p + 1" False] ge [of "p + 2" False]
    by (auto simp: charStep_def classStep_def literalStep_def Let_def split: if_splits prod.splits)
  show "q \<le> length pattern"
    using assms
    by (auto simp: charStep_def classStep_def literalStep_def Let_def split: if_splits prod.splits)
qed

function (sequential) globLoop :: "bool \<Rightarrow> bytes \<Rightarrow> bytes \<Rightarrow> nat \<Rightarrow> nat \<Rightarrow> nat option \<Rightarrow> nat \<Rightarrow> bool" where
  "globLoop ci pattern target p t star star_t =
     (if t < length target then
        if p < length pattern \<and> pattern ! p = 42 then
          globLoop ci pattern target (starRun pattern p + 1) t (Some (starRun pattern p)) t
        else (case charStep ci pattern (target ! t) p of
            Some q \<Rightarrow> globLoop ci pattern target q (t + 1) star star_t
          | None \<Rightarrow> (case star of
                Some s \<Rightarrow> globLoop ci pattern target (s + 1) (star_t + 1) star (star_t + 1)
              | None \<Rightarrow> False))
      else endStars pattern p = length pattern)"
  by pat_completeness auto
termination
proof (relation "measures [\<lambda>(ci, pattern, target, p, t, star, star_t). star_rank pattern p star,
    \<lambda>(ci, pattern, target, p, t, star, star_t). length target - star_t,
    \<lambda>(ci, pattern, target, p, t, star, star_t). length target - t]", goal_cases)
  case (2 ci pattern target p t star star_t)
  then show ?case
    using starRun_bounds [of p pattern] by (auto simp: star_rank_def split: option.splits)
next
  case (4 ci pattern target p t star star_t q)
  then show ?case using charStep_less [of ci pattern "target ! t" p q]
    by (cases star) (auto simp: star_rank_def)
next
  case (3 ci pattern target p t star star_t s)
  then show ?case by (auto simp: star_rank_def)
qed simp

declare globLoop.simps [simp del]

definition globMatch :: "bytes \<Rightarrow> bytes \<Rightarrow> bool \<Rightarrow> bool" where
  "globMatch pattern target ci = globLoop ci pattern target 0 0 None 0"


section \<open>The language of a pattern\<close>

text \<open>
  A pattern as tokens. A bracket expression that is not closed has no characters that it stands for:
  it is kept as the marker \<open>Unterminated\<close>, and the language below is meant for the patterns without it.
\<close>

datatype class_item = Single byte | Span byte byte

datatype glob_token = Star | AnyChar | Literal byte | Class bool "class_item list" | Unterminated

fun item_ok :: "bool \<Rightarrow> byte \<Rightarrow> class_item \<Rightarrow> bool" where
  "item_ok ci c (Single b) \<longleftrightarrow> foldCase ci c = foldCase ci b"
| "item_ok ci c (Span a b) \<longleftrightarrow>
     sint (foldCase ci c) \<in> {min (sint (foldCase ci a)) (sint (foldCase ci b)) ..
                            max (sint (foldCase ci a)) (sint (foldCase ci b))}"

fun char_ok :: "bool \<Rightarrow> glob_token \<Rightarrow> byte \<Rightarrow> bool" where
  "char_ok ci Star c \<longleftrightarrow> False"
| "char_ok ci AnyChar c \<longleftrightarrow> True"
| "char_ok ci (Literal b) c \<longleftrightarrow> foldCase ci c = foldCase ci b"
| "char_ok ci (Class negate items) c \<longleftrightarrow> negate \<noteq> list_ex (item_ok ci c) items"
| "char_ok ci Unterminated c \<longleftrightarrow> False"

text \<open>The items of a bracket expression and what follows it, \<open>None\<close> when it is not closed.\<close>

fun class_items :: "bytes \<Rightarrow> (class_item list \<times> bytes) option" where
  "class_items [] = None"
| "class_items (c # cs) =
     (if c = 93 then Some ([], cs)
      else if c = 92 \<and> cs \<noteq> [] then
        map_option (map_prod ((#) (Single (hd cs))) id) (class_items (tl cs))
      else if 2 \<le> length cs \<and> cs ! 0 = 45 \<and> cs ! 1 \<noteq> 93 then
        map_option (map_prod ((#) (Span c (cs ! 1))) id) (class_items (drop 2 cs))
      else map_option (map_prod ((#) (Single c)) id) (class_items cs))"

declare class_items.simps(2) [simp del]

lemma class_items_shorter: "class_items cs = Some (items, rest) \<Longrightarrow> length rest < length cs"
proof (induction cs arbitrary: items rest rule: class_items.induct)
  case (2 c cs)
  then show ?case by (fastforce simp: class_items.simps(2) split: if_splits)
qed simp

definition class_token :: "bytes \<Rightarrow> glob_token \<times> bytes" where
  "class_token cs =
     (let negate = cs \<noteq> [] \<and> hd cs = 94 in
      case class_items (if negate then tl cs else cs) of
        None \<Rightarrow> (Unterminated, []) | Some (items, rest) \<Rightarrow> (Class negate items, rest))"

lemma class_token_shorter: "length (snd (class_token cs)) \<le> length cs"
  using class_items_shorter [of cs] class_items_shorter [of "tl cs"]
  by (fastforce simp: class_token_def Let_def split: option.splits)

function (sequential) glob_tokens :: "bytes \<Rightarrow> glob_token list" where
  "glob_tokens [] = []"
| "glob_tokens (c # cs) =
     (if c = 42 then Star # glob_tokens cs
      else if c = 63 then AnyChar # glob_tokens cs
      else if c = 91 then fst (class_token cs) # glob_tokens (snd (class_token cs))
      else if c = 92 \<and> cs \<noteq> [] then Literal (hd cs) # glob_tokens (tl cs)
      else Literal c # glob_tokens cs)"
  by pat_completeness auto
termination
  by (relation "measure length") (auto simp: less_Suc_eq_le class_token_shorter)

declare glob_tokens.simps(2) [simp del]

definition token_matches :: "bool \<Rightarrow> glob_token \<Rightarrow> bytes \<Rightarrow> bool" where
  "token_matches ci tok w \<longleftrightarrow> tok = Star \<or> (\<exists>c. w = [c] \<and> char_ok ci tok c)"

definition glob_language :: "bool \<Rightarrow> glob_token list \<Rightarrow> bytes \<Rightarrow> bool" where
  "glob_language ci toks target \<longleftrightarrow>
     (\<exists>ws. target = concat ws \<and> list_all2 (token_matches ci) toks ws)"

lemma glob_language_Nil [simp]: "glob_language ci [] target \<longleftrightarrow> target = []"
  by (auto simp: glob_language_def)

lemma glob_language_Cons:
  "glob_language ci (tok # toks) target \<longleftrightarrow>
     (\<exists>w rest. target = w @ rest \<and> token_matches ci tok w \<and> glob_language ci toks rest)"
proof
  assume "glob_language ci (tok # toks) target"
  then obtain w ws where "target = concat (w # ws)" "token_matches ci tok w"
    "list_all2 (token_matches ci) toks ws"
    by (auto simp: glob_language_def list_all2_Cons1)
  then show "\<exists>w rest. target = w @ rest \<and> token_matches ci tok w \<and> glob_language ci toks rest"
    by (intro exI [of _ w] exI [of _ "concat ws"]) (auto simp: glob_language_def)
next
  assume "\<exists>w rest. target = w @ rest \<and> token_matches ci tok w \<and> glob_language ci toks rest"
  then obtain w ws where "target = concat (w # ws)" "list_all2 (token_matches ci) (tok # toks) (w # ws)"
    by (auto simp: glob_language_def)
  then show "glob_language ci (tok # toks) target" unfolding glob_language_def by blast
qed

lemma glob_language_char:
  "tok \<noteq> Star \<Longrightarrow> glob_language ci (tok # toks) target \<longleftrightarrow>
     (\<exists>c rest. target = c # rest \<and> char_ok ci tok c \<and> glob_language ci toks rest)"
  by (simp add: glob_language_Cons token_matches_def) (metis append_Cons append_Nil)

lemma glob_language_star:
  "glob_language ci (Star # toks) target \<longleftrightarrow> (\<exists>k \<le> length target. glob_language ci toks (drop k target))"
proof
  assume "glob_language ci (Star # toks) target"
  then obtain w rest where "target = w @ rest" "glob_language ci toks rest"
    by (auto simp: glob_language_Cons)
  then show "\<exists>k \<le> length target. glob_language ci toks (drop k target)"
    by (intro exI [of _ "length w"]) simp
next
  assume "\<exists>k \<le> length target. glob_language ci toks (drop k target)"
  then obtain k where "glob_language ci toks (drop k target)" by blast
  then show "glob_language ci (Star # toks) target"
    unfolding glob_language_Cons token_matches_def by (metis append_take_drop_id)
qed

section \<open>The matcher decides the language\<close>

lemma inRange_item: "inRange ci a b c \<longleftrightarrow> item_ok ci c (Span a b)"
  by (auto simp: inRange_def charLess_def Let_def)

lemma drop_cons: "i < length xs \<Longrightarrow> drop i xs = xs ! i # drop (i + 1) xs"
  by (simp add: Cons_nth_drop_Suc)

lemma classLoop_items:
  "case class_items (drop cursor pattern) of
     None \<Rightarrow> length pattern \<le> fst (classLoop ci pattern c cursor matched)
   | Some (items, rest) \<Rightarrow> (\<exists>k < length pattern. rest = drop (k + 1) pattern \<and>
       classLoop ci pattern c cursor matched = (k, matched \<or> list_ex (item_ok ci c) items))"
proof (induction ci pattern c cursor matched rule: classLoop.induct)
  case (1 ci pattern c cursor matched)
  consider "length pattern \<le> cursor" | "cursor < length pattern" "pattern ! cursor = 93"
    | (esc) "cursor < length pattern" "pattern ! cursor \<noteq> 93"
       "pattern ! cursor = 92" "cursor + 1 < length pattern"
    | (span) "cursor < length pattern" "pattern ! cursor \<noteq> 93"
       "\<not> (pattern ! cursor = 92 \<and> cursor + 1 < length pattern)"
       "cursor + 2 < length pattern" "pattern ! (cursor + 1) = 45" "pattern ! (cursor + 2) \<noteq> 93"
    | (single) "cursor < length pattern" "pattern ! cursor \<noteq> 93"
       "\<not> (pattern ! cursor = 92 \<and> cursor + 1 < length pattern)"
       "\<not> (cursor + 2 < length pattern \<and> pattern ! (cursor + 1) = 45 \<and> pattern ! (cursor + 2) \<noteq> 93)"
    by linarith
  then show ?case
  proof cases
    case esc
    then have "class_items (drop cursor pattern) =
        map_option (map_prod ((#) (Single (pattern ! (cursor + 1)))) id) (class_items (drop (cursor + 2) pattern))"
      by (simp add: drop_cons class_items.simps(2) hd_drop_conv_nth drop_Suc [symmetric] tl_drop [symmetric] del: drop_Suc)
    then show ?thesis using "1.IH"(1) esc
      by (subst (1 2) classLoop.simps) (auto split: option.splits)
  next
    case span
    then have "class_items (drop cursor pattern) =
        map_option (map_prod ((#) (Span (pattern ! cursor) (pattern ! (cursor + 2)))) id) (class_items (drop (cursor + 3) pattern))"
      by (auto simp: drop_cons class_items.simps(2) numeral_3_eq_3)
    then show ?thesis using "1.IH"(2) span
      by (subst (1 2) classLoop.simps) (auto simp: inRange_item split: option.splits)
  next
    case single
    then have "class_items (drop cursor pattern) =
        map_option (map_prod ((#) (Single (pattern ! cursor))) id) (class_items (drop (cursor + 1) pattern))"
      by (auto simp: drop_cons class_items.simps(2))
    then show ?thesis using "1.IH"(3) single
      by (subst (1 2) classLoop.simps) (auto split: option.splits)
  qed (auto simp: drop_cons class_items.simps(2) classLoop.simps [of ci pattern c cursor matched])
qed


lemma classStep_token:
  assumes "p < length pattern" and "pattern ! p = 91"
  obtains q where "glob_tokens (drop p pattern) = fst (class_token (drop (p + 1) pattern)) # glob_tokens (drop q pattern)"
    and "\<And>c. classStep ci pattern c p = (if char_ok ci (fst (class_token (drop (p + 1) pattern))) c then Some q else None)"
proof -
  define negate where "negate \<longleftrightarrow> p + 1 < length pattern \<and> pattern ! (p + 1) = 94"
  define cursor where "cursor = (if negate then p + 2 else p + 1)"
  have n: "(drop (p + 1) pattern \<noteq> [] \<and> hd (drop (p + 1) pattern) = 94) = negate"
    by (auto simp: negate_def hd_drop_conv_nth)
  have d: "(if negate then tl (drop (p + 1) pattern) else drop (p + 1) pattern) = drop cursor pattern"
    by (simp add: cursor_def tl_drop drop_Suc)
  have step: "classStep ci pattern c p = (let (k, matched) = classLoop ci pattern c cursor False
      in if k < length pattern \<and> (if negate then \<not> matched else matched) then Some (k + 1) else None)" for c
    by (simp add: classStep_def Let_def negate_def cursor_def)
  have toks: "glob_tokens (drop p pattern) =
      fst (class_token (drop (p + 1) pattern)) # glob_tokens (snd (class_token (drop (p + 1) pattern)))"
    using assms by (simp add: drop_cons glob_tokens.simps(2))
  note loop = classLoop_items [where cursor = cursor and pattern = pattern and ci = ci and matched = False]
  show thesis
  proof (cases "class_items (drop cursor pattern)")
    case None
    then have "class_token (drop (p + 1) pattern) = (Unterminated, [])"
      unfolding class_token_def Let_def n d by simp
    moreover have "classStep ci pattern c p = None" for c
      using loop [where c = c] None by (auto simp: step split: prod.splits)
    ultimately show thesis using that [of "length pattern"] toks by simp
  next
    case (Some ir)
    then obtain items rest where ir: "class_items (drop cursor pattern) = Some (items, rest)"
      by (cases ir) auto
    then have tok: "class_token (drop (p + 1) pattern) = (Class negate items, rest)"
      unfolding class_token_def Let_def n d by simp
    have k: "\<exists>k < length pattern. rest = drop (k + 1) pattern \<and>
       classLoop ci pattern c cursor False = (k, list_ex (item_ok ci c) items)" for c
      using loop [where c = c] ir by simp
    have "classStep ci pattern c p = (if negate \<noteq> list_ex (item_ok ci c) items
        then Some (length pattern - length rest) else None)" for c
      using k [of c] by (auto simp: step)
    moreover have "rest = drop (length pattern - length rest) pattern"
      using k [of 0] by auto
    ultimately show thesis using that [of "length pattern - length rest"] toks tok by simp
  qed
qed

lemma charStep_token:
  assumes "p < length pattern" and "pattern ! p \<noteq> 42"
  obtains tok q where "tok \<noteq> Star" and "glob_tokens (drop p pattern) = tok # glob_tokens (drop q pattern)"
    and "\<And>c. charStep ci pattern c p = (if char_ok ci tok c then Some q else None)"
proof -
  have class_not_star: "fst (class_token cs) \<noteq> Star" for cs
    by (auto simp: class_token_def Let_def split: option.splits)
  consider "pattern ! p = 63" | "pattern ! p = 91"
    | (esc) "pattern ! p = 92" "p + 1 < length pattern"
    | (lit) "pattern ! p \<noteq> 63" "pattern ! p \<noteq> 91" "\<not> (pattern ! p = 92 \<and> p + 1 < length pattern)"
    by blast
  then show thesis
  proof cases
    case 1
    then show thesis using that [of AnyChar "p + 1"] assms
      by (simp add: drop_cons glob_tokens.simps(2) charStep_def)
  next
    case 2
    obtain q where "glob_tokens (drop p pattern) = fst (class_token (drop (p + 1) pattern)) # glob_tokens (drop q pattern)"
      and "\<And>c. classStep ci pattern c p = (if char_ok ci (fst (class_token (drop (p + 1) pattern))) c then Some q else None)"
      using classStep_token [OF assms(1) 2] by metis
    then show thesis using that [of "fst (class_token (drop (p + 1) pattern))" q] assms(1) 2 class_not_star
      by (simp add: charStep_def)
  next
    case esc
    then show thesis using that [of "Literal (pattern ! (p + 1))" "p + 2"] assms
      by (simp add: drop_cons glob_tokens.simps(2) charStep_def literalStep_def eq_commute)
  next
    case lit
    then show thesis using that [of "Literal (pattern ! p)" "p + 1"] assms
      by (auto simp: drop_cons [of p] glob_tokens.simps(2) charStep_def literalStep_def eq_commute)
  qed
qed

definition matches_from :: "bool \<Rightarrow> bytes \<Rightarrow> bytes \<Rightarrow> nat \<Rightarrow> nat \<Rightarrow> bool" where
  "matches_from ci pattern target p t \<longleftrightarrow>
     t \<le> length target \<and> glob_language ci (glob_tokens (drop p pattern)) (drop t target)"

lemma matches_from_end:
  "t < length target \<Longrightarrow> length pattern \<le> p \<Longrightarrow> \<not> matches_from ci pattern target p t"
  by (simp add: matches_from_def)

lemma matches_from_star:
  assumes "p < length pattern" and "pattern ! p = 42"
  shows "matches_from ci pattern target p t \<longleftrightarrow> (\<exists>k \<ge> t. matches_from ci pattern target (p + 1) k)"
proof
  assume "matches_from ci pattern target p t"
  then obtain k where "t \<le> length target" "k \<le> length target - t"
    "glob_language ci (glob_tokens (drop (p + 1) pattern)) (drop (t + k) target)"
    using assms by (auto simp: matches_from_def drop_cons glob_tokens.simps(2) glob_language_star add.commute)
  then show "\<exists>k \<ge> t. matches_from ci pattern target (p + 1) k"
    by (intro exI [of _ "t + k"]) (simp add: matches_from_def)
next
  assume "\<exists>k \<ge> t. matches_from ci pattern target (p + 1) k"
  then obtain k where "t \<le> k" "k \<le> length target"
    "glob_language ci (glob_tokens (drop (p + 1) pattern)) (drop (k - t) (drop t target))"
    by (auto simp: matches_from_def)
  then show "matches_from ci pattern target p t"
    using assms by (auto simp: matches_from_def drop_cons glob_tokens.simps(2) glob_language_star
        intro!: exI [of _ "k - t"])
qed

lemma matches_from_starRun:
  assumes "p < length pattern" and "pattern ! p = 42"
  shows "matches_from ci pattern target p t \<longleftrightarrow> (\<exists>k \<ge> t. matches_from ci pattern target (starRun pattern p + 1) k)"
  using assms
proof (induction pattern p arbitrary: t rule: starRun.induct)
  case (1 pattern p)
  show ?case
  proof (cases "p + 1 < length pattern \<and> pattern ! (p + 1) = 42")
    case True
    then have "starRun pattern p = starRun pattern (p + 1)" by (subst starRun.simps) simp
    then show ?thesis using "1.IH" [OF True] True "1.prems"
      by (simp add: matches_from_star) (meson order_trans order_refl)
  next
    case False
    then have "starRun pattern p = p" by (subst starRun.simps) (rule if_not_P)
    then show ?thesis using "1.prems" by (simp add: matches_from_star)
  qed
qed

lemma matches_from_char:
  assumes "p < length pattern" and "pattern ! p \<noteq> 42"
  shows "matches_from ci pattern target p t \<longleftrightarrow> t < length target \<and>
     (case charStep ci pattern (target ! t) p of
        None \<Rightarrow> False | Some q \<Rightarrow> matches_from ci pattern target q (t + 1))"
proof -
  obtain tok q where tok: "tok \<noteq> Star" "glob_tokens (drop p pattern) = tok # glob_tokens (drop q pattern)"
    "\<And>c. charStep ci pattern c p = (if char_ok ci tok c then Some q else None)"
    using charStep_token [OF assms] by metis
  show ?thesis
  proof (cases "t < length target")
    case True
    then show ?thesis using tok
      by (auto simp: matches_from_def drop_cons [of t] glob_language_char)
  next
    case False
    then show ?thesis using tok by (auto simp: matches_from_def glob_language_char)
  qed
qed

lemma endStars_matches:
  "p \<le> length pattern \<Longrightarrow>
     endStars pattern p = length pattern \<longleftrightarrow> matches_from ci pattern target p (length target)"
proof (induction pattern p rule: endStars.induct)
  case (1 pattern p)
  show ?case
  proof (cases "p < length pattern \<and> pattern ! p = 42")
    case True
    then have "matches_from ci pattern target p (length target) \<longleftrightarrow> matches_from ci pattern target (p + 1) (length target)"
      by (simp add: matches_from_star) (metis le_antisym matches_from_def order_refl)
    then show ?thesis using True "1.IH" by (subst endStars.simps) simp
  next
    case False
    then have "endStars pattern p = p" by (subst endStars.simps) auto
    moreover have "matches_from ci pattern target p (length target) \<longleftrightarrow> p = length pattern"
    proof (cases "p < length pattern")
      case True
      then show ?thesis using False by (simp add: matches_from_char)
    next
      case F: False
      then show ?thesis using "1.prems" by (simp add: matches_from_def)
    qed
    ultimately show ?thesis by simp
  qed
qed


text \<open>What an iteration relies on when a star is open: the pattern behind the star consumes as many
  characters up to \<open>p\<close> as lie between \<open>star_t\<close> and \<open>t\<close>.  A match that lets the star swallow more
  therefore passes \<open>p\<close> further to the right.\<close>

definition open_star :: "bool \<Rightarrow> bytes \<Rightarrow> bytes \<Rightarrow> nat \<Rightarrow> nat \<Rightarrow> nat option \<Rightarrow> nat \<Rightarrow> bool" where
  "open_star ci pattern target p t star star_t \<longleftrightarrow>
     (case star of None \<Rightarrow> True
      | Some s \<Rightarrow> star_t \<le> t \<and> s < length pattern \<and>
          (\<forall>k. matches_from ci pattern target (s + 1) k \<longrightarrow> matches_from ci pattern target p (k + (t - star_t))))"

definition retry_matches :: "bool \<Rightarrow> bytes \<Rightarrow> bytes \<Rightarrow> nat option \<Rightarrow> nat \<Rightarrow> bool" where
  "retry_matches ci pattern target star star_t \<longleftrightarrow>
     (case star of None \<Rightarrow> False
      | Some s \<Rightarrow> \<exists>k > star_t. matches_from ci pattern target (s + 1) k)"

lemma open_star_new:
  "s < length pattern \<Longrightarrow> open_star ci pattern target (s + 1) t (Some s) t"
  by (simp add: open_star_def)

lemma open_star_char:
  assumes "open_star ci pattern target p t star star_t" "p < length pattern" "pattern ! p \<noteq> 42"
    "charStep ci pattern (target ! t) p = Some q"
  shows "open_star ci pattern target q (t + 1) star star_t"
proof -
  have "matches_from ci pattern target q (Suc k)" if "matches_from ci pattern target p k" for k
  proof -
    obtain tok r where "\<And>c. charStep ci pattern c p = (if char_ok ci tok c then Some r else None)"
      using charStep_token [OF assms(2,3)] by metis
    then show ?thesis using that assms(4)
      by (auto simp: matches_from_char [OF assms(2,3)] split: if_splits option.splits)
  qed
  then show ?thesis using assms(1) by (auto simp: open_star_def Suc_diff_le split: option.splits)
qed

lemma retry_passes:
  assumes "open_star ci pattern target p t star star_t" "retry_matches ci pattern target star star_t"
  shows "\<exists>k > t. matches_from ci pattern target p k"
proof -
  obtain s k where "star = Some s" "star_t < k" "matches_from ci pattern target (s + 1) k"
    using assms(2) by (auto simp: retry_matches_def split: option.splits)
  then show ?thesis using assms(1)
    by (intro exI [of _ "k + (t - star_t)"]) (auto simp: open_star_def)
qed

lemma globLoop_matches:
  assumes "t \<le> length target" and "p \<le> length pattern" and "open_star ci pattern target p t star star_t"
  shows "globLoop ci pattern target p t star star_t \<longleftrightarrow>
    matches_from ci pattern target p t \<or> retry_matches ci pattern target star star_t"
  using assms
proof (induction ci pattern target p t star star_t rule: globLoop.induct)
  case (1 ci pattern target p t star star_t)
  consider (fin) "t = length target"
    | (star) "t < length target" "p < length pattern" "pattern ! p = 42"
    | (char) q where "t < length target" "p < length pattern" "pattern ! p \<noteq> 42"
        "charStep ci pattern (target ! t) p = Some q"
    | (miss) "t < length target" "\<not> (p < length pattern \<and> pattern ! p = 42)"
        "charStep ci pattern (target ! t) p = None"
    using "1.prems"(1) charStep_def by (metis le_neq_implies_less not_Some_eq)
  then show ?case
  proof cases
    case fin
    then have "\<not> retry_matches ci pattern target star star_t"
      using retry_passes [OF "1.prems"(3)] by (auto simp: matches_from_def)
    then show ?thesis using fin "1.prems"(2)
      by (subst globLoop.simps) (simp add: endStars_matches)
  next
    case star
    let ?s = "starRun pattern p"
    have s: "?s < length pattern" using starRun_bounds(2) star(2) .
    have run: "matches_from ci pattern target p u \<longleftrightarrow> (\<exists>k \<ge> u. matches_from ci pattern target (?s + 1) k)" for u
      using matches_from_starRun star by blast
    have "globLoop ci pattern target p t star star_t \<longleftrightarrow>
        matches_from ci pattern target (?s + 1) t \<or> retry_matches ci pattern target (Some ?s) t"
      using star s "1.IH"(1) "1.prems"(1) open_star_new [OF s]
      by (subst globLoop.simps) simp
    also have "\<dots> \<longleftrightarrow> matches_from ci pattern target p t"
      unfolding run by (auto simp: retry_matches_def order_le_less)
    also have "\<dots> \<longleftrightarrow> matches_from ci pattern target p t \<or> retry_matches ci pattern target star star_t"
      using retry_passes [OF "1.prems"(3)] run by (meson less_imp_le order_trans)
    finally show ?thesis .
  next
    case char
    then show ?thesis
      using "1.IH"(3) open_star_char [OF "1.prems"(3) char(2-4)] charStep_less(2) [OF char(4)]
      by (subst globLoop.simps) (simp add: matches_from_char)
  next
    case miss
    have no: "\<not> matches_from ci pattern target p t"
      using miss by (cases "p < length pattern") (auto simp: matches_from_char matches_from_end)
    show ?thesis
    proof (cases star)
      case None
      then show ?thesis using miss no by (subst globLoop.simps) (auto simp: retry_matches_def)
    next
      case (Some s)
      then have bounds: "s < length pattern" "star_t < length target"
        using "1.prems"(3) miss(1) by (auto simp: open_star_def)
      have "globLoop ci pattern target p t star star_t = globLoop ci pattern target (s + 1) (star_t + 1) star (star_t + 1)"
        by (subst globLoop.simps) (simp only: miss Some if_True if_False option.case)
      also have "\<dots> \<longleftrightarrow> matches_from ci pattern target (s + 1) (star_t + 1) \<or>
          retry_matches ci pattern target star (star_t + 1)"
        using "1.IH"(2) [OF miss(1,2,3) Some] bounds open_star_new [OF bounds(1)] Some by simp
      also have "\<dots> \<longleftrightarrow> retry_matches ci pattern target star star_t"
        unfolding Some retry_matches_def option.case by (metis Suc_eq_plus1 Suc_lessD Suc_lessI lessI)
      finally show ?thesis using no by simp
    qed
  qed
qed

lemma language_unterminated: "Unterminated \<in> set toks \<Longrightarrow> \<not> glob_language ci toks target"
  by (induction toks arbitrary: target) (auto simp: glob_language_Cons token_matches_def)

text \<open>C30: \<open>globMatch\<close> returns on every input. On a pattern whose bracket expressions are all closed it
  accepts exactly the language of the pattern: the target can be cut into pieces that match the
  tokens of the pattern one by one, a star taking any piece and every other token one character.
  Retrying only the latest star, which keeps the matcher iterative, therefore never loses a match.
  On a pattern with a bracket expression that is not closed it accepts nothing at all, not
  even the pattern itself, although the comment at that branch says that such a bracket matches
  literally.\<close>

theorem glob_match_correct:
  "(Unterminated \<notin> set (glob_tokens pattern) \<longrightarrow>
      (globMatch pattern target ci \<longleftrightarrow>
        (\<exists>pieces. target = concat pieces \<and> list_all2 (token_matches ci) (glob_tokens pattern) pieces))) \<and>
   (Unterminated \<in> set (glob_tokens pattern) \<longrightarrow> \<not> globMatch pattern target ci)"
proof -
  have "globMatch pattern target ci \<longleftrightarrow> glob_language ci (glob_tokens pattern) target"
    using globLoop_matches [of 0 target 0 pattern ci None 0]
    by (simp add: globMatch_def open_star_def retry_matches_def matches_from_def)
  then show ?thesis using language_unterminated by (auto simp: glob_language_def)
qed

theorem glob_match_correct_witness:
  "globMatch (str ''a*[b-d]'') (str ''axc'') False \<and> \<not> globMatch (str ''[a'') (str ''[a'') False"
proof -
  have t: "glob_tokens (str ''a*[b-d]'') = [Literal 97, Star, Class False [Span 98 100]]"
    "glob_tokens (str ''[a'') = [Unterminated]"
    by (simp_all add: glob_tokens.simps(2) class_token_def class_items.simps(2))
  have "str ''axc'' = concat [[97], [120], [99]] \<and>
      list_all2 (token_matches False) (glob_tokens (str ''a*[b-d]'')) [[97], [120], [99]]"
    unfolding t by (simp add: token_matches_def foldCase_def)
  then have "globMatch (str ''a*[b-d]'') (str ''axc'') False"
    using glob_match_correct [of "str ''a*[b-d]''" "str ''axc''" False] t(1) by fastforce
  then show ?thesis using glob_match_correct [of "str ''[a''" "str ''[a''" False] t(2) by auto
qed

section \<open>Case-insensitive comparison\<close>

lemma ignoreCaseLoop_iff:
  "ignoreCaseLoop a b i n \<longleftrightarrow> (\<forall>j < n. tolower (a ! (i + j)) = tolower (b ! (i + j)))"
  by (induction n arbitrary: i) (auto simp: less_Suc_eq_0_disj)

lemma equalsIgnoreCase_toLower: "equalsIgnoreCase a b \<longleftrightarrow> toLower a = toLower b"
  by (auto simp: equalsIgnoreCase_def ignoreCaseLoop_iff toLower_def list_eq_iff_nth_eq)

lemma tolower_idem [simp]: "tolower (tolower c) = tolower c"
  by (auto simp: tolower_def word_le_nat_alt unat_word_ariths)

lemma tolower_toupper [simp]: "tolower (toupper c) = tolower c"
proof -
  have "unat (c - 32) = unat c - 32" if "97 \<le> c" using that by (simp add: word_le_nat_alt unat_sub)
  then show ?thesis by (auto simp: tolower_def toupper_def word_le_nat_alt)
qed

lemma equalsIgnoreCase_cases:
  "equalsIgnoreCase (toLower s) s" "equalsIgnoreCase (toUpper s) s"
  by (simp_all add: equalsIgnoreCase_toLower toLower_def toUpper_def)

end
