(* ===== verification/Skiplist.thy ===== *)
theory Skiplist
  imports Double "HOL-Library.Product_Lexorder"
begin

text \<open>
  Model of \<open>src/core/skiplist.h\<close> and \<open>skiplist.cpp\<close>. Nodes live in a store from addresses to
  nodes, as the pointers of the source do; every pointer of a level carries its span, a 64-bit
  word, because the removal of a last node relies on the wrap-around of its span. The store is
  total: the address a loop follows is always one that a pointer of the structure holds. The walk
  along one level is bounded by the number of nodes, and the invariant of \<open>Skiplist_Refine\<close>
  shows that the bound is never what stops it.
\<close>

section \<open>Ranges\<close>

definition kSkipListMaxLevel :: nat where
  "kSkipListMaxLevel = 32"

record ScoreRange =
  sr_min :: double
  sr_max :: double
  sr_min_exclusive :: bool
  sr_max_exclusive :: bool

definition sr_isEmpty :: "ScoreRange \<Rightarrow> bool" where
  "sr_isEmpty r =
     (if dbl_lt (sr_max r) (sr_min r) then True
      else if dbl_eq (sr_min r) (sr_max r) \<and> (sr_min_exclusive r \<or> sr_max_exclusive r) then True
      else False)"

text \<open>
  The four conditional comparisons with a bound that the source spells out in place. With a NaN
  the two about one bound are not each other's negation.
\<close>

definition sr_belowMin :: "ScoreRange \<Rightarrow> double \<Rightarrow> bool" where
  "sr_belowMin r score = (if sr_min_exclusive r then dbl_le score (sr_min r) else dbl_lt score (sr_min r))"

definition sr_aboveMax :: "ScoreRange \<Rightarrow> double \<Rightarrow> bool" where
  "sr_aboveMax r score = (if sr_max_exclusive r then dbl_le (sr_max r) score else dbl_lt (sr_max r) score)"

definition sr_pastMin :: "ScoreRange \<Rightarrow> double \<Rightarrow> bool" where
  "sr_pastMin r score = (if sr_min_exclusive r then dbl_lt (sr_min r) score else dbl_le (sr_min r) score)"

definition sr_withinMax :: "ScoreRange \<Rightarrow> double \<Rightarrow> bool" where
  "sr_withinMax r score = (if sr_max_exclusive r then dbl_lt score (sr_max r) else dbl_le score (sr_max r))"

definition sr_containsScore :: "ScoreRange \<Rightarrow> double \<Rightarrow> bool" where
  "sr_containsScore r score =
     (if sr_belowMin r score then False else if sr_aboveMax r score then False else True)"

datatype LexKind = NegInf | LexValue | PosInf

record LexBound =
  lb_kind :: LexKind
  lb_value :: bytes
  lb_exclusive :: bool

record LexRange =
  lr_min :: LexBound
  lr_max :: LexBound

definition lr_aboveMin :: "LexRange \<Rightarrow> bytes \<Rightarrow> bool" where
  "lr_aboveMin r member =
     (if lb_kind (lr_min r) = NegInf then True
      else if lb_kind (lr_min r) = PosInf then False
      else if lb_exclusive (lr_min r) then lb_value (lr_min r) < member else lb_value (lr_min r) \<le> member)"

definition lr_belowMax :: "LexRange \<Rightarrow> bytes \<Rightarrow> bool" where
  "lr_belowMax r member =
     (if lb_kind (lr_max r) = PosInf then True
      else if lb_kind (lr_max r) = NegInf then False
      else if lb_exclusive (lr_max r) then member < lb_value (lr_max r) else member \<le> lb_value (lr_max r))"

definition lr_isEmpty :: "LexRange \<Rightarrow> bool" where
  "lr_isEmpty r =
     (if lb_kind (lr_min r) = PosInf then True
      else if lb_kind (lr_max r) = NegInf then True
      else if lb_kind (lr_min r) = LexValue \<and> lb_kind (lr_max r) = LexValue then
        (if lb_value (lr_max r) < lb_value (lr_min r) then True
         else if lb_value (lr_min r) = lb_value (lr_max r) \<and>
                 (lb_exclusive (lr_min r) \<or> lb_exclusive (lr_max r)) then True
         else False)
      else False)"

section \<open>The structure\<close>

record level =
  lv_forward :: "nat option"
  lv_span :: "64 word"

record slnode =
  nd_member :: bytes
  nd_score :: double
  nd_backward :: "nat option"
  nd_levels :: "level list"

text \<open>\<open>sl_fresh\<close> is the address the next allocation returns; the header has address 0.\<close>

record skiplist =
  sl_heap :: "nat \<Rightarrow> slnode"
  sl_tail :: "nat option"
  sl_length :: nat
  sl_level :: nat
  sl_fresh :: nat

abbreviation (input) sl_header :: nat where
  "sl_header \<equiv> 0"

definition sl_noLevel :: level where
  "sl_noLevel = \<lparr>lv_forward = None, lv_span = 0\<rparr>"

definition sl_new :: skiplist where
  "sl_new = \<lparr>sl_heap = (\<lambda>_. \<lparr>nd_member = [], nd_score = 0, nd_backward = None,
                              nd_levels = replicate kSkipListMaxLevel sl_noLevel\<rparr>),
             sl_tail = None, sl_length = 0, sl_level = 1, sl_fresh = 1\<rparr>"

definition levelAt :: "skiplist \<Rightarrow> nat \<Rightarrow> nat \<Rightarrow> level" where
  "levelAt s a i = nd_levels (sl_heap s a) ! i"

definition updLevel :: "nat \<Rightarrow> nat \<Rightarrow> (level \<Rightarrow> level) \<Rightarrow> skiplist \<Rightarrow> skiplist" where
  "updLevel a i f s =
     s\<lparr>sl_heap := (sl_heap s)(a := (sl_heap s a)\<lparr>nd_levels := (nd_levels (sl_heap s a))[i := f (levelAt s a i)]\<rparr>)\<rparr>"

definition setBackward :: "nat \<Rightarrow> nat option \<Rightarrow> skiplist \<Rightarrow> skiplist" where
  "setBackward a b s = s\<lparr>sl_heap := (sl_heap s)(a := (sl_heap s a)\<lparr>nd_backward := b\<rparr>)\<rparr>"

definition sl_head :: "skiplist \<Rightarrow> nat option" where
  "sl_head s = lv_forward (levelAt s sl_header 0)"

definition isBefore :: "double \<Rightarrow> bytes \<Rightarrow> double \<Rightarrow> bytes \<Rightarrow> bool" where
  "isBefore a_score a_member b_score b_member =
     (if \<not> dbl_eq a_score b_score then dbl_lt a_score b_score else a_member < b_member)"

definition sl_clear :: "skiplist \<Rightarrow> skiplist" where
  "sl_clear s =
     s\<lparr>sl_heap := (sl_heap s)(sl_header := (sl_heap s sl_header)\<lparr>nd_levels := replicate kSkipListMaxLevel sl_noLevel\<rparr>),
       sl_tail := None, sl_length := 0, sl_level := 1\<rparr>"

text \<open>
  The level of a new node, from the draws of the generator from position \<open>n\<close> on. The threshold
  is the truncation of a quarter of \<open>0xFFFF\<close>.
\<close>

fun randomLevelLoop :: "nat \<Rightarrow> (nat \<Rightarrow> 32 word) \<Rightarrow> nat \<Rightarrow> nat \<Rightarrow> nat \<times> nat" where
  "randomLevelLoop 0 rng n level = (level, n + 1)"
| "randomLevelLoop (Suc left) rng n level =
     (if rng n AND 0xFFFF < 16383 then randomLevelLoop left rng (n + 1) (level + 1)
      else (level, n + 1))"

definition randomLevel :: "(nat \<Rightarrow> 32 word) \<Rightarrow> nat \<Rightarrow> nat \<times> nat" where
  "randomLevel rng n = randomLevelLoop (kSkipListMaxLevel - 1) rng n 1"

section \<open>Searching\<close>

text \<open>
  The walk along level \<open>i\<close> while the next node satisfies \<open>go\<close>, adding up the spans, and the
  descent through the levels. The result of the descent lists the node and the rank reached at
  each level, the lowest level first.
\<close>

fun walk :: "nat \<Rightarrow> skiplist \<Rightarrow> nat \<Rightarrow> (slnode \<Rightarrow> bool) \<Rightarrow> nat \<Rightarrow> 64 word \<Rightarrow> nat \<times> 64 word" where
  "walk 0 s i go a rank = (a, rank)"
| "walk (Suc fuel) s i go a rank =
     (case lv_forward (levelAt s a i) of
        None \<Rightarrow> (a, rank)
      | Some b \<Rightarrow>
          if go (sl_heap s b) then walk fuel s i go b (rank + lv_span (levelAt s a i)) else (a, rank))"

fun descend :: "skiplist \<Rightarrow> (slnode \<Rightarrow> bool) \<Rightarrow> nat \<Rightarrow> nat \<Rightarrow> 64 word \<Rightarrow> (nat \<times> 64 word) list" where
  "descend s go 0 a rank = []"
| "descend s go (Suc i) a rank =
     (case walk (sl_length s + 1) s i go a rank of
        (a', rank') \<Rightarrow> descend s go i a' rank' @ [(a', rank')])"

definition sl_search :: "skiplist \<Rightarrow> (slnode \<Rightarrow> bool) \<Rightarrow> (nat \<times> 64 word) list" where
  "sl_search s go = descend s go (sl_level s) sl_header 0"

definition sl_before :: "double \<Rightarrow> bytes \<Rightarrow> slnode \<Rightarrow> bool" where
  "sl_before score member node = isBefore (nd_score node) (nd_member node) score member"

section \<open>Insertion\<close>

text \<open>The levels that only the new node reaches start at the header and span the whole list.\<close>

fun openLevels :: "nat \<Rightarrow> nat \<Rightarrow> skiplist \<Rightarrow> skiplist" where
  "openLevels 0 i s = s"
| "openLevels (Suc cnt) i s =
     openLevels cnt (i + 1) (updLevel sl_header i (\<lambda>l. l\<lparr>lv_span := of_nat (sl_length s)\<rparr>) s)"

text \<open>Linking the new node \<open>x\<close> in at the levels from \<open>i\<close> on, along the search path.\<close>

fun linkLevels :: "nat \<Rightarrow> 64 word \<Rightarrow> nat \<Rightarrow> (nat \<times> 64 word) list \<Rightarrow> skiplist \<Rightarrow> skiplist" where
  "linkLevels x rank0 i [] s = s"
| "linkLevels x rank0 i ((u, r) # path) s =
     (let old = levelAt s u i;
          s1 = updLevel x i (\<lambda>l. l\<lparr>lv_forward := lv_forward old\<rparr>) s;
          s2 = updLevel u i (\<lambda>l. l\<lparr>lv_forward := Some x\<rparr>) s1;
          s3 = updLevel x i (\<lambda>l. l\<lparr>lv_span := lv_span (levelAt s2 u i) - (rank0 - r)\<rparr>) s2;
          s4 = updLevel u i (\<lambda>l. l\<lparr>lv_span := (rank0 - r) + 1\<rparr>) s3
      in linkLevels x rank0 (i + 1) path s4)"

fun bumpSpans :: "nat \<Rightarrow> (nat \<times> 64 word) list \<Rightarrow> skiplist \<Rightarrow> skiplist" where
  "bumpSpans i [] s = s"
| "bumpSpans i ((u, r) # path) s =
     bumpSpans (i + 1) path (updLevel u i (\<lambda>l. l\<lparr>lv_span := lv_span l + 1\<rparr>) s)"

definition sl_insert :: "nat \<Rightarrow> double \<Rightarrow> bytes \<Rightarrow> skiplist \<Rightarrow> skiplist" where
  "sl_insert new_level score member s =
     (let path = sl_search s (sl_before score member);
          opened = (if new_level > sl_level s then new_level - sl_level s else 0);
          path1 = path @ replicate opened (sl_header, 0);
          s1 = openLevels opened (sl_level s) s;
          s2 = s1\<lparr>sl_level := max new_level (sl_level s)\<rparr>;
          x = sl_fresh s2;
          s3 = s2\<lparr>sl_heap := (sl_heap s2)(x := \<lparr>nd_member = member, nd_score = score, nd_backward = None,
                                               nd_levels = replicate new_level sl_noLevel\<rparr>),
                  sl_fresh := x + 1\<rparr>;
          rank0 = snd (path1 ! 0);
          s4 = linkLevels x rank0 0 (take new_level path1) s3;
          s5 = bumpSpans new_level (drop new_level path1) s4;
          u0 = fst (path1 ! 0);
          s6 = setBackward x (if u0 = sl_header then None else Some u0) s5;
          s7 = (case lv_forward (levelAt s6 x 0) of
                  Some f \<Rightarrow> setBackward f (Some x) s6
                | None \<Rightarrow> s6\<lparr>sl_tail := Some x\<rparr>)
      in s7\<lparr>sl_length := sl_length s7 + 1\<rparr>)"

section \<open>Removal\<close>

fun unlinkLevels :: "nat \<Rightarrow> nat \<Rightarrow> (nat \<times> 64 word) list \<Rightarrow> skiplist \<Rightarrow> skiplist" where
  "unlinkLevels t i [] s = s"
| "unlinkLevels t i ((u, r) # path) s =
     unlinkLevels t (i + 1) path
       (if lv_forward (levelAt s u i) = Some t
        then updLevel u i (\<lambda>l. l\<lparr>lv_span := lv_span l + (lv_span (levelAt s t i) - 1),
                                  lv_forward := lv_forward (levelAt s t i)\<rparr>) s
        else updLevel u i (\<lambda>l. l\<lparr>lv_span := lv_span l - 1\<rparr>) s)"

fun dropLevels :: "skiplist \<Rightarrow> nat \<Rightarrow> nat" where
  "dropLevels s 0 = 0"
| "dropLevels s (Suc l) =
     (if Suc l > 1 \<and> lv_forward (levelAt s sl_header l) = None then dropLevels s l else Suc l)"

definition sl_remove :: "double \<Rightarrow> bytes \<Rightarrow> skiplist \<Rightarrow> bool \<times> skiplist" where
  "sl_remove score member s =
     (let path = sl_search s (sl_before score member) in
      case lv_forward (levelAt s (fst (path ! 0)) 0) of
        None \<Rightarrow> (False, s)
      | Some t \<Rightarrow>
          if \<not> dbl_eq (nd_score (sl_heap s t)) score \<or> nd_member (sl_heap s t) \<noteq> member then (False, s)
          else
            let s1 = unlinkLevels t 0 path s;
                s2 = (case lv_forward (levelAt s1 t 0) of
                        Some f \<Rightarrow> setBackward f (nd_backward (sl_heap s1 t)) s1
                      | None \<Rightarrow> s1\<lparr>sl_tail := nd_backward (sl_heap s1 t)\<rparr>);
                s3 = s2\<lparr>sl_level := dropLevels s2 (sl_level s2)\<rparr>
            in (True, s3\<lparr>sl_length := sl_length s3 - 1\<rparr>))"

definition sl_updateScore :: "nat \<Rightarrow> double \<Rightarrow> bytes \<Rightarrow> double \<Rightarrow> skiplist \<Rightarrow> bool \<times> skiplist" where
  "sl_updateScore new_level old_score member new_score s =
     (case sl_remove old_score member s of
        (False, s') \<Rightarrow> (False, s')
      | (True, s') \<Rightarrow> (True, sl_insert new_level new_score member s'))"

section \<open>Queries\<close>

text \<open>The walk of \<open>rankOf\<close> stops as soon as it lands on the member: \<open>Inl\<close> is its return.\<close>

fun rankWalk :: "nat \<Rightarrow> skiplist \<Rightarrow> nat \<Rightarrow> double \<Rightarrow> bytes \<Rightarrow> nat \<Rightarrow> 64 word \<Rightarrow> 64 word + (nat \<times> 64 word)" where
  "rankWalk 0 s i score member a rank = Inr (a, rank)"
| "rankWalk (Suc fuel) s i score member a rank =
     (case lv_forward (levelAt s a i) of
        None \<Rightarrow> Inr (a, rank)
      | Some b \<Rightarrow>
          if \<not> isBefore score member (nd_score (sl_heap s b)) (nd_member (sl_heap s b)) then
            let rank' = rank + lv_span (levelAt s a i) in
            if b \<noteq> sl_header \<and> dbl_eq (nd_score (sl_heap s b)) score \<and> nd_member (sl_heap s b) = member
            then Inl (rank' - 1)
            else rankWalk fuel s i score member b rank'
          else Inr (a, rank))"

fun rankLevels :: "skiplist \<Rightarrow> double \<Rightarrow> bytes \<Rightarrow> nat \<Rightarrow> nat \<Rightarrow> 64 word \<Rightarrow> 64 word option" where
  "rankLevels s score member 0 a rank = None"
| "rankLevels s score member (Suc i) a rank =
     (case rankWalk (sl_length s + 1) s i score member a rank of
        Inl r \<Rightarrow> Some r
      | Inr (a', rank') \<Rightarrow> rankLevels s score member i a' rank')"

definition sl_rankOf :: "double \<Rightarrow> bytes \<Rightarrow> skiplist \<Rightarrow> nat option" where
  "sl_rankOf score member s = map_option unat (rankLevels s score member (sl_level s) sl_header 0)"

fun hopWalk :: "nat \<Rightarrow> skiplist \<Rightarrow> nat \<Rightarrow> 64 word \<Rightarrow> nat \<Rightarrow> 64 word \<Rightarrow> nat \<times> 64 word" where
  "hopWalk 0 s i target a travelled = (a, travelled)"
| "hopWalk (Suc fuel) s i target a travelled =
     (case lv_forward (levelAt s a i) of
        None \<Rightarrow> (a, travelled)
      | Some b \<Rightarrow>
          if travelled + lv_span (levelAt s a i) \<le> target
          then hopWalk fuel s i target b (travelled + lv_span (levelAt s a i))
          else (a, travelled))"

fun hopLevels :: "skiplist \<Rightarrow> 64 word \<Rightarrow> nat \<Rightarrow> nat \<Rightarrow> 64 word \<Rightarrow> nat option" where
  "hopLevels s target 0 a travelled = None"
| "hopLevels s target (Suc i) a travelled =
     (case hopWalk (sl_length s + 1) s i target a travelled of
        (a', travelled') \<Rightarrow>
          if travelled' = target \<and> a' \<noteq> sl_header then Some a'
          else hopLevels s target i a' travelled')"

definition sl_nodeByRank :: "nat \<Rightarrow> skiplist \<Rightarrow> nat option" where
  "sl_nodeByRank rank s =
     (if rank \<ge> sl_length s then None
      else hopLevels s (of_nat rank + 1) (sl_level s) sl_header 0)"

definition sl_firstInRange :: "ScoreRange \<Rightarrow> skiplist \<Rightarrow> nat option" where
  "sl_firstInRange r s =
     (if sr_isEmpty r \<or> sl_length s = 0 then None
      else case sl_tail s of
        None \<Rightarrow> None
      | Some t \<Rightarrow>
          if sr_belowMin r (nd_score (sl_heap s t)) then None
          else
            let path = sl_search s (\<lambda>n. \<not> sr_pastMin r (nd_score n)) in
            case lv_forward (levelAt s (fst (path ! 0)) 0) of
              None \<Rightarrow> None
            | Some a \<Rightarrow> if sr_aboveMax r (nd_score (sl_heap s a)) then None else Some a)"

definition sl_lastInRange :: "ScoreRange \<Rightarrow> skiplist \<Rightarrow> nat option" where
  "sl_lastInRange r s =
     (if sr_isEmpty r \<or> sl_length s = 0 then None
      else case lv_forward (levelAt s sl_header 0) of
        None \<Rightarrow> None
      | Some f \<Rightarrow>
          if sr_aboveMax r (nd_score (sl_heap s f)) then None
          else
            let path = sl_search s (\<lambda>n. sr_withinMax r (nd_score n));
                a = fst (path ! 0) in
            if a = sl_header then None
            else if sr_belowMin r (nd_score (sl_heap s a)) then None
            else Some a)"

definition sl_countInRange :: "ScoreRange \<Rightarrow> skiplist \<Rightarrow> nat" where
  "sl_countInRange r s =
     (case sl_firstInRange r s of
        None \<Rightarrow> 0
      | Some first \<Rightarrow>
          (case sl_lastInRange r s of
             None \<Rightarrow> 0
           | Some lst \<Rightarrow>
               (case (sl_rankOf (nd_score (sl_heap s first)) (nd_member (sl_heap s first)) s,
                      sl_rankOf (nd_score (sl_heap s lst)) (nd_member (sl_heap s lst)) s) of
                  (Some first_rank, Some last_rank) \<Rightarrow> last_rank - first_rank + 1
                | _ \<Rightarrow> 0)))"

text \<open>The chain of the lowest level, from a node on.\<close>

fun chainFrom :: "nat \<Rightarrow> skiplist \<Rightarrow> nat option \<Rightarrow> nat list" where
  "chainFrom 0 s a = []"
| "chainFrom (Suc fuel) s None = []"
| "chainFrom (Suc fuel) s (Some a) = a # chainFrom fuel s (lv_forward (levelAt s a 0))"

definition sl_entry :: "skiplist \<Rightarrow> nat \<Rightarrow> bytes \<times> double" where
  "sl_entry s a = (nd_member (sl_heap s a), nd_score (sl_heap s a))"

definition sl_toList :: "skiplist \<Rightarrow> (bytes \<times> double) list" where
  "sl_toList s = map (sl_entry s) (chainFrom (sl_length s) s (sl_head s))"

end
