(* ===== verification/Skiplist_Refine.thy ===== *)
theory Skiplist_Refine
  imports Skiplist
begin

text \<open>
  The skiplist as a sorted sequence. The invariant names the sequence of addresses; at each level
  a node points to the next node that is high enough, and its span is the number of positions to
  it, or to the end. The search is shown to reach at each level the last high enough node before
  the sought position together with its rank, which makes insertion, removal and the rank and
  range queries operations on the sorted sequence.
\<close>

section \<open>Levels as hops over the sequence\<close>

definition height :: "skiplist \<Rightarrow> nat \<Rightarrow> nat" where
  "height s a = length (nd_levels (sl_heap s a))"

text \<open>The first node higher than \<open>i\<close> and the number of positions to it, or to the end.\<close>

fun hop :: "(nat \<Rightarrow> nat) \<Rightarrow> nat \<Rightarrow> nat list \<Rightarrow> nat option \<times> nat" where
  "hop h i [] = (None, 0)"
| "hop h i (a # as) = (if i < h a then (Some a, 1) else (fst (hop h i as), Suc (snd (hop h i as))))"

abbreviation low :: "(nat \<Rightarrow> nat) \<Rightarrow> nat \<Rightarrow> nat list \<Rightarrow> bool" where
  "low h i xs \<equiv> \<forall>b \<in> set xs. h b \<le> i"

lemma hop_low: "low h i xs \<Longrightarrow> hop h i (xs @ ys) = (fst (hop h i ys), length xs + snd (hop h i ys))"
  by (induction xs) auto

lemma hop_none: "low h i xs \<Longrightarrow> hop h i xs = (None, length xs)"
  using hop_low [of xs h i "[]"] by simp

lemma hop_high: "low h i xs \<Longrightarrow> i < h b \<Longrightarrow> hop h i (xs @ b # ys) = (Some b, Suc (length xs))"
  by (simp add: hop_low)

lemma hop_mem: "fst (hop h i xs) = Some b \<Longrightarrow> b \<in> set xs \<and> i < h b"
  by (induction xs) (auto split: if_splits)

lemma hop_cong: "(\<And>b. b \<in> set xs \<Longrightarrow> h b = h' b) \<Longrightarrow> hop h i xs = hop h' i xs"
  by (induction xs) auto

lemma high_split:
  assumes "\<not> low h i xs"
  obtains p b q where "xs = p @ b # q" "i < h b" "low h i p"
proof -
  from assms have "\<exists>b \<in> set xs. i < h b" by (auto simp: not_le)
  then obtain p b q where "xs = p @ b # q" "i < h b" "\<forall>c \<in> set p. \<not> i < h c"
    using split_list_first_prop [of xs "\<lambda>b. i < h b"] by blast
  with that show thesis by (auto simp: not_less)
qed

definition node_ok :: "skiplist \<Rightarrow> nat \<Rightarrow> nat list \<Rightarrow> bool" where
  "node_ok s a q \<longleftrightarrow> (\<forall>i < height s a. lv_forward (levelAt s a i) = fst (hop (height s) i q) \<and>
     (i < sl_level s \<longrightarrow> lv_span (levelAt s a i) = of_nat (snd (hop (height s) i q))))"

definition linked :: "skiplist \<Rightarrow> nat list \<Rightarrow> bool" where
  "linked s qs \<longleftrightarrow> (\<forall>p a q. qs = p @ a # q \<longrightarrow> node_ok s a q)"

lemma linkedD: "linked s qs \<Longrightarrow> qs = p @ a # q \<Longrightarrow> node_ok s a q"
  by (auto simp: linked_def)

lemma node_okD:
  assumes "node_ok s a q" and "i < height s a"
  shows "lv_forward (levelAt s a i) = fst (hop (height s) i q)"
    and "i < sl_level s \<Longrightarrow> lv_span (levelAt s a i) = of_nat (snd (hop (height s) i q))"
  using assms by (auto simp: node_ok_def)

section \<open>Invariant\<close>

definition skey :: "skiplist \<Rightarrow> nat \<Rightarrow> int \<times> bytes" where
  "skey s a = (dbl_key (nd_score (sl_heap s a)), nd_member (sl_heap s a))"

definition sl_inv :: "skiplist \<Rightarrow> nat list \<Rightarrow> bool" where
  "sl_inv s as \<longleftrightarrow>
     distinct (sl_header # as) \<and> (\<forall>a \<in> set (sl_header # as). a < sl_fresh s) \<and>
     length as = sl_length s \<and> sl_length s < 2 ^ 63 \<and>
     height s sl_header = kSkipListMaxLevel \<and> 1 \<le> sl_level s \<and> sl_level s \<le> kSkipListMaxLevel \<and>
     (\<forall>a \<in> set as. 1 \<le> height s a \<and> height s a \<le> sl_level s) \<and>
     linked s (sl_header # as) \<and>
     (\<forall>p a q. as = p @ a # q \<longrightarrow> nd_backward (sl_heap s a) = (if p = [] then None else Some (last p))) \<and>
     sl_tail s = (if as = [] then None else Some (last as)) \<and>
     (\<forall>a \<in> set as. \<not> dbl_isnan (nd_score (sl_heap s a))) \<and>
     sorted_wrt (<) (map (skey s) as)"

section \<open>The search\<close>

text \<open>\<open>u\<close> is the last node of \<open>pre\<close> higher than \<open>i\<close>, at position \<open>r\<close>.\<close>

definition reach :: "(nat \<Rightarrow> nat) \<Rightarrow> nat \<Rightarrow> nat list \<Rightarrow> nat \<times> 64 word \<Rightarrow> bool" where
  "reach h i pre ur \<longleftrightarrow> (\<exists>p q. pre = p @ fst ur # q \<and> i < h (fst ur) \<and> low h i q \<and> snd ur = of_nat (length p))"

lemma walk_reach:
  assumes "linked s (pre @ zs)" and "\<And>b. b \<in> set pre \<Longrightarrow> b \<noteq> hd pre \<Longrightarrow> go (sl_heap s b)"
    and "\<And>b. b \<in> set zs \<Longrightarrow> \<not> go (sl_heap s b)" and "i < sl_level s" and "distinct pre"
  shows "pre = p @ a # q \<Longrightarrow> i < height s a \<Longrightarrow> length q < fuel \<Longrightarrow>
    reach (height s) i pre (walk fuel s i go a (of_nat (length p)))"
proof (induction fuel arbitrary: p a q)
  case (Suc fuel)
  have ok: "node_ok s a (q @ zs)" using linkedD [OF assms(1), of p a "q @ zs"] Suc.prems(1) by simp
  note f = node_okD [OF ok Suc.prems(2)]
  show ?case
  proof (cases "low (height s) i q")
    case True
    then have h: "hop (height s) i (q @ zs) = (fst (hop (height s) i zs), length q + snd (hop (height s) i zs))"
      by (rule hop_low)
    have "walk (Suc fuel) s i go a (of_nat (length p)) = (a, of_nat (length p))"
    proof (cases "fst (hop (height s) i zs)")
      case None
      with f(1) h show ?thesis by simp
    next
      case (Some b)
      with hop_mem assms(3) have "\<not> go (sl_heap s b)" by blast
      with Some f(1) h show ?thesis by simp
    qed
    with True Suc.prems show ?thesis by (auto simp: reach_def)
  next
    case False
    then obtain q1 b q2 where q: "q = q1 @ b # q2" "i < height s b" "low (height s) i q1" by (rule high_split)
    then have h: "hop (height s) i (q @ zs) = (Some b, Suc (length q1))" by (simp add: hop_high)
    have "b \<in> set pre" "b \<noteq> hd pre" using assms(5) Suc.prems(1) q(1) by (cases p; auto)+
    then have "go (sl_heap s b)" by (rule assms(2))
    then have w: "walk (Suc fuel) s i go a (of_nat (length p)) = walk fuel s i go b (of_nat (length (p @ a # q1)))"
      using f h assms(4) by (simp add: ac_simps)
    show ?thesis unfolding w
      using Suc.IH [of "p @ a # q1" b q2] Suc.prems q by simp
  qed
qed simp

lemma descend_reach:
  assumes "linked s (pre @ zs)" and "\<And>b. b \<in> set pre \<Longrightarrow> b \<noteq> hd pre \<Longrightarrow> go (sl_heap s b)"
    and "\<And>b. b \<in> set zs \<Longrightarrow> \<not> go (sl_heap s b)" and "distinct pre" and "length pre \<le> sl_length s + 1"
  shows "k \<le> sl_level s \<Longrightarrow> pre = p @ a # q \<Longrightarrow> k \<le> height s a \<Longrightarrow> r = of_nat (length p) \<Longrightarrow>
    length (descend s go k a r) = k \<and> (\<forall>i < k. reach (height s) i pre (descend s go k a r ! i))"
proof (induction k arbitrary: p a q r)
  case (Suc i)
  obtain u v where w: "walk (sl_length s + 1) s i go a r = (u, v)" by (cases "walk (sl_length s + 1) s i go a r")
  have "reach (height s) i pre (walk (sl_length s + 1) s i go a (of_nat (length p)))"
    using Suc.prems assms(5) by (intro walk_reach [of s pre zs go, OF assms(1-3) _ assms(4)]) auto
  then have re: "reach (height s) i pre (u, v)" using w Suc.prems(4) by simp
  then obtain p' q' where "pre = p' @ u # q'" "i < height s u" "v = of_nat (length p')"
    by (auto simp: reach_def)
  with Suc.IH [of p' u q' v] Suc.prems(1) have "length (descend s go i u v) = i"
    "\<forall>j < i. reach (height s) j pre (descend s go i u v ! j)" by simp_all
  with re w show ?case by (auto simp: nth_append less_Suc_eq)
qed simp

lemma search_reach:
  assumes "sl_inv s (ys @ zs)" and "\<And>b. b \<in> set ys \<Longrightarrow> go (sl_heap s b)" and "\<And>b. b \<in> set zs \<Longrightarrow> \<not> go (sl_heap s b)"
  shows "length (sl_search s go) = sl_level s"
    and "i < sl_level s \<Longrightarrow> reach (height s) i (sl_header # ys) (sl_search s go ! i)"
proof -
  have "length (descend s go (sl_level s) sl_header 0) = sl_level s \<and>
      (\<forall>i < sl_level s. reach (height s) i (sl_header # ys) (descend s go (sl_level s) sl_header 0 ! i))"
    using assms by (intro descend_reach [where zs = zs and p = "[]" and q = ys]) (auto simp: sl_inv_def)
  then show "length (sl_search s go) = sl_level s"
    and "i < sl_level s \<Longrightarrow> reach (height s) i (sl_header # ys) (sl_search s go ! i)"
    by (simp_all add: sl_search_def)
qed

lemma reach_unique:
  assumes "reach h i pre ur" and "pre = p @ a # q" and "i < h a" and "low h i q" and "distinct pre"
  shows "ur = (a, of_nat (length p))"
proof -
  obtain u r where ur: "ur = (u, r)" by (cases ur)
  then obtain p' q' where p': "pre = p' @ u # q'" "i < h u" "low h i q'" "r = of_nat (length p')"
    using assms(1) by (auto simp: reach_def)
  have e: "p @ a # q = p' @ u # q'" using assms(2) p'(1) by simp
  have "\<not> length p < length p'"
  proof
    assume "length p < length p'"
    then obtain w where "p' = p @ a # w" "q = w @ u # q'"
      using e by (auto simp: append_eq_append_conv2 Cons_eq_append_conv)
    with assms(4) p'(2) show False by auto
  qed
  moreover have "\<not> length p' < length p"
  proof
    assume "length p' < length p"
    then obtain w where "p = p' @ u # w" "q' = w @ a # q"
      using e [symmetric] by (auto simp: append_eq_append_conv2 Cons_eq_append_conv)
    with assms(3) p'(3) show False by auto
  qed
  ultimately have "length p = length p'" by simp
  with e have "p = p' \<and> a = u" by simp
  with ur p'(4) show ?thesis by simp
qed

section \<open>Updates of the store\<close>

lemma levelAt_updLevel [simp]:
  "levelAt (updLevel a i f s) b j = (if b = a \<and> j = i \<and> i < height s a then f (levelAt s a i) else levelAt s b j)"
  by (cases "i < height s a") (auto simp: levelAt_def updLevel_def height_def nth_list_update list_update_beyond)

lemma nth_Cons_shift: "i \<noteq> k \<Longrightarrow> k \<le> i \<Longrightarrow> (x # xs) ! (i - k) = xs ! (i - (k + 1))"
  by (simp add: nth_Cons')

text \<open>Everything but the levels of the nodes.\<close>

definition same_frame :: "skiplist \<Rightarrow> skiplist \<Rightarrow> bool" where
  "same_frame s s' \<longleftrightarrow> (\<forall>a. nd_member (sl_heap s' a) = nd_member (sl_heap s a) \<and>
     nd_score (sl_heap s' a) = nd_score (sl_heap s a) \<and> nd_backward (sl_heap s' a) = nd_backward (sl_heap s a)) \<and>
     height s' = height s \<and> sl_tail s' = sl_tail s \<and> sl_length s' = sl_length s \<and>
     sl_level s' = sl_level s \<and> sl_fresh s' = sl_fresh s"

lemma same_frame_refl: "same_frame s s"
  by (simp add: same_frame_def)

lemma same_frame_trans: "same_frame s t \<Longrightarrow> same_frame t u \<Longrightarrow> same_frame s u"
  by (simp add: same_frame_def)

lemma same_frame_updLevel: "same_frame s (updLevel a i f s)"
  by (auto simp: same_frame_def updLevel_def height_def)

lemma height_updLevel [simp]: "height (updLevel a i f s) = height s"
  using same_frame_updLevel [of s a i f] by (simp add: same_frame_def)

lemma openLevels_frame: "same_frame s (openLevels cnt i s)"
proof (induction cnt arbitrary: i s)
  case (Suc cnt)
  show ?case unfolding openLevels.simps by (rule same_frame_trans [OF same_frame_updLevel Suc.IH])
qed (simp add: same_frame_refl)

lemma linkLevels_frame: "same_frame s (linkLevels x r0 i path s)"
proof (induction path arbitrary: i s)
  case (Cons ur path)
  obtain u r where "ur = (u, r)" by (cases ur)
  then show ?case
    by (simp only: linkLevels.simps Let_def) (intro same_frame_trans [OF _ Cons.IH] same_frame_trans [OF _ same_frame_updLevel] same_frame_updLevel)
qed (simp add: same_frame_refl)

lemma bumpSpans_frame: "same_frame s (bumpSpans i path s)"
proof (induction path arbitrary: i s)
  case (Cons ur path)
  obtain u r where "ur = (u, r)" by (cases ur)
  then show ?case by simp (intro same_frame_trans [OF _ Cons.IH] same_frame_updLevel)
qed (simp add: same_frame_refl)

lemma unlinkLevels_frame: "same_frame s (unlinkLevels t i path s)"
proof (induction path arbitrary: i s)
  case (Cons ur path)
  obtain u r where "ur = (u, r)" by (cases ur)
  then show ?case by simp (intro conjI impI same_frame_trans [OF _ Cons.IH] same_frame_updLevel)
qed (simp add: same_frame_refl)

lemma openLevels_level:
  "levelAt (openLevels cnt k s) a i =
   (if a = sl_header \<and> k \<le> i \<and> i < k + cnt \<and> i < height s sl_header
    then (levelAt s a i)\<lparr>lv_span := of_nat (sl_length s)\<rparr> else levelAt s a i)"
proof (induction cnt arbitrary: k s)
  case (Suc cnt)
  have l: "sl_length (updLevel a i f s) = sl_length s" for a i f by (simp add: updLevel_def)
  show ?case by (auto simp: Suc.IH l)
qed auto

lemma linkLevels_level:
  assumes "x \<notin> fst ` set path" and "\<forall>j < length path. k + j < height s (fst (path ! j))" and "k + length path \<le> height s x"
  shows "levelAt (linkLevels x r0 k path s) a i =
    (if k \<le> i \<and> i < k + length path then
       (if a = x then (levelAt s x i)\<lparr>lv_forward := lv_forward (levelAt s (fst (path ! (i - k))) i),
                         lv_span := lv_span (levelAt s (fst (path ! (i - k))) i) - (r0 - snd (path ! (i - k)))\<rparr>
        else if a = fst (path ! (i - k)) then \<lparr>lv_forward = Some x, lv_span = r0 - snd (path ! (i - k)) + 1\<rparr>
        else levelAt s a i)
     else levelAt s a i)"
  using assms
proof (induction path arbitrary: k s)
  case (Cons ur path)
  obtain u r where ur: "ur = (u, r)" by (cases ur)
  define s1 where "s1 = updLevel x k (\<lambda>l. l\<lparr>lv_forward := lv_forward (levelAt s u k)\<rparr>) s"
  define s2 where "s2 = updLevel u k (\<lambda>l. l\<lparr>lv_forward := Some x\<rparr>) s1"
  define s3 where "s3 = updLevel x k (\<lambda>l. l\<lparr>lv_span := lv_span (levelAt s2 u k) - (r0 - r)\<rparr>) s2"
  define s4 where "s4 = updLevel u k (\<lambda>l. l\<lparr>lv_span := (r0 - r) + 1\<rparr>) s3"
  have l: "linkLevels x r0 k (ur # path) s = linkLevels x r0 (k + 1) path s4"
    by (simp add: ur s1_def s2_def s3_def s4_def Let_def)
  have h: "height s1 = height s" "height s2 = height s" "height s3 = height s" "height s4 = height s"
    by (simp_all add: s1_def s2_def s3_def s4_def)
  have b: "x \<noteq> u" "k < height s u" "k < height s x" using Cons.prems ur by force+
  have 4: "levelAt s4 c j = (if c = x \<and> j = k then (levelAt s x k)\<lparr>lv_forward := lv_forward (levelAt s u k),
      lv_span := lv_span (levelAt s u k) - (r0 - r)\<rparr>
      else if c = u \<and> j = k then \<lparr>lv_forward = Some x, lv_span = r0 - r + 1\<rparr> else levelAt s c j)" for c j
    using b by (auto simp: s4_def s3_def s2_def s1_def)
  have p: "x \<notin> fst ` set path" "\<forall>j < length path. k + 1 + j < height s4 (fst (path ! j))" "k + 1 + length path \<le> height s4 x"
    using Cons.prems h by force+
  show ?case
  proof (cases "i = k")
    case True
    then show ?thesis unfolding l Cons.IH [OF p] using b by (auto simp: 4 ur)
  next
    case False
    then have "k \<le> i \<Longrightarrow> (ur # path) ! (i - k) = path ! (i - (k + 1))" by (rule nth_Cons_shift)
    with False show ?thesis unfolding l Cons.IH [OF p] by (auto simp: 4)
  qed
qed auto

lemma bumpSpans_level:
  assumes "\<forall>j < length path. k + j < height s (fst (path ! j))"
  shows "levelAt (bumpSpans k path s) a i =
    (if k \<le> i \<and> i < k + length path \<and> a = fst (path ! (i - k))
     then (levelAt s a i)\<lparr>lv_span := lv_span (levelAt s a i) + 1\<rparr> else levelAt s a i)"
  using assms
proof (induction path arbitrary: k s)
  case (Cons ur path)
  obtain u r where ur: "ur = (u, r)" by (cases ur)
  define s1 where "s1 = updLevel u k (\<lambda>l. l\<lparr>lv_span := lv_span l + 1\<rparr>) s"
  have l: "bumpSpans k (ur # path) s = bumpSpans (k + 1) path s1" by (simp add: ur s1_def)
  have p: "\<forall>j < length path. k + 1 + j < height s1 (fst (path ! j))" using Cons.prems by (force simp: s1_def)
  have b: "k < height s u" using Cons.prems ur by force
  show ?case
  proof (cases "i = k")
    case True
    then show ?thesis unfolding l Cons.IH [OF p] using b by (auto simp: s1_def ur)
  next
    case False
    then have "k \<le> i \<Longrightarrow> (ur # path) ! (i - k) = path ! (i - (k + 1))" by (rule nth_Cons_shift)
    with False show ?thesis unfolding l Cons.IH [OF p] by (auto simp: s1_def)
  qed
qed auto

lemma unlinkLevels_level:
  assumes "t \<notin> fst ` set path" and "\<forall>j < length path. k + j < height s (fst (path ! j))"
  shows "levelAt (unlinkLevels t k path s) a i =
    (if k \<le> i \<and> i < k + length path \<and> a = fst (path ! (i - k)) then
       (if lv_forward (levelAt s a i) = Some t
        then \<lparr>lv_forward = lv_forward (levelAt s t i), lv_span = lv_span (levelAt s a i) + (lv_span (levelAt s t i) - 1)\<rparr>
        else (levelAt s a i)\<lparr>lv_span := lv_span (levelAt s a i) - 1\<rparr>)
     else levelAt s a i)"
  using assms
proof (induction path arbitrary: k s)
  case (Cons ur path)
  obtain u r where ur: "ur = (u, r)" by (cases ur)
  define s1 where "s1 = (if lv_forward (levelAt s u k) = Some t
     then updLevel u k (\<lambda>l. l\<lparr>lv_span := lv_span l + (lv_span (levelAt s t k) - 1),
                               lv_forward := lv_forward (levelAt s t k)\<rparr>) s
     else updLevel u k (\<lambda>l. l\<lparr>lv_span := lv_span l - 1\<rparr>) s)"
  have l: "unlinkLevels t k (ur # path) s = unlinkLevels t (k + 1) path s1" by (simp add: ur s1_def)
  have h: "height s1 = height s" by (simp add: s1_def)
  have p: "t \<notin> fst ` set path" "\<forall>j < length path. k + 1 + j < height s1 (fst (path ! j))" using Cons.prems by (force simp: h)+
  have b: "k < height s u" "t \<noteq> u" using Cons.prems ur by force+
  show ?case
  proof (cases "i = k")
    case True
    then show ?thesis unfolding l Cons.IH [OF p] using b by (auto simp: s1_def ur)
  next
    case False
    then have "k \<le> i \<Longrightarrow> (ur # path) ! (i - k) = path ! (i - (k + 1))" by (rule nth_Cons_shift)
    moreover have "levelAt s1 c i = levelAt s c i" for c using False by (auto simp: s1_def)
    ultimately show ?thesis using False unfolding l Cons.IH [OF p] by auto
  qed
qed auto

section \<open>Insertion\<close>

lemma linked_append:
  "linked s (xs @ ys) \<longleftrightarrow> (\<forall>p a q. xs = p @ a # q \<longrightarrow> node_ok s a (q @ ys)) \<and> linked s ys"
proof
  assume l: "linked s (xs @ ys)"
  then show "(\<forall>p a q. xs = p @ a # q \<longrightarrow> node_ok s a (q @ ys)) \<and> linked s ys"
    by (auto simp: linked_def)
next
  assume r: "(\<forall>p a q. xs = p @ a # q \<longrightarrow> node_ok s a (q @ ys)) \<and> linked s ys"
  show "linked s (xs @ ys)" unfolding linked_def
  proof (intro allI impI)
    fix p a q
    assume "xs @ ys = p @ a # q"
    then consider w where "xs = p @ a # w" "q = w @ ys" | w where "p = xs @ w" "ys = w @ a # q"
      by (auto simp: append_eq_append_conv2 Cons_eq_append_conv append_eq_Cons_conv)
    then show "node_ok s a q" using r by cases (auto simp: linked_def)
  qed
qed

lemma linked_Cons: "linked s (a # q) \<longleftrightarrow> node_ok s a q \<and> linked s q"
  using linked_append [of s "[a]" q] by (auto simp: Cons_eq_append_conv)

lemma node_ok_cong:
  assumes "height t a = height s a" and "\<And>b. b \<in> set q \<Longrightarrow> height t b = height s b" and "sl_level t = sl_level s"
    and "\<And>i. i < height s a \<Longrightarrow> levelAt t a i = levelAt s a i"
  shows "node_ok t a q = node_ok s a q"
proof -
  have "hop (height t) i q = hop (height s) i q" for i by (rule hop_cong) (simp add: assms(2))
  with assms show ?thesis by (auto simp: node_ok_def)
qed

lemma linked_cong:
  assumes "\<And>b. b \<in> set q \<Longrightarrow> height t b = height s b" and "sl_level t = sl_level s"
    and "\<And>b i. b \<in> set q \<Longrightarrow> i < height s b \<Longrightarrow> levelAt t b i = levelAt s b i"
  shows "linked t q = linked s q"
  using assms
proof (induction q)
  case (Cons a q)
  from node_ok_cong [of t a s q] Cons show ?case by (simp add: linked_Cons)
qed (simp add: linked_def)

text \<open>The levels of the structure after a node \<open>x\<close> has been put in behind \<open>pre\<close>.\<close>

lemma linked_insert:
  assumes l: "linked s (pre @ zs)" and d: "distinct (pre @ zs)" "x \<notin> set (pre @ zs)" "pre \<noteq> []"
    and r: "\<And>i. i < sl_level s \<Longrightarrow> reach (height s) i pre (path i)"
    and L: "sl_level t = sl_level s" "H \<le> sl_level s" "\<And>b. b \<in> set (tl pre @ zs) \<Longrightarrow> height s b \<le> sl_level s"
    and h: "height t = (height s)(x := H)" and r0: "rank0 = of_nat (length pre - 1)"
    and t: "\<And>a i. a \<in> set (pre @ zs) \<Longrightarrow> i < height s a \<Longrightarrow> levelAt t a i =
       (if i < sl_level s \<and> a = fst (path i) then
          (if i < H then \<lparr>lv_forward = Some x, lv_span = rank0 - snd (path i) + 1\<rparr>
           else (levelAt s a i)\<lparr>lv_span := lv_span (levelAt s a i) + 1\<rparr>)
        else levelAt s a i)"
    and x: "\<And>i. i < H \<Longrightarrow> levelAt t x i = \<lparr>lv_forward = lv_forward (levelAt s (fst (path i)) i),
       lv_span = lv_span (levelAt s (fst (path i)) i) - (rank0 - snd (path i))\<rparr>"
  shows "linked t (pre @ x # zs)"
proof -
  have hz: "hop (height t) i zs = hop (height s) i zs" for i using d h by (intro hop_cong) auto
  have hx: "height t x = H" by (simp add: h)
  have at_path: "\<exists>p q. pre = p @ fst (path i) # q \<and> i < height s (fst (path i)) \<and> low (height s) i q \<and>
      snd (path i) = of_nat (length p) \<and> rank0 - snd (path i) = of_nat (length q) \<and>
      node_ok s (fst (path i)) (q @ zs)" if i: "i < sl_level s" for i
  proof -
    from r [OF i] obtain p q where p: "pre = p @ fst (path i) # q" "i < height s (fst (path i))"
      "low (height s) i q" "snd (path i) = of_nat (length p)" by (auto simp: reach_def)
    moreover have "rank0 - snd (path i) = of_nat (length q)" using p(1,4) r0 by simp
    moreover have "node_ok s (fst (path i)) (q @ zs)" using linkedD [OF l, of p] p(1) by simp
    ultimately show ?thesis by blast
  qed
  have "node_ok t a (q @ x # zs)" if pq: "pre = p @ a # q" for p a q
    unfolding node_ok_def
  proof (intro allI impI)
    fix i
    assume "i < height t a"
    then have i: "i < height s a" "a \<in> set pre" "a \<noteq> x" using h d pq by auto
    have q: "height t b = height s b" if "b \<in> set q" for b using that d(2) h pq by auto
    then have lq: "low (height t) i q = low (height s) i q" by simp
    have ok: "node_ok s a (q @ zs)" using linkedD [OF l, of p] pq by simp
    note f = node_okD [OF ok i(1)]
    show "lv_forward (levelAt t a i) = fst (hop (height t) i (q @ x # zs)) \<and>
      (i < sl_level t \<longrightarrow> lv_span (levelAt t a i) = of_nat (snd (hop (height t) i (q @ x # zs))))"
    proof (cases "low (height s) i q")
      case False
      then obtain q1 b q2 where b: "q = q1 @ b # q2" "i < height s b" "low (height s) i q1" by (rule high_split)
      have n: "hop (height s) i (q @ zs) = (Some b, Suc (length q1))" using b by (simp add: hop_high)
      have m: "hop (height t) i (q @ x # zs) = (Some b, Suc (length q1))" using b q by (simp add: hop_high)
      have "a \<noteq> fst (path i)" if "i < sl_level s"
      proof
        assume e: "a = fst (path i)"
        from at_path [OF that] e obtain p' q' where pq': "pre = p' @ a # q'" and lq': "low (height s) i q'" by auto
        have "a \<notin> set p" "a \<notin> set q" using d(1) pq by auto
        then have "q' = q" using pq pq' append_Cons_eq_iff [of a p q p' q'] by simp
        with lq' False show False by simp
      qed
      then have "levelAt t a i = levelAt s a i" using t [of a i] i by auto
      with f n m L(1) show ?thesis by simp
    next
      case True
      have o: "hop (height s) i (q @ zs) = (fst (hop (height s) i zs), length q + snd (hop (height s) i zs))"
        using True by (rule hop_low)
      have n: "hop (height t) i (q @ x # zs) =
          (if i < H then (Some x, Suc (length q))
           else (fst (hop (height s) i zs), Suc (length q + snd (hop (height s) i zs))))"
        using True lq hx by (simp add: hop_low hz)
      show ?thesis
      proof (cases "i < sl_level s")
        case iL: True
        have "path i = (a, of_nat (length p))" using r [OF iL] pq i(1) True d(1) by (intro reach_unique [of _ i pre]) auto
        then have e: "a = fst (path i)" "rank0 - snd (path i) = of_nat (length q)" using pq r0 by simp_all
        have "levelAt t a i = (if i < H then \<lparr>lv_forward = Some x, lv_span = of_nat (length q) + 1\<rparr>
            else (levelAt s a i)\<lparr>lv_span := lv_span (levelAt s a i) + 1\<rparr>)"
          using t [of a i] i iL e by simp
        with f o n iL L(1) show ?thesis by (simp add: ac_simps)
      next
        case False
        then have "\<not> i < H" using L(2) by simp
        with f(1) o n t [of a i] i False L(1) show ?thesis by simp
      qed
    qed
  qed
  moreover have "node_ok t x zs"
    unfolding node_ok_def
  proof (intro allI impI)
    fix i
    assume "i < height t x"
    then have i: "i < H" "i < sl_level s" using h L(2) by simp_all
    from at_path [OF i(2)] obtain p q where p: "i < height s (fst (path i))" "low (height s) i q"
      "rank0 - snd (path i) = of_nat (length q)" "node_ok s (fst (path i)) (q @ zs)" by blast
    note f = node_okD [OF p(4,1)]
    have "hop (height s) i (q @ zs) = (fst (hop (height s) i zs), length q + snd (hop (height s) i zs))"
      using p(2) by (rule hop_low)
    with f i x [OF i(1)] p(3) hz show "lv_forward (levelAt t x i) = fst (hop (height t) i zs) \<and>
      (i < sl_level t \<longrightarrow> lv_span (levelAt t x i) = of_nat (snd (hop (height t) i zs)))" by simp
  qed
  moreover have "linked t zs"
  proof -
    have "fst (path i) \<notin> set zs" if "i < sl_level s" for i using at_path [OF that] d(1) by (metis IntI Un_iff disjoint_iff distinct_append in_set_conv_decomp)
    then have "levelAt t b i = levelAt s b i" if "b \<in> set zs" "i < height s b" for b i
      using t [of b i] that by auto
    then have "linked t zs = linked s zs" using d(2) h L(1) by (intro linked_cong) auto
    with l show ?thesis by (simp add: linked_append)
  qed
  ultimately show ?thesis by (auto simp: linked_append linked_Cons)
qed

end
