(* ===== verification/Skiplist_Spec.thy ===== *)
theory Skiplist_Spec
  imports Skiplist_Refine
begin

text \<open>
  The operations of the skiplist on the sorted sequence it stands for: insertion puts the member at
  its place in the order, removal takes exactly the named member out, and the queries by rank and by
  score range agree with positions in the sequence. The last node's span relies on wrap-around.
\<close>

section \<open>Order\<close>

lemma sl_before_key:
  assumes "\<not> dbl_isnan (nd_score n)" and "\<not> dbl_isnan score"
  shows "sl_before score member n \<longleftrightarrow> (dbl_key (nd_score n), nd_member n) < (dbl_key score, member)"
  using assms by (auto simp: sl_before_def isBefore_def dbl_eq_def dbl_lt_def)

lemma sorted_split:
  assumes "sorted_wrt (<) (map f as)"
  obtains ys zs where "as = ys @ zs" "\<forall>a \<in> set ys. f a < k" "\<forall>a \<in> set zs. (k :: 'a :: linorder) \<le> f a"
proof -
  let ?ys = "takeWhile (\<lambda>a. f a < k) as" and ?zs = "dropWhile (\<lambda>a. f a < k) as"
  have "\<forall>a \<in> set ?zs. k \<le> f a"
  proof (cases ?zs)
    case (Cons z rest)
    then have "\<not> f z < k" by (metis hd_dropWhile list.distinct(1) list.sel(1))
    moreover have "sorted_wrt (<) (map f ?zs)" using assms by (metis map_append sorted_wrt_append takeWhile_dropWhile_id)
    ultimately show ?thesis using Cons by auto
  next
    case Nil
    then show ?thesis unfolding Nil by simp
  qed
  moreover have "\<forall>a \<in> set ?ys. f a < k" by (auto dest: set_takeWhileD)
  ultimately show thesis using that [of ?ys ?zs] by simp
qed

section \<open>Opening levels\<close>

lemma sl_invD:
  assumes "sl_inv s as"
  shows "distinct as" "sl_header \<notin> set as" "\<And>a. a \<in> set as \<Longrightarrow> a < sl_fresh s" "0 < sl_fresh s" "length as = sl_length s"
    "sl_length s < 2 ^ 63" "height s sl_header = 32" "1 \<le> sl_level s" "sl_level s \<le> 32"
    "\<And>a. a \<in> set as \<Longrightarrow> 1 \<le> height s a" "\<And>a. a \<in> set as \<Longrightarrow> height s a \<le> sl_level s"
    "linked s (sl_header # as)"
    "\<And>p a q. as = p @ a # q \<Longrightarrow> nd_backward (sl_heap s a) = (if p = [] then None else Some (last p))"
    "sl_tail s = (if as = [] then None else Some (last as))"
    "\<And>a. a \<in> set as \<Longrightarrow> \<not> dbl_isnan (nd_score (sl_heap s a))" "sorted_wrt (<) (map (skey s) as)"
  using assms by (auto simp: sl_inv_def kSkipListMaxLevel_def)

lemma same_frameD:
  assumes "same_frame s t"
  shows "nd_member (sl_heap t a) = nd_member (sl_heap s a)" "nd_score (sl_heap t a) = nd_score (sl_heap s a)"
    "nd_backward (sl_heap t a) = nd_backward (sl_heap s a)" "height t = height s" "sl_tail t = sl_tail s"
    "sl_length t = sl_length s" "sl_level t = sl_level s" "sl_fresh t = sl_fresh s" "skey t = skey s"
  using assms by (auto simp: same_frame_def skey_def fun_eq_iff)

lemma height_level_update [simp]: "height (s\<lparr>sl_level := n\<rparr>) = height s" "levelAt (s\<lparr>sl_level := n\<rparr>) = levelAt s"
  "skey (s\<lparr>sl_level := n\<rparr>) = skey s"
  by (auto simp: height_def levelAt_def skey_def fun_eq_iff)

lemma sl_open_inv:
  assumes "sl_inv s as" and "opened = (if H > sl_level s then H - sl_level s else 0)" and "H \<le> 32"
    and "s2 = (openLevels opened (sl_level s) s)\<lparr>sl_level := max H (sl_level s)\<rparr>"
  shows "sl_inv s2 as" "height s2 = height s" "sl_fresh s2 = sl_fresh s" "sl_length s2 = sl_length s"
    "sl_level s2 = max H (sl_level s)" "\<And>a. sl_entry s2 a = sl_entry s a" "skey s2 = skey s"
proof -
  note i = sl_invD [OF assms(1)]
  let ?s1 = "openLevels opened (sl_level s) s"
  note f = same_frameD [OF openLevels_frame [of s opened "sl_level s"]]
  show e: "height s2 = height s" "sl_fresh s2 = sl_fresh s" "sl_length s2 = sl_length s"
    "sl_level s2 = max H (sl_level s)" "skey s2 = skey s" using f by (simp_all add: assms(4))
  show "\<And>a. sl_entry s2 a = sl_entry s a" using f by (simp add: assms(4) sl_entry_def)
  have l: "levelAt s2 a i = (if a = 0 \<and> sl_level s \<le> i \<and> i < max H (sl_level s) \<and> i < 32
      then (levelAt s a i)\<lparr>lv_span := of_nat (sl_length s)\<rparr> else levelAt s a i)" for a i
    using i(7) by (simp add: assms(2,4) openLevels_level)
  have "node_ok s2 a q" if pq: "sl_header # as = p @ a # q" for p a q
    unfolding node_ok_def
  proof (intro allI impI)
    fix j
    assume "j < height s2 a"
    then have j: "j < height s a" using e by simp
    have ok: "node_ok s a q" using linkedD [OF i(12) pq] .
    note n = node_okD [OF ok j]
    show "lv_forward (levelAt s2 a j) = fst (hop (height s2) j q) \<and>
      (j < sl_level s2 \<longrightarrow> lv_span (levelAt s2 a j) = of_nat (snd (hop (height s2) j q)))"
    proof (cases "j < sl_level s")
      case True
      with n l e show ?thesis by simp
    next
      case False
      have "a = sl_header"
      proof (rule ccontr)
        assume "a \<noteq> sl_header"
        then have "a \<in> set as" using pq by (cases p) auto
        with i(11) j False show False by fastforce
      qed
      then have a: "a = 0" "q = as" using pq i(2) by (cases p; auto)+
      have "low (height s) j as" using i(11) False by force
      then have "hop (height s) j q = (None, sl_length s)" using hop_none [of as "height s" j] a(2) i(5) by simp
      with n l e False a(1) j i(7) show ?thesis by simp
    qed
  qed
  then have "linked s2 (sl_header # as)" by (simp add: linked_def)
  with i e f show "sl_inv s2 as"
    by (auto simp: sl_inv_def kSkipListMaxLevel_def assms(3,4) le_max_iff_disj)
qed

section \<open>Insertion\<close>

lemma setBackward_simps [simp]:
  "levelAt (setBackward a b s) = levelAt s" "height (setBackward a b s) = height s"
  "skey (setBackward a b s) = skey s" "sl_level (setBackward a b s) = sl_level s"
  "sl_length (setBackward a b s) = sl_length s" "sl_fresh (setBackward a b s) = sl_fresh s"
  "sl_tail (setBackward a b s) = sl_tail s" "sl_entry (setBackward a b s) = sl_entry s"
  "nd_backward (sl_heap (setBackward a b s) c) = (if c = a then b else nd_backward (sl_heap s c))"
  "nd_score (sl_heap (setBackward a b s) c) = nd_score (sl_heap s c)"
  by (auto simp: setBackward_def levelAt_def height_def skey_def sl_entry_def fun_eq_iff)

lemma sl_update_simps [simp]:
  "levelAt (s\<lparr>sl_tail := t\<rparr>) = levelAt s" "height (s\<lparr>sl_tail := t\<rparr>) = height s" "skey (s\<lparr>sl_tail := t\<rparr>) = skey s"
  "sl_entry (s\<lparr>sl_tail := t\<rparr>) = sl_entry s" "levelAt (s\<lparr>sl_length := n\<rparr>) = levelAt s" "height (s\<lparr>sl_length := n\<rparr>) = height s"
  "skey (s\<lparr>sl_length := n\<rparr>) = skey s" "sl_entry (s\<lparr>sl_length := n\<rparr>) = sl_entry s" "sl_entry (s\<lparr>sl_level := n\<rparr>) = sl_entry s"
  by (auto simp: levelAt_def height_def skey_def sl_entry_def fun_eq_iff)

lemma reach_mem: "reach h i pre ur \<Longrightarrow> fst ur \<in> set pre \<and> i < h (fst ur)"
  by (auto simp: reach_def)

text \<open>At the lowest level the search stops at the last node of the prefix.\<close>

lemma reach_zero:
  assumes "reach h 0 (sl_header # ys) ur" and "\<And>a. a \<in> set ys \<Longrightarrow> 1 \<le> h a"
  shows "ur = (last (sl_header # ys), of_nat (length ys))"
proof -
  from assms(1) obtain p q where p: "sl_header # ys = p @ fst ur # q" "low h 0 q" "snd ur = of_nat (length p)"
    by (auto simp: reach_def)
  have "set q \<subseteq> set ys" using p(1) by (cases p) auto
  with p(2) assms(2) have "q = []" by (cases q) fastforce+
  with p(1) have "last (sl_header # ys) = fst ur" "length ys = length p"
    by (metis last_snoc) (metis \<open>q = []\<close> p(1) length_append_singleton length_Cons nat.inject)
  with p(3) show ?thesis by (cases ur) simp
qed

lemma sl_insert_levels:
  assumes inv: "sl_inv s as" and as: "as = ys @ zs" and H: "1 \<le> H" "H \<le> 32" "H \<le> sl_level s"
    and path: "length path = sl_level s" "\<And>i. i < sl_level s \<Longrightarrow> reach (height s) i (sl_header # ys) (path ! i)"
    and s3: "s3 = s\<lparr>sl_heap := (sl_heap s)(sl_fresh s := \<lparr>nd_member = member, nd_score = score, nd_backward = None,
        nd_levels = replicate H sl_noLevel\<rparr>), sl_fresh := sl_fresh s + 1\<rparr>"
    and t: "t = bumpSpans H (drop H path) (linkLevels (sl_fresh s) (snd (path ! 0)) 0 (take H path) s3)"
  shows "same_frame s3 t" "height t = (height s)(sl_fresh s := H)" "linked t (sl_header # ys @ sl_fresh s # zs)"
proof -
  note i = sl_invD [OF inv]
  let ?x = "sl_fresh s" and ?r0 = "snd (path ! 0)"
  have x: "?x \<noteq> 0" "?x \<notin> set as" using i(3,4) by auto
  have pm: "fst (path ! j) \<in> set (0 # ys)" "j < height s (fst (path ! j))" "fst (path ! j) \<noteq> ?x" if "j < sl_level s" for j
    using reach_mem [OF path(2) [OF that]] x as by auto
  have h3: "height s3 = (height s)(?x := H)" by (auto simp: s3 height_def fun_eq_iff)
  have l3: "levelAt s3 a j = (if a = ?x then replicate H sl_noLevel ! j else levelAt s a j)" for a j
    by (simp add: s3 levelAt_def)
  let ?s4 = "linkLevels ?x ?r0 0 (take H path) s3"
  have f4: "same_frame s3 ?s4" by (rule linkLevels_frame)
  show "same_frame s3 t" unfolding t by (rule same_frame_trans [OF f4 bumpSpans_frame])
  from same_frameD(4) [OF this] h3 show ht: "height t = (height s)(?x := H)" by simp
  have tk: "x \<in> set (take H path) \<Longrightarrow> fst x \<noteq> ?x" for x
    using pm(3) path(1) by (metis in_set_conv_nth in_set_takeD)
  have c4: "?x \<notin> fst ` set (take H path)" "\<forall>j < length (take H path). 0 + j < height s3 (fst (take H path ! j))"
    "0 + length (take H path) \<le> height s3 ?x"
    using tk pm H path(1) by (force simp: h3)+
  have l4: "levelAt ?s4 a j = (if j < H then
       (if a = ?x then \<lparr>lv_forward = lv_forward (levelAt s (fst (path ! j)) j),
                         lv_span = lv_span (levelAt s (fst (path ! j)) j) - (?r0 - snd (path ! j))\<rparr>
        else if a = fst (path ! j) then \<lparr>lv_forward = Some ?x, lv_span = ?r0 - snd (path ! j) + 1\<rparr>
        else levelAt s a j) else levelAt s3 a j)" for a j
  proof -
    have "j < H \<Longrightarrow> j < sl_level s" using H by simp
    then show ?thesis unfolding linkLevels_level [OF c4]
      using pm(3) path(1) H by (auto simp: l3 sl_noLevel_def)
  qed
  have "\<forall>j < length (drop H path). H + j < height ?s4 (fst (drop H path ! j))"
    using same_frameD(4) [OF f4] pm path(1) H by (auto simp: h3)
  note l5 = bumpSpans_level [OF this]
  have lt: "levelAt t a j = (if H \<le> j \<and> j < sl_level s \<and> a = fst (path ! j)
      then (levelAt s a j)\<lparr>lv_span := lv_span (levelAt s a j) + 1\<rparr> else levelAt ?s4 a j)" if "a \<noteq> ?x" for a j
    unfolding t l5 using path(1) H that by (auto simp: l4 l3)
  have lx: "levelAt t ?x j = levelAt ?s4 ?x j" for j
    unfolding t l5 using path(1) H pm(3) [of j] by auto
  have "linked t ((sl_header # ys) @ ?x # zs)"
  proof (rule linked_insert [where s = s and path = "\<lambda>i. path ! i" and H = H and ?rank0.0 = ?r0])
    show "linked s ((sl_header # ys) @ zs)" using i(12) as by simp
    show "distinct ((sl_header # ys) @ zs)" "?x \<notin> set ((sl_header # ys) @ zs)" using i(1,2) x as by auto
    show "sl_level t = sl_level s" using same_frameD(7) [OF \<open>same_frame s3 t\<close>] by (simp add: s3)
    show "height s b \<le> sl_level s" if "b \<in> set (tl (sl_header # ys) @ zs)" for b using i(11) as that by simp
    show "?r0 = of_nat (length (sl_header # ys) - 1)"
      using reach_zero [OF path(2) [of 0]] i(8,10) as by simp
    fix a j
    assume a: "a \<in> set ((sl_header # ys) @ zs)" "j < height s a"
    then have "a \<noteq> ?x" using x as by auto
    then show "levelAt t a j = (if j < sl_level s \<and> a = fst (path ! j) then
          (if j < H then \<lparr>lv_forward = Some ?x, lv_span = ?r0 - snd (path ! j) + 1\<rparr>
           else (levelAt s a j)\<lparr>lv_span := lv_span (levelAt s a j) + 1\<rparr>)
        else levelAt s a j)" using H lt by (auto simp: l4 l3)
  next
    fix j
    assume "j < H"
    then show "levelAt t ?x j = \<lparr>lv_forward = lv_forward (levelAt s (fst (path ! j)) j),
       lv_span = lv_span (levelAt s (fst (path ! j)) j) - (?r0 - snd (path ! j))\<rparr>" by (simp add: lx l4)
  qed (use path(2) H ht in auto)
  then show "linked t (sl_header # ys @ ?x # zs)" by simp
qed

lemma insert_split:
  assumes "ys @ x # zs = p @ a # q"
  obtains w where "ys = p @ a # w" "q = w @ x # zs" | "p = ys" "a = x" "q = zs"
    | w where "p = ys @ x # w" "zs = w @ a # q"
  using assms by (auto simp: append_eq_append_conv2 Cons_eq_append_conv append_eq_Cons_conv)

lemma low_zero: "linked t (pre @ x # zs) \<Longrightarrow> 0 < height t x \<Longrightarrow> (\<And>a. a \<in> set zs \<Longrightarrow> 0 < height t a) \<Longrightarrow>
  lv_forward (levelAt t x 0) = (if zs = [] then None else Some (hd zs))"
  using node_okD(1) [of t x zs 0] linkedD [of t "pre @ x # zs" pre x zs] by (cases zs) auto

lemma sl_insert_inv:
  assumes inv: "sl_inv s as" and H: "1 \<le> H" "H \<le> 32" and nn: "\<not> dbl_isnan score"
    and new: "\<And>a. a \<in> set as \<Longrightarrow> skey s a \<noteq> (dbl_key score, member)" and len: "sl_length s + 1 < 2 ^ 63"
  obtains ys zs where "as = ys @ zs" "\<And>a. a \<in> set ys \<Longrightarrow> skey s a < (dbl_key score, member)"
    "\<And>a. a \<in> set zs \<Longrightarrow> (dbl_key score, member) < skey s a"
    "sl_inv (sl_insert H score member s) (ys @ sl_fresh s # zs)"
    "\<And>a. a \<in> set as \<Longrightarrow> sl_entry (sl_insert H score member s) a = sl_entry s a"
    "sl_entry (sl_insert H score member s) (sl_fresh s) = (member, score)"
proof -
  let ?k = "(dbl_key score, member)" and ?x = "sl_fresh s"
  note i = sl_invD [OF inv]
  obtain ys zs where yz: "as = ys @ zs" "\<forall>a \<in> set ys. skey s a < ?k" "\<forall>a \<in> set zs. ?k \<le> skey s a"
    using sorted_split [OF i(16), of ?k] by metis
  have bk: "sl_before score member (sl_heap s a) \<longleftrightarrow> skey s a < ?k" if "a \<in> set as" for a
    using sl_before_key [OF i(15) [OF that] nn, of member] by (simp add: skey_def)
  define path where "path = sl_search s (sl_before score member)"
  have sr: "length path = sl_level s" "\<And>j. j < sl_level s \<Longrightarrow> reach (height s) j (sl_header # ys) (path ! j)"
    using search_reach [of s ys zs "sl_before score member"] inv yz bk by (force simp: path_def)+
  define opened where "opened = (if H > sl_level s then H - sl_level s else 0)"
  define s2 where "s2 = (openLevels opened (sl_level s) s)\<lparr>sl_level := max H (sl_level s)\<rparr>"
  note o = sl_open_inv [OF inv opened_def H(2) s2_def]
  define path1 where "path1 = path @ replicate opened (sl_header, 0)"
  have p1: "length path1 = sl_level s2" using sr(1) o(5) by (simp add: path1_def opened_def)
  have r1: "reach (height s2) j (sl_header # ys) (path1 ! j)" if "j < sl_level s2" for j
  proof (cases "j < sl_level s")
    case True
    with sr o(2) show ?thesis by (simp add: path1_def nth_append)
  next
    case False
    then have "path1 ! j = (0, 0)" using that sr(1) p1 by (simp add: path1_def nth_append)
    moreover have "low (height s) j ys" using i(11) yz(1) False by force
    moreover have "j < 32" using that o(5) H(2) i(9) by simp
    ultimately show ?thesis using i(7) o(2)
      unfolding reach_def by (intro exI [of _ "[]"] exI [of _ ys]) simp
  qed
  have H2: "H \<le> sl_level s2" using o(5) by simp
  define s3 where "s3 = s2\<lparr>sl_heap := (sl_heap s2)(sl_fresh s2 := \<lparr>nd_member = member, nd_score = score, nd_backward = None,
        nd_levels = replicate H sl_noLevel\<rparr>), sl_fresh := sl_fresh s2 + 1\<rparr>"
  define t where "t = bumpSpans H (drop H path1) (linkLevels (sl_fresh s2) (snd (path1 ! 0)) 0 (take H path1) s3)"
  note l = sl_insert_levels [OF o(1) yz(1) H H2 p1 r1 s3_def t_def]
  note f = same_frameD [OF l(1)]
  have u0: "fst (path1 ! 0) = last (0 # ys)"
    using reach_zero [OF r1 [of 0]] o(5) i(8,10) yz(1) o(2) by simp
  define t6 where "t6 = setBackward ?x (if last (0 # ys) = 0 then None else Some (last (0 # ys))) t"
  define t7 where "t7 = (case lv_forward (levelAt t6 ?x 0) of Some f \<Rightarrow> setBackward f (Some ?x) t6
      | None \<Rightarrow> t6\<lparr>sl_tail := Some ?x\<rparr>)"
  have fin: "sl_insert H score member s = t7\<lparr>sl_length := sl_length t7 + 1\<rparr>"
    unfolding sl_insert_def Let_def path_def [symmetric] opened_def [symmetric] s2_def [symmetric] path1_def [symmetric]
    unfolding s3_def [symmetric] unfolding t_def [symmetric] unfolding u0 o(3) t6_def [symmetric]
    unfolding t7_def [symmetric] by (rule refl)
  have x: "?x \<noteq> 0" "?x \<notin> set as" using i(3,4) by auto
  have "lv_forward (levelAt t ?x 0) = (if zs = [] then None else Some (hd zs))"
  proof (rule low_zero [where pre = "sl_header # ys"])
    show "linked t ((sl_header # ys) @ ?x # zs)" using l(3) o(3) by simp
    show "0 < height t ?x" using l(2) o(3) H by simp
    show "0 < height t a" if "a \<in> set zs" for a
      using l(2) o(2,3) i(10) [of a] yz(1) H that by (simp add: Suc_le_eq)
  qed
  then have t7: "t7 = (if zs = [] then t6\<lparr>sl_tail := Some ?x\<rparr> else setBackward (hd zs) (Some ?x) t6)"
    by (simp add: t7_def t6_def)
  let ?t = "sl_insert H score member s"
  have b: "nd_backward (sl_heap t a) = (if a = ?x then None else nd_backward (sl_heap s2 a))"
    "nd_score (sl_heap t a) = (if a = ?x then score else nd_score (sl_heap s2 a))"
    "sl_entry t a = (if a = ?x then (member, score) else sl_entry s2 a)"
    "skey t a = (if a = ?x then ?k else skey s2 a)" for a
    using f o(3) by (simp_all add: s3_def sl_entry_def skey_def)
  have h: "height ?t = (height s)(?x := H)" "levelAt ?t = levelAt t" "sl_level ?t = sl_level s2" "sl_fresh ?t = ?x + 1"
      "sl_length ?t = sl_length s + 1" "skey ?t = skey t" "sl_entry ?t = sl_entry t"
      "\<And>a. nd_score (sl_heap ?t a) = nd_score (sl_heap t a)"
      "sl_tail ?t = (if zs = [] then Some ?x else sl_tail s2)"
    using f l(2) o by (auto simp: fin t7 t6_def s3_def)
  have ly: "ys \<noteq> [] \<Longrightarrow> last ys \<noteq> 0" using i(2) yz(1) last_in_set [of ys] by (metis Un_iff set_append)
  have nb: "nd_backward (sl_heap ?t a) = (if zs \<noteq> [] \<and> a = hd zs then Some ?x
      else if a = ?x then (if ys = [] then None else Some (last ys)) else nd_backward (sl_heap s2 a))" for a
    using b(1) ly by (auto simp: fin t7 t6_def)
  note i2 = sl_invD [OF o(1)]
  have "linked ?t (sl_header # ys @ ?x # zs)"
    using l(3) o(3) linked_cong [of "sl_header # ys @ ?x # zs" ?t t] h l(2) o(2) f(7) by (simp add: s3_def)
  moreover have "nd_backward (sl_heap ?t a) = (if p = [] then None else Some (last p))"
    if "ys @ ?x # zs = p @ a # q" for p a q
    using that
  proof (cases rule: insert_split)
    case (1 w)
    then have "a \<in> set ys" "as = p @ a # w @ zs" using yz(1) by simp_all
    moreover have "a \<notin> set zs" "a \<noteq> ?x" using calculation i(1) x yz(1) by auto
    ultimately show ?thesis using nb [of a] i2(13) [of p a "w @ zs"] by (auto dest: hd_in_set)
  next
    case 2
    moreover have "a \<notin> set zs" using 2 x yz(1) by simp
    ultimately show ?thesis using nb [of a] by (auto dest: hd_in_set)
  next
    case (3 w)
    then have m: "a \<in> set zs" "a \<noteq> ?x" using x yz(1) by auto
    show ?thesis
    proof (cases w)
      case Nil
      with 3 nb [of a] show ?thesis by simp
    next
      case (Cons c w')
      then have "a \<noteq> hd zs" "as = (ys @ w) @ a # q" using 3 i(1) yz(1) by auto
      with m nb [of a] i2(13) [of "ys @ w" a q] 3 Cons show ?thesis by simp
    qed
  qed
  moreover have "sorted_wrt (<) (map (skey ?t) (ys @ ?x # zs))"
  proof -
    have e: "map (skey t) ys = map (skey s) ys" "map (skey t) zs = map (skey s) zs"
      using b(4) o(7) x yz(1) by auto
    have "?k < skey s a" if "a \<in> set zs" for a using yz new [of a] that by (simp add: order_less_le) 
    with i(16) yz(1,2) b(4) [of ?x] show ?thesis
      by (auto simp: h(6) e sorted_wrt_append simp del: less_prod_simp)
  qed
  ultimately have "sl_inv ?t (ys @ ?x # zs)"
    unfolding sl_inv_def using i i2 yz(1) x h b nn H H2 o(2) len by (intro conjI) (auto simp: kSkipListMaxLevel_def less_Suc_eq)
  moreover have "(dbl_key score, member) < skey s a" if "a \<in> set zs" for a
    using yz new [of a] that by (simp add: order_less_le)
  moreover have "sl_entry ?t a = sl_entry s a" if "a \<in> set as" for a using b(3) h(7) o(6) x that by auto
  moreover have "sl_entry ?t ?x = (member, score)" using b(3) h(7) by simp
  ultimately show thesis using that [of ys zs] yz by blast
qed

section \<open>Removal\<close>

lemma linked_remove:
  assumes l: "linked s (pre @ x # zs)" and d: "distinct (pre @ x # zs)"
    and r: "\<And>i. i < sl_level s \<Longrightarrow> reach (height s) i pre (path i)"
    and L: "sl_level t = sl_level s" "height s x \<le> sl_level s" and h: "height t = height s"
    and t: "\<And>a i. a \<in> set (pre @ zs) \<Longrightarrow> i < height s a \<Longrightarrow> levelAt t a i =
       (if i < sl_level s \<and> a = fst (path i) then
          (if lv_forward (levelAt s a i) = Some x
           then \<lparr>lv_forward = lv_forward (levelAt s x i), lv_span = lv_span (levelAt s a i) + (lv_span (levelAt s x i) - 1)\<rparr>
           else (levelAt s a i)\<lparr>lv_span := lv_span (levelAt s a i) - 1\<rparr>)
        else levelAt s a i)"
  shows "linked t (pre @ zs)"
proof -
  have okx: "node_ok s x zs" using linkedD [OF l, of pre x zs] by simp
  have xz: "x \<notin> set zs" "x \<notin> set pre" using d by auto
  have "node_ok t a (q @ zs)" if pq: "pre = p @ a # q" for p a q
    unfolding node_ok_def h
  proof (intro allI impI)
    fix i
    assume i: "i < height s a"
    have ok: "node_ok s a (q @ x # zs)" using linkedD [OF l, of p] pq by simp
    note f = node_okD [OF ok i]
    have am: "a \<in> set (pre @ zs)" using pq by simp
    show "lv_forward (levelAt t a i) = fst (hop (height s) i (q @ zs)) \<and>
      (i < sl_level t \<longrightarrow> lv_span (levelAt t a i) = of_nat (snd (hop (height s) i (q @ zs))))"
    proof (cases "low (height s) i q")
      case False
      then obtain q1 b q2 where b: "q = q1 @ b # q2" "i < height s b" "low (height s) i q1" by (rule high_split)
      have n: "hop (height s) i (q @ x # zs) = (Some b, Suc (length q1))" "hop (height s) i (q @ zs) = (Some b, Suc (length q1))"
        using b by (simp_all add: hop_high)
      have "a \<noteq> fst (path i)" if iL: "i < sl_level s"
      proof
        assume e: "a = fst (path i)"
        from r [OF iL] e obtain p' q' where pq': "pre = p' @ a # q'" and lq': "low (height s) i q'" by (auto simp: reach_def)
        have "a \<notin> set p" "a \<notin> set q" using d pq by auto
        then have "q' = q" using pq pq' append_Cons_eq_iff [of a p q p' q'] by simp
        with lq' False show False by simp
      qed
      then have "levelAt t a i = levelAt s a i" using t [OF am i] by auto
      with f n L(1) show ?thesis by simp
    next
      case True
      have n: "hop (height s) i (q @ zs) = (fst (hop (height s) i zs), length q + snd (hop (height s) i zs))"
        "hop (height s) i (q @ x # zs) = (if i < height s x then (Some x, Suc (length q))
          else (fst (hop (height s) i zs), Suc (length q + snd (hop (height s) i zs))))"
        using True by (simp_all add: hop_low)
      have nx: "fst (hop (height s) i zs) \<noteq> Some x" using hop_mem xz(1) by blast
      show ?thesis
      proof (cases "i < sl_level s")
        case iL: True
        have "path i = (a, of_nat (length p))" using r [OF iL] pq i True d by (intro reach_unique [of _ i pre]) auto
        then have lt: "levelAt t a i = (if lv_forward (levelAt s a i) = Some x
            then \<lparr>lv_forward = lv_forward (levelAt s x i), lv_span = lv_span (levelAt s a i) + (lv_span (levelAt s x i) - 1)\<rparr>
            else (levelAt s a i)\<lparr>lv_span := lv_span (levelAt s a i) - 1\<rparr>)" using t [OF am i] iL by simp
        show ?thesis
        proof (cases "i < height s x")
          case True
          with node_okD [OF okx True] f n lt iL L(1) show ?thesis by (simp add: algebra_simps)
        next
          case False
          with f n nx lt iL L(1) show ?thesis by simp
        qed
      next
        case False
        then have "\<not> i < height s x" using L(2) by simp
        with f(1) n t [OF am i] False L(1) show ?thesis by simp
      qed
    qed
  qed
  moreover have "linked t zs"
  proof -
    have "fst (path i) \<notin> set zs" if "i < sl_level s" for i using reach_mem [OF r [OF that]] d by auto
    then have "levelAt t b i = levelAt s b i" if "b \<in> set zs" "i < height s b" for b i using t [of b i] that by auto
    then have "linked t zs = linked s zs" using h L(1) by (intro linked_cong) auto
    with l show ?thesis by (simp add: linked_append linked_Cons)
  qed
  ultimately show ?thesis by (auto simp: linked_append)
qed

lemma dropLevels_props:
  "1 \<le> n \<Longrightarrow> 1 \<le> dropLevels s n \<and> dropLevels s n \<le> n \<and>
   (\<forall>l. dropLevels s n \<le> l \<and> l < n \<longrightarrow> lv_forward (levelAt s sl_header l) = None)"
proof (induction n)
  case (Suc n)
  then show ?case by (cases "n = 0") (auto simp: less_Suc_eq)
qed simp

lemma linked_lower_level:
  assumes "linked s qs" and "n \<le> sl_level s"
  shows "linked (s\<lparr>sl_level := n\<rparr>) qs"
  using assms by (auto simp: linked_def node_ok_def)

lemma hop_None_low: "fst (hop h i xs) = None \<Longrightarrow> low h i xs"
  by (induction xs) (auto split: if_splits)

text \<open>Where the search ends at the lowest level, and the node behind it.\<close>

lemma search_zero:
  assumes "sl_inv s (ys @ zs)" and "\<And>b. b \<in> set ys \<Longrightarrow> go (sl_heap s b)" and "\<And>b. b \<in> set zs \<Longrightarrow> \<not> go (sl_heap s b)"
  shows "sl_search s go ! 0 = (last (sl_header # ys), of_nat (length ys))"
proof -
  note i = sl_invD [OF assms(1)]
  have "0 < sl_level s" using i(8) by simp
  from search_reach(2) [of s ys zs go, OF assms this] reach_zero i(10) show ?thesis by simp
qed

lemma forward_after:
  assumes "sl_inv s (ys @ zs)"
  shows "lv_forward (levelAt s (last (sl_header # ys)) 0) = (if zs = [] then None else Some (hd zs))"
proof (rule low_zero [where pre = "butlast (sl_header # ys)"])
  note i = sl_invD [OF assms]
  show "linked s (butlast (sl_header # ys) @ last (sl_header # ys) # zs)"
    using i(12) by (metis append.assoc append_Cons append_butlast_last_id append_Nil list.distinct(1))
  have "last (sl_header # ys) \<in> set (sl_header # ys @ zs)" by auto
  then show "0 < height s (last (sl_header # ys))" using i(7,10) by fastforce
  show "0 < height s a" if "a \<in> set zs" for a using i(10) [of a] that by simp
qed

text \<open>The search for a score and a member splits the sequence at its key.\<close>

lemma key_split:
  assumes "sl_inv s as" and "\<not> dbl_isnan score"
  obtains ys zs where "as = ys @ zs" "\<forall>a \<in> set ys. skey s a < (dbl_key score, member)"
    "\<forall>a \<in> set zs. (dbl_key score, member) \<le> skey s a"
    "\<forall>b \<in> set ys. sl_before score member (sl_heap s b)"
    "\<forall>b \<in> set zs. \<not> sl_before score member (sl_heap s b)"
proof -
  note i = sl_invD [OF assms(1)]
  let ?k = "(dbl_key score, member)"
  obtain ys zs where yz: "as = ys @ zs" "\<forall>a \<in> set ys. skey s a < ?k" "\<forall>a \<in> set zs. ?k \<le> skey s a"
    using sorted_split [OF i(16), of ?k] by metis
  have "sl_before score member (sl_heap s a) \<longleftrightarrow> skey s a < ?k" if "a \<in> set as" for a
    using sl_before_key [OF i(15) [OF that] assms(2), of member] by (simp add: skey_def)
  with yz show thesis by (intro that [of ys zs]) (auto simp: not_less)
qed

lemma sl_remove_absent:
  assumes inv: "sl_inv s as" and nn: "\<not> dbl_isnan score" and new: "\<And>a. a \<in> set as \<Longrightarrow> skey s a \<noteq> (dbl_key score, member)"
  shows "sl_remove score member s = (False, s)"
proof -
  obtain ys zs where yz: "as = ys @ zs" "\<forall>a \<in> set ys. skey s a < (dbl_key score, member)"
    "\<forall>a \<in> set zs. (dbl_key score, member) \<le> skey s a"
    "\<forall>b \<in> set ys. sl_before score member (sl_heap s b)"
    "\<forall>b \<in> set zs. \<not> sl_before score member (sl_heap s b)"
    using inv nn by (rule key_split [of s as score member])
  have "\<not> (dbl_eq (nd_score (sl_heap s a)) score \<and> nd_member (sl_heap s a) = member)" if "a \<in> set zs" for a
    using new [of a] yz(1) that by (auto simp: skey_def dbl_eq_def)
  then have "zs \<noteq> [] \<Longrightarrow> \<not> (dbl_eq (nd_score (sl_heap s (hd zs))) score \<and> nd_member (sl_heap s (hd zs)) = member)" by simp
  moreover have "sl_search s (sl_before score member) ! 0 = (last (sl_header # ys), of_nat (length ys))"
    using search_zero [of s ys zs "sl_before score member"] inv yz by blast
  ultimately show ?thesis using forward_after [OF inv [unfolded yz(1)]]
    by (cases "zs = []") (simp_all add: sl_remove_def Let_def)
qed

lemma remove_split:
  assumes "ys @ zs = p @ a # q"
  obtains w where "ys = p @ a # w" "q = w @ zs" | w where "p = ys @ w" "zs = w @ a # q"
  using assms by (auto simp: append_eq_append_conv2 Cons_eq_append_conv append_eq_Cons_conv)

lemma sl_remove_levels:
  assumes inv: "sl_inv s (ys @ x # zs)"
    and path: "length path = sl_level s" "\<And>i. i < sl_level s \<Longrightarrow> reach (height s) i (sl_header # ys) (path ! i)"
  shows "linked (unlinkLevels x 0 path s) (sl_header # ys @ zs)" "levelAt (unlinkLevels x 0 path s) x = levelAt s x"
proof -
  note i = sl_invD [OF inv]
  let ?t = "unlinkLevels x 0 path s"
  have pm: "fst (path ! j) \<in> set (0 # ys)" "j < height s (fst (path ! j))" if "j < sl_level s" for j
    using reach_mem [OF path(2) [OF that]] by auto
  have x: "x \<notin> set (0 # ys)" using i(1,2) by auto
  have c: "x \<notin> fst ` set path"
  proof
    assume "x \<in> fst ` set path"
    then obtain j where "j < sl_level s" "x = fst (path ! j)" using path(1) by (auto simp: in_set_conv_nth)
    with pm(1) [of j] x show False by simp
  qed
  have c': "\<forall>j < length path. 0 + j < height s (fst (path ! j))" using pm(2) path(1) by simp
  note lt = unlinkLevels_level [OF c c']
  note f = same_frameD [OF unlinkLevels_frame [of s x 0 path]]
  have "linked ?t ((sl_header # ys) @ zs)"
  proof (rule linked_remove [where s = s and x = x and path = "\<lambda>i. path ! i"])
    show "linked s ((sl_header # ys) @ x # zs)" using i(12) by simp
    show "distinct ((sl_header # ys) @ x # zs)" using i(1,2) by auto
    show "height s x \<le> sl_level s" using i(11) by simp
  qed (use path f lt in auto)
  then show "linked ?t (sl_header # ys @ zs)" by simp
  have "fst (path ! j) \<noteq> x" if "j < sl_level s" for j using pm(1) [OF that] x by auto
  then show "levelAt ?t x = levelAt s x" using lt path(1) by (auto simp: fun_eq_iff)
qed

lemma sl_remove_inv:
  assumes inv: "sl_inv s as" and nn: "\<not> dbl_isnan score" and x: "x \<in> set as" "skey s x = (dbl_key score, member)"
  obtains ys zs s' where "as = ys @ x # zs" "sl_remove score member s = (True, s')" "sl_inv s' (ys @ zs)"
    "sl_entry s' = sl_entry s"
proof -
  note i = sl_invD [OF inv]
  let ?k = "(dbl_key score, member)"
  obtain ys zs' where yz: "as = ys @ zs'" "\<forall>a \<in> set ys. skey s a < ?k" "\<forall>a \<in> set zs'. ?k \<le> skey s a"
    "\<forall>b \<in> set ys. sl_before score member (sl_heap s b)"
    "\<forall>b \<in> set zs'. \<not> sl_before score member (sl_heap s b)"
    using inv nn by (rule key_split [of s as score member])
  have "x \<in> set zs'" using x yz(1,2) by auto
  moreover have "sorted_wrt (<) (map (skey s) zs')" using i(16) yz(1) by (simp add: sorted_wrt_append)
  ultimately obtain zs where z: "zs' = x # zs" using x(2) yz(3) by (cases zs') (auto simp: not_less [symmetric])
  have as: "as = ys @ x # zs" using yz(1) z by simp
  define path where "path = sl_search s (sl_before score member)"
  have iv: "sl_inv s (ys @ x # zs)" using inv as by simp
  have path: "length path = sl_level s" "\<And>j. j < sl_level s \<Longrightarrow> reach (height s) j (sl_header # ys) (path ! j)"
    "fst (path ! 0) = last (sl_header # ys)"
    using search_reach [of s ys zs' "sl_before score member", OF inv [unfolded yz(1)] yz(4,5) [rule_format]]
      search_zero [of s ys zs' "sl_before score member", OF inv [unfolded yz(1)] yz(4,5) [rule_format]] by (simp_all add: path_def)
  have fx: "lv_forward (levelAt s (last (sl_header # ys)) 0) = Some x" using forward_after [OF iv] by simp
  have same: "dbl_eq (nd_score (sl_heap s x)) score" "nd_member (sl_heap s x) = member"
    using x i(15) nn by (auto simp: skey_def dbl_eq_def)
  define t where "t = unlinkLevels x 0 path s"
  note l = sl_remove_levels [OF iv path(1,2), folded t_def]
  note f = same_frameD [OF unlinkLevels_frame [of s x 0 path], folded t_def]
  have "lv_forward (levelAt s x 0) = (if zs = [] then None else Some (hd zs))"
    using forward_after [of s "ys @ [x]" zs] iv by simp
  then have f0: "lv_forward (levelAt t x 0) = (if zs = [] then None else Some (hd zs))" using l(2) by simp
  have bx: "nd_backward (sl_heap s x) = (if ys = [] then None else Some (last ys))" using i(13) [OF as] .
  define t2 where "t2 = (if zs = [] then t\<lparr>sl_tail := nd_backward (sl_heap s x)\<rparr>
      else setBackward (hd zs) (nd_backward (sl_heap s x)) t)"
  define t3 where "t3 = t2\<lparr>sl_level := dropLevels t2 (sl_level t2), sl_length := sl_length s - 1\<rparr>"
  have rm: "sl_remove score member s = (True, t3)"
    using fx path(3) same f0 f
    by (simp add: sl_remove_def path_def [symmetric] t_def [symmetric] t3_def t2_def Let_def)
  have es: "sl_entry t = sl_entry s" using f by (simp add: sl_entry_def fun_eq_iff)
  have e2: "height t2 = height s" "levelAt t2 = levelAt t" "sl_level t2 = sl_level s" "skey t2 = skey s" "sl_entry t2 = sl_entry s"
    "\<And>a. nd_score (sl_heap t2 a) = nd_score (sl_heap s a)" "sl_fresh t2 = sl_fresh s"
    "\<And>a. nd_backward (sl_heap t2 a) = (if zs \<noteq> [] \<and> a = hd zs then nd_backward (sl_heap s x) else nd_backward (sl_heap s a))"
    "sl_tail t2 = (if zs = [] then nd_backward (sl_heap s x) else sl_tail s)"
    using f es by (auto simp: t2_def)
  note dl = dropLevels_props [of "sl_level s" t2]
  have l2: "linked t2 (sl_header # ys @ zs)"
    using l(1) linked_cong [of "sl_header # ys @ zs" t2 t] e2 f by simp
  then have "linked (t2\<lparr>sl_level := dropLevels t2 (sl_level t2)\<rparr>) (sl_header # ys @ zs)"
    by (rule linked_lower_level) (use dl i(8) e2 in simp)
  then have l3: "linked t3 (sl_header # ys @ zs)" by (simp add: t3_def linked_def node_ok_def)
  have hl: "height s a \<le> dropLevels t2 (sl_level s)" if a: "a \<in> set (ys @ zs)" for a
  proof (rule ccontr)
    assume "\<not> height s a \<le> dropLevels t2 (sl_level s)"
    then have g: "dropLevels t2 (sl_level s) < height s a" by simp
    let ?l = "dropLevels t2 (sl_level s)"
    have "?l < sl_level s" using g i(11) [of a] as a by auto
    then have "lv_forward (levelAt t2 sl_header ?l) = None" using dl i(8) by simp
    moreover have "node_ok t2 sl_header (ys @ zs)" using l2 by (simp add: linked_Cons)
    moreover have "?l < height t2 sl_header" using \<open>?l < sl_level s\<close> i(7,9) e2 by simp
    ultimately have "fst (hop (height t2) ?l (ys @ zs)) = None" using node_okD(1) by metis
    from hop_None_low [OF this] a have "height t2 a \<le> ?l" by blast
    with g e2(1) show False by simp
  qed
  have nb: "nd_backward (sl_heap t3 a) = (if p = [] then None else Some (last p))" if "ys @ zs = p @ a # q" for p a q
    using that
  proof (cases rule: remove_split)
    case (1 w)
    then have "as = p @ a # w @ x # zs" "a \<notin> set zs" using as i(1) by auto
    with i(13) [of p a "w @ x # zs"] e2(8) show ?thesis by (auto simp: t3_def dest: hd_in_set)
  next
    case (2 w)
    show ?thesis
    proof (cases w)
      case Nil
      with 2 e2(8) bx show ?thesis by (simp add: t3_def)
    next
      case (Cons c w')
      then have "a \<noteq> hd zs" "as = (ys @ x # w) @ a # q" using 2 as i(1) by auto
      with 2 Cons i(13) [of "ys @ x # w" a q] e2(8) show ?thesis by (simp add: t3_def)
    qed
  qed
  have e3: "height t3 = height s" "skey t3 = skey s" "\<And>a. nd_score (sl_heap t3 a) = nd_score (sl_heap s a)"
    "sl_fresh t3 = sl_fresh s" "sl_length t3 = sl_length s - 1" "sl_level t3 = dropLevels t2 (sl_level s)"
    "sl_tail t3 = (if zs = [] then (if ys = [] then None else Some (last ys)) else sl_tail s)" "sl_entry t3 = sl_entry s"
    using e2 bx by (simp_all add: t3_def)
  have "sl_inv t3 (ys @ zs)"
    unfolding sl_inv_def using i as l3 nb e3 hl dl
    by (intro conjI) (auto simp: kSkipListMaxLevel_def sorted_wrt_append)
  with that [OF as rm] e3(8) show thesis by blast
qed

end
