(* ===== verification/Skiplist_Query.thy ===== *)
theory Skiplist_Query
  imports Skiplist_Spec
begin

text \<open>
  The queries of the skiplist against the sorted sequence: the chain of the lowest level, the rank of
  a member, the member at a rank, and the first, the last and the number of members in a score
  range. The properties of the skiplist are at the end.
\<close>

section \<open>The chain\<close>

lemma chainFrom_rep:
  "sl_inv s (ys @ zs) \<Longrightarrow> chainFrom (length zs) s (lv_forward (levelAt s (last (sl_header # ys)) 0)) = zs"
proof (induction zs arbitrary: ys)
  case (Cons z zs)
  from Cons.IH [of "ys @ [z]"] Cons.prems forward_after [OF Cons.prems] show ?case by simp
qed simp

lemma sl_toList_rep: "sl_inv s as \<Longrightarrow> sl_toList s = map (sl_entry s) as"
  using chainFrom_rep [of s "[]" as] sl_invD(5) [of s as] by (simp add: sl_toList_def sl_head_def)

section \<open>Rank of a member\<close>

lemma not_before_key:
  assumes "\<not> dbl_isnan (nd_score n)" and "\<not> dbl_isnan score"
  shows "isBefore score member (nd_score n) (nd_member n) \<longleftrightarrow> (dbl_key score, member) < (dbl_key (nd_score n), nd_member n)"
  using assms by (auto simp: isBefore_def dbl_eq_def dbl_lt_def)

text \<open>\<open>hit\<close> is what the walk at level \<open>i\<close> meets behind the prefix.\<close>

lemma rankWalk_reach:
  assumes inv: "sl_inv s (ys @ zs)" and nn: "\<not> dbl_isnan score" and i: "i < sl_level s"
    and ys: "\<forall>a \<in> set ys. skey s a < (dbl_key score, member)" and zs: "\<forall>a \<in> set zs. (dbl_key score, member) \<le> skey s a"
  shows "sl_header # ys = p @ a # q \<Longrightarrow> i < height s a \<Longrightarrow> length q < fuel \<Longrightarrow>
    (if \<exists>b. fst (hop (height s) i zs) = Some b \<and> skey s b = (dbl_key score, member)
     then rankWalk fuel s i score member a (of_nat (length p)) = Inl (of_nat (length ys + snd (hop (height s) i zs) - 1))
     else \<exists>ur. rankWalk fuel s i score member a (of_nat (length p)) = Inr ur \<and> reach (height s) i (sl_header # ys) ur)"
proof (induction fuel arbitrary: p a q)
  case (Suc fuel)
  note iv = sl_invD [OF inv]
  have ok: "node_ok s a (q @ zs)" using linkedD [OF iv(12), of p a "q @ zs"] Suc.prems(1) by (metis append.assoc append_Cons)
  note f = node_okD [OF ok Suc.prems(2)]
  have ln: "length ys = length p + length q" using arg_cong [OF Suc.prems(1), of length] by simp
  have key: "isBefore score member (nd_score (sl_heap s b)) (nd_member (sl_heap s b)) \<longleftrightarrow> (dbl_key score, member) < skey s b"
    "dbl_eq (nd_score (sl_heap s b)) score \<and> nd_member (sl_heap s b) = member \<longleftrightarrow> skey s b = (dbl_key score, member)"
    if "b \<in> set (ys @ zs)" for b
    using not_before_key [OF iv(15) [OF that] nn] iv(15) [OF that] nn by (auto simp: skey_def dbl_eq_def)
  show ?case
  proof (cases "low (height s) i q")
    case True
    have h: "hop (height s) i (q @ zs) = (fst (hop (height s) i zs), length q + snd (hop (height s) i zs))"
      using True by (rule hop_low)
    show ?thesis
    proof (cases "fst (hop (height s) i zs)")
      case None
      then have "rankWalk (Suc fuel) s i score member a (of_nat (length p)) = Inr (a, of_nat (length p))" using f(1) h by simp
      with None True Suc.prems show ?thesis by (auto simp: reach_def)
    next
      case (Some b)
      then have b: "b \<in> set zs" using hop_mem by blast
      then have b0: "b \<noteq> 0" using iv(2) by (metis UnCI set_append)
      have pos: "0 < snd (hop (height s) i zs)" using Some by (cases zs) (auto split: if_splits)
      show ?thesis
      proof (cases "skey s b = (dbl_key score, member)")
        case eq: True
        then have "rankWalk (Suc fuel) s i score member a (of_nat (length p)) =
            Inl (of_nat (length p) + of_nat (length q + snd (hop (height s) i zs)) - 1)"
          using f i h Some b b0 key [of b] by simp
        also have "\<dots> = Inl (of_nat (length ys + snd (hop (height s) i zs) - 1))"
          using ln pos by (simp add: of_nat_diff algebra_simps)
        finally show ?thesis using Some eq by simp
      next
        case False
        then have "(dbl_key score, member) < skey s b" using zs b by (simp add: order_less_le)
        then have "rankWalk (Suc fuel) s i score member a (of_nat (length p)) = Inr (a, of_nat (length p))"
          using f(1) h Some b key(1) [of b] by simp
        with Some False True Suc.prems show ?thesis by (auto simp: reach_def)
      qed
    qed
  next
    case False
    then obtain q1 b q2 where q: "q = q1 @ b # q2" "i < height s b" "low (height s) i q1" by (rule high_split)
    then have h: "hop (height s) i (q @ zs) = (Some b, Suc (length q1))" by (simp add: hop_high)
    have b: "b \<in> set ys" using Suc.prems(1) q(1) by (cases p) auto
    then have "skey s b < (dbl_key score, member)" using ys by simp
    then have w: "rankWalk (Suc fuel) s i score member a (of_nat (length p)) =
        rankWalk fuel s i score member b (of_nat (length (p @ a # q1)))"
      using f h i b key [of b] by (auto simp: ac_simps)
    show ?thesis unfolding w
      using Suc.IH [of "p @ a # q1" b q2] Suc.prems q by simp
  qed
qed simp

lemma rankLevels_rep:
  assumes inv: "sl_inv s (ys @ zs)" and nn: "\<not> dbl_isnan score"
    and ys: "\<forall>a \<in> set ys. skey s a < (dbl_key score, member)" and zs: "\<forall>a \<in> set zs. (dbl_key score, member) \<le> skey s a"
  shows "k \<le> sl_level s \<Longrightarrow> sl_header # ys = p @ a # q \<Longrightarrow> k \<le> height s a \<Longrightarrow> r = of_nat (length p) \<Longrightarrow>
    rankLevels s score member k a r =
      (if zs \<noteq> [] \<and> skey s (hd zs) = (dbl_key score, member) \<and> 0 < k then Some (of_nat (length ys)) else None)"
proof (induction k arbitrary: p a q r)
  case (Suc i)
  note iv = sl_invD [OF inv]
  have len: "length q < sl_length s + 1" using arg_cong [OF Suc.prems(2), of length] iv(5) by simp
  have i: "i < sl_level s" "i < height s a" using Suc.prems by simp_all
  note w = rankWalk_reach [OF inv nn i(1) ys zs Suc.prems(2) i(2) len]
  have hd_only: "b = hd zs" if "b \<in> set zs" "skey s b = (dbl_key score, member)" for b
  proof (cases zs)
    case (Cons z rest)
    have "sorted_wrt (<) (map (skey s) zs)" using iv(16) by (simp add: sorted_wrt_append)
    with Cons that zs show ?thesis by (auto simp: not_less [symmetric])
  qed (use that in simp)
  show ?case
  proof (cases "\<exists>b. fst (hop (height s) i zs) = Some b \<and> skey s b = (dbl_key score, member)")
    case True
    then obtain b where b: "fst (hop (height s) i zs) = Some b" "skey s b = (dbl_key score, member)" by blast
    then have "b \<in> set zs" "i < height s b" using hop_mem by blast+
    then have z: "b = hd zs" "zs \<noteq> []" using hd_only b(2) by auto
    then have "snd (hop (height s) i zs) = 1" using \<open>i < height s b\<close> by (cases zs) auto
    with w True Suc.prems(4) z b(2) show ?thesis by simp
  next
    case False
    with w Suc.prems(4) obtain u v where uv: "rankWalk (sl_length s + 1) s i score member a r = Inr (u, v)"
      "reach (height s) i (sl_header # ys) (u, v)" by auto
    then obtain p' q' where p': "sl_header # ys = p' @ u # q'" "i < height s u" "v = of_nat (length p')"
      by (auto simp: reach_def)
    have "rankLevels s score member (Suc i) a r = rankLevels s score member i u v" using uv(1) by simp
    also have "\<dots> = (if zs \<noteq> [] \<and> skey s (hd zs) = (dbl_key score, member) \<and> 0 < i then Some (of_nat (length ys)) else None)"
      using Suc.IH [of p' u q' v] Suc.prems(1) p' by simp
    also have "\<dots> = (if zs \<noteq> [] \<and> skey s (hd zs) = (dbl_key score, member) \<and> 0 < Suc i then Some (of_nat (length ys)) else None)"
    proof (cases "i = 0 \<and> zs \<noteq> []")
      case True
      then have "fst (hop (height s) i zs) = Some (hd zs)" using iv(10) [of "hd zs"] by (cases zs) auto
      with False True show ?thesis by auto
    qed auto
    finally show ?thesis .
  qed
qed simp

lemma sl_rankOf_present:
  assumes "sl_inv s (ys @ x # zs)"
  shows "sl_rankOf (nd_score (sl_heap s x)) (nd_member (sl_heap s x)) s = Some (length ys)"
proof -
  note iv = sl_invD [OF assms]
  let ?k = "skey s x"
  have s: "\<forall>a \<in> set ys. skey s a < ?k" "\<forall>a \<in> set (x # zs). ?k \<le> skey s a"
    using iv(16) by (auto simp: sorted_wrt_append)
  have "rankLevels s (nd_score (sl_heap s x)) (nd_member (sl_heap s x)) (sl_level s) sl_header 0 = Some (of_nat (length ys))"
    using rankLevels_rep [OF assms iv(15) [of x], of "nd_member (sl_heap s x)" "sl_level s" "[]" 0 ys 0] s iv(7,8,9)
    by (simp add: skey_def)
  moreover have "unat (of_nat (length ys) :: 64 word) = length ys"
    using iv(5,6) by (simp add: unat_of_nat)
  ultimately show ?thesis by (simp add: sl_rankOf_def)
qed

lemma sl_rankOf_absent:
  assumes inv: "sl_inv s as" and nn: "\<not> dbl_isnan score" and new: "\<And>a. a \<in> set as \<Longrightarrow> skey s a \<noteq> (dbl_key score, member)"
  shows "sl_rankOf score member s = None"
proof -
  obtain ys zs where yz: "as = ys @ zs" "\<forall>a \<in> set ys. skey s a < (dbl_key score, member)"
    "\<forall>a \<in> set zs. (dbl_key score, member) \<le> skey s a" "\<forall>b \<in> set ys. sl_before score member (sl_heap s b)"
    "\<forall>b \<in> set zs. \<not> sl_before score member (sl_heap s b)"
    using inv nn by (rule key_split [of s as score member])
  have "zs \<noteq> [] \<Longrightarrow> skey s (hd zs) \<noteq> (dbl_key score, member)" using new [of "hd zs"] yz(1) by simp
  then show ?thesis
    using rankLevels_rep [OF inv [unfolded yz(1)] nn yz(2,3), of "sl_level s" "[]" 0 ys 0] sl_invD(7,9) [OF inv]
    by (auto simp: sl_rankOf_def)
qed

section \<open>Member at a rank\<close>

lemma hop_snd_le: "snd (hop h i xs) \<le> length xs"
  by (induction xs) auto

lemma of_nat_le_word: "m < 2 ^ 63 \<Longrightarrow> n < 2 ^ 63 \<Longrightarrow> (of_nat m :: 64 word) \<le> of_nat n \<longleftrightarrow> m \<le> n"
  by (simp add: word_le_nat_alt unat_of_nat)

lemma hopWalk_reach:
  assumes inv: "sl_inv s (ys @ zs)" and i: "i < sl_level s"
  shows "sl_header # ys = p @ a # q \<Longrightarrow> i < height s a \<Longrightarrow> length q < fuel \<Longrightarrow>
    reach (height s) i (sl_header # ys) (hopWalk fuel s i (of_nat (length ys)) a (of_nat (length p)))"
proof (induction fuel arbitrary: p a q)
  case (Suc fuel)
  note iv = sl_invD [OF inv]
  have ok: "node_ok s a (q @ zs)" using linkedD [OF iv(12), of p a "q @ zs"] Suc.prems(1) by (metis append.assoc append_Cons)
  note f = node_okD [OF ok Suc.prems(2)]
  have ln: "length ys = length p + length q" using arg_cong [OF Suc.prems(1), of length] by simp
  have len: "length ys + length zs < 2 ^ 63" using iv(5,6) by simp
  show ?case
  proof (cases "low (height s) i q")
    case True
    have h: "hop (height s) i (q @ zs) = (fst (hop (height s) i zs), length q + snd (hop (height s) i zs))"
      using True by (rule hop_low)
    have "hopWalk (Suc fuel) s i (of_nat (length ys)) a (of_nat (length p)) = (a, of_nat (length p))"
    proof (cases "fst (hop (height s) i zs)")
      case None
      then show ?thesis using f(1) h by simp
    next
      case (Some b)
      have "0 < snd (hop (height s) i zs)" using Some by (cases zs) (auto split: if_splits)
      moreover have "length p + (length q + snd (hop (height s) i zs)) < 2 ^ 63"
        using len ln hop_snd_le [of "height s" i zs] by linarith
      ultimately have "\<not> (of_nat (length p + (length q + snd (hop (height s) i zs))) :: 64 word) \<le> of_nat (length ys)"
        using ln len by (subst of_nat_le_word) auto
      then show ?thesis using f i h Some by simp
    qed
    with True Suc.prems show ?thesis by (auto simp: reach_def)
  next
    case False
    then obtain q1 b q2 where q: "q = q1 @ b # q2" "i < height s b" "low (height s) i q1" by (rule high_split)
    then have h: "hop (height s) i (q @ zs) = (Some b, Suc (length q1))" by (simp add: hop_high)
    have "(of_nat (length p + Suc (length q1)) :: 64 word) \<le> of_nat (length ys)"
      using ln len q(1) by (subst of_nat_le_word) auto
    then have w: "hopWalk (Suc fuel) s i (of_nat (length ys)) a (of_nat (length p)) =
        hopWalk fuel s i (of_nat (length ys)) b (of_nat (length (p @ a # q1)))"
      using f h i by (simp add: ac_simps)
    show ?thesis unfolding w using Suc.IH [of "p @ a # q1" b q2] Suc.prems q by simp
  qed
qed simp

lemma hopLevels_rep:
  assumes inv: "sl_inv s (ys @ zs)" and ne: "ys \<noteq> []"
  shows "k \<le> sl_level s \<Longrightarrow> 0 < k \<Longrightarrow> sl_header # ys = p @ a # q \<Longrightarrow> k \<le> height s a \<Longrightarrow> r = of_nat (length p) \<Longrightarrow>
    hopLevels s (of_nat (length ys)) k a r = Some (last ys)"
proof (induction k arbitrary: p a q r)
  case (Suc i)
  note iv = sl_invD [OF inv]
  have len: "length q < sl_length s + 1" using arg_cong [OF Suc.prems(3), of length] iv(5) by simp
  have i: "i < sl_level s" "i < height s a" using Suc.prems by simp_all
  obtain u v where uv: "hopWalk (sl_length s + 1) s i (of_nat (length ys)) a r = (u, v)"
    by (cases "hopWalk (sl_length s + 1) s i (of_nat (length ys)) a r")
  have re: "reach (height s) i (sl_header # ys) (u, v)"
    using hopWalk_reach [OF inv i(1) Suc.prems(3) i(2) len] uv Suc.prems(5) by simp
  then obtain p' q' where p': "sl_header # ys = p' @ u # q'" "i < height s u" "v = of_nat (length p')"
    by (auto simp: reach_def)
  have ln: "length ys = length p' + length q'" using arg_cong [OF p'(1), of length] by simp
  have l0: "last ys \<noteq> 0" using iv(2) last_in_set [OF ne] by (metis UnCI set_append)
  show ?case
  proof (cases "q' = []")
    case True
    then have "u = last ys" "v = of_nat (length ys)" using p' ln ne by (metis last.simps last_snoc, simp)
    with uv l0 show ?thesis by simp
  next
    case False
    have "v \<noteq> of_nat (length ys)"
    proof
      assume "v = of_nat (length ys)"
      then have "unat (of_nat (length p') :: 64 word) = unat (of_nat (length ys) :: 64 word)" using p'(3) by simp
      moreover have "length p' < 2 ^ 64" "length ys < 2 ^ 64" using iv(5,6) ln by simp_all
      ultimately have "length p' = length ys" by (simp add: unat_of_nat)
      with ln False show False by simp
    qed
    moreover have "0 < i"
    proof (rule ccontr)
      assume "\<not> 0 < i"
      then have "(u, v) = (last (sl_header # ys), of_nat (length ys))" using re reach_zero iv(10) by simp
      with \<open>v \<noteq> of_nat (length ys)\<close> show False by simp
    qed
    ultimately show ?thesis using uv Suc.IH [of p' u q' v] Suc.prems(1) p' by simp
  qed
qed simp

lemma sl_nodeByRank_rep:
  assumes "sl_inv s as"
  shows "sl_nodeByRank n s = (if n < length as then Some (as ! n) else None)"
proof (cases "n < length as")
  case True
  note iv = sl_invD [OF assms]
  let ?ys = "take (Suc n) as"
  have inv: "sl_inv s (?ys @ drop (Suc n) as)" using assms by simp
  have "?ys \<noteq> []" "length ?ys = Suc n" "last ?ys = as ! n" using True by (auto simp: take_Suc_conv_app_nth)
  with hopLevels_rep [OF inv, of "sl_level s" "[]" 0 ?ys 0] iv(5,7,8,9) True show ?thesis
    by (simp add: sl_nodeByRank_def add.commute)
next
  case False
  with sl_invD(5) [OF assms] show ?thesis by (simp add: sl_nodeByRank_def)
qed

section \<open>Score ranges\<close>

abbreviation in_range :: "skiplist \<Rightarrow> ScoreRange \<Rightarrow> nat \<Rightarrow> bool" where
  "in_range s r a \<equiv> sr_containsScore r (nd_score (sl_heap s a))"

definition sr_ok :: "ScoreRange \<Rightarrow> bool" where
  "sr_ok r \<longleftrightarrow> \<not> dbl_isnan (sr_min r) \<and> \<not> dbl_isnan (sr_max r)"

text \<open>The two bounds as cuts of the integer keys.\<close>

definition below :: "ScoreRange \<Rightarrow> int \<Rightarrow> bool" where
  "below r k \<longleftrightarrow> (if sr_min_exclusive r then k \<le> dbl_key (sr_min r) else k < dbl_key (sr_min r))"

definition beyond :: "ScoreRange \<Rightarrow> int \<Rightarrow> bool" where
  "beyond r k \<longleftrightarrow> (if sr_max_exclusive r then dbl_key (sr_max r) \<le> k else dbl_key (sr_max r) < k)"

lemma range_key:
  assumes "sr_ok r" and "\<not> dbl_isnan x"
  shows "sr_containsScore r x \<longleftrightarrow> \<not> below r (dbl_key x) \<and> \<not> beyond r (dbl_key x)"
    and "sr_belowMin r x \<longleftrightarrow> below r (dbl_key x)" and "sr_aboveMax r x \<longleftrightarrow> beyond r (dbl_key x)"
    and "sr_pastMin r x \<longleftrightarrow> \<not> below r (dbl_key x)" and "sr_withinMax r x \<longleftrightarrow> \<not> beyond r (dbl_key x)"
  using assms by (auto simp: sr_containsScore_def sr_belowMin_def sr_aboveMax_def sr_pastMin_def sr_withinMax_def
      below_def beyond_def sr_ok_def dbl_lt_def dbl_le_def)

lemma range_mono: "below r k \<Longrightarrow> j \<le> k \<Longrightarrow> below r j" "beyond r j \<Longrightarrow> j \<le> k \<Longrightarrow> beyond r k"
  by (auto simp: below_def beyond_def split: if_splits)

lemma range_empty: "sr_ok r \<Longrightarrow> sr_isEmpty r \<Longrightarrow> below r k \<or> beyond r k"
  by (auto simp: sr_isEmpty_def below_def beyond_def sr_ok_def dbl_lt_def dbl_eq_def split: if_splits)

lemma key_le:
  assumes "sl_inv s (ys @ zs)" and "a \<in> set ys" and "b \<in> set zs"
  shows "dbl_key (nd_score (sl_heap s a)) \<le> dbl_key (nd_score (sl_heap s b))"
proof -
  have "skey s a < skey s b" using sl_invD(16) [OF assms(1)] assms(2,3) by (auto simp: sorted_wrt_append)
  then show ?thesis by (auto simp: skey_def)
qed

lemma key_sorted:
  assumes "sl_inv s as" shows "sorted (map (\<lambda>a. dbl_key (nd_score (sl_heap s a))) as)"
proof -
  have "sorted_wrt (\<lambda>a b. skey s a < skey s b) as" using sl_invD(16) [OF assms] by (simp add: sorted_wrt_map)
  then have "sorted_wrt (\<lambda>a b. dbl_key (nd_score (sl_heap s a)) \<le> dbl_key (nd_score (sl_heap s b))) as"
    by (rule sorted_wrt_mono_rel [rotated]) (auto simp: skey_def)
  then show ?thesis by (simp add: sorted_wrt_map)
qed

text \<open>The sequence in three parts: below the range, in it, and above it.\<close>

lemma range_split:
  assumes "sl_inv s as" and "sr_ok r"
  obtains us ms ws where "as = us @ ms @ ws" "\<forall>a \<in> set us. below r (dbl_key (nd_score (sl_heap s a)))"
    "\<forall>a \<in> set (ms @ ws). \<not> below r (dbl_key (nd_score (sl_heap s a)))"
    "\<forall>a \<in> set ws. beyond r (dbl_key (nd_score (sl_heap s a)))"
    "\<forall>a \<in> set ms. \<not> beyond r (dbl_key (nd_score (sl_heap s a)))" "filter (in_range s r) as = ms"
proof -
  let ?key = "\<lambda>a. dbl_key (nd_score (sl_heap s a))"
  have split: "\<exists>xs ys. zs = xs @ ys \<and> (\<forall>a \<in> set xs. P (?key a)) \<and> (\<forall>a \<in> set ys. \<not> P (?key a))"
    if "sorted (map ?key zs)" and mono: "\<And>j k. P k \<Longrightarrow> j \<le> k \<Longrightarrow> P j" for P zs
    using that(1)
  proof (induction zs)
    case (Cons z zs)
    show ?case
    proof (cases "P (?key z)")
      case True
      from Cons obtain xs ys where "zs = xs @ ys" "\<forall>a \<in> set xs. P (?key a)" "\<forall>a \<in> set ys. \<not> P (?key a)" by auto
      with True show ?thesis by (intro exI [of _ "z # xs"] exI [of _ ys]) simp
    next
      case False
      with Cons.prems mono show ?thesis by (intro exI [of _ "[]"] exI [of _ "z # zs"]) auto
    qed
  qed simp
  obtain us vs where u: "as = us @ vs" "\<forall>a \<in> set us. below r (?key a)" "\<forall>a \<in> set vs. \<not> below r (?key a)"
    using split [OF key_sorted [OF assms(1)], of "below r"] range_mono(1) by blast
  have "sorted (map ?key vs)" using key_sorted [OF assms(1)] u(1) by (simp add: sorted_append)
  then obtain ms ws where m: "vs = ms @ ws" "\<forall>a \<in> set ms. \<not> beyond r (?key a)" "\<forall>a \<in> set ws. beyond r (?key a)"
    using split [of vs "\<lambda>k. \<not> beyond r k"] range_mono(2) by blast
  have nn: "\<not> dbl_isnan (nd_score (sl_heap s a))" if "a \<in> set as" for a using sl_invD(15) [OF assms(1) that] .
  have "filter (in_range s r) us = []" "filter (in_range s r) ms = ms" "filter (in_range s r) ws = []"
    using u m nn range_key(1) [OF assms(2)] by (auto simp: filter_empty_conv filter_id_conv)
  then have "filter (in_range s r) as = ms" using u(1) m(1) by simp
  with u m that [of us ms ws] show thesis by auto
qed

lemma sl_firstInRange_rep:
  assumes inv: "sl_inv s as" and r: "sr_ok r"
  shows "sl_firstInRange r s = (case filter (in_range s r) as of [] \<Rightarrow> None | a # _ \<Rightarrow> Some a)"
proof -
  let ?key = "\<lambda>a. dbl_key (nd_score (sl_heap s a))"
  note iv = sl_invD [OF inv]
  obtain us ms ws where m: "as = us @ ms @ ws" "\<forall>a \<in> set us. below r (?key a)" "\<forall>a \<in> set (ms @ ws). \<not> below r (?key a)"
    "\<forall>a \<in> set ws. beyond r (?key a)" "\<forall>a \<in> set ms. \<not> beyond r (?key a)" "filter (in_range s r) as = ms"
    using inv r by (rule range_split)
  let ?go = "\<lambda>n. \<not> sr_pastMin r (nd_score n)"
  have go: "?go (sl_heap s a) \<longleftrightarrow> below r (?key a)" if "a \<in> set as" for a
    using range_key(4) [OF r iv(15) [OF that]] by simp
  have z: "fst (sl_search s ?go ! 0) = last (0 # us)"
    using search_zero [of s us "ms @ ws" ?go] inv m(1-3) go by auto
  have fw: "lv_forward (levelAt s (last (0 # us)) 0) = (if ms @ ws = [] then None else Some (hd (ms @ ws)))"
    using forward_after [of s us "ms @ ws"] inv m(1) by simp
  show ?thesis
  proof (cases "sr_isEmpty r \<or> as = []")
    case True
    have "ms = []" using True range_empty [OF r] m(1,3,5) by (cases ms) auto
    moreover have "sr_isEmpty r \<or> sl_length s = 0" using True iv(5) by auto
    ultimately show ?thesis using m(6) by (simp add: sl_firstInRange_def)
  next
    case False
    then have ne: "\<not> sr_isEmpty r" "sl_length s \<noteq> 0" "sl_tail s = Some (last as)" using iv(14) by (auto simp flip: iv(5))
    have la: "last as \<in> set as" using False by simp
    show ?thesis
    proof (cases "ms @ ws = []")
      case True
      then have "below r (?key (last as))" using m(1,2) la by simp
      with ne True m(6) range_key(2) [OF r iv(15) [OF la]] show ?thesis by (simp add: sl_firstInRange_def)
    next
      case False
      then have "last as \<in> set (ms @ ws)" using m(1) by (metis append_is_Nil_conv last_appendR last_in_set)
      then have "\<not> below r (?key (last as))" using m(3) by blast
      moreover have hd: "hd (ms @ ws) \<in> set as" using False m(1) by (metis Un_iff hd_in_set set_append)
      moreover have "beyond r (?key (hd (ms @ ws))) \<longleftrightarrow> ms = []" using False m(4,5) by (cases ms; cases ws) auto
      ultimately show ?thesis
        using ne False z fw m(6) range_key(2) [OF r iv(15) [OF la]] range_key(3) [OF r iv(15) [OF hd]]
        by (cases ms) (simp_all add: sl_firstInRange_def Let_def)
    qed
  qed
qed

lemma sl_lastInRange_rep:
  assumes inv: "sl_inv s as" and r: "sr_ok r"
  shows "sl_lastInRange r s = (let ms = filter (in_range s r) as in if ms = [] then None else Some (last ms))"
proof -
  let ?key = "\<lambda>a. dbl_key (nd_score (sl_heap s a))"
  note iv = sl_invD [OF inv]
  obtain us ms ws where m: "as = us @ ms @ ws" "\<forall>a \<in> set us. below r (?key a)" "\<forall>a \<in> set (ms @ ws). \<not> below r (?key a)"
    "\<forall>a \<in> set ws. beyond r (?key a)" "\<forall>a \<in> set ms. \<not> beyond r (?key a)" "filter (in_range s r) as = ms"
    using inv r by (rule range_split)
  let ?go = "\<lambda>n. sr_withinMax r (nd_score n)"
  have go: "?go (sl_heap s a) \<longleftrightarrow> \<not> beyond r (?key a)" if "a \<in> set as" for a
    using range_key(5) [OF r iv(15) [OF that]] .
  have hd: "lv_forward (levelAt s 0 0) = (if as = [] then None else Some (hd as))"
    using forward_after [of s "[]" as] inv by simp
  show ?thesis
  proof (cases "sr_isEmpty r \<or> as = []")
    case True
    have "ms = []" using True range_empty [OF r] m(1,3,5) by (cases ms) auto
    moreover have "sr_isEmpty r \<or> sl_length s = 0" using True iv(5) by auto
    ultimately show ?thesis using m(6) by (simp add: sl_lastInRange_def)
  next
    case False
    then have ne: "\<not> sr_isEmpty r" "sl_length s \<noteq> 0" "hd as \<in> set as" by (auto simp flip: iv(5))
    have ab: "beyond r (?key (hd as)) \<Longrightarrow> ms = []"
    proof (rule ccontr)
      assume a: "beyond r (?key (hd as))" "ms \<noteq> []"
      have "?key (hd as) \<le> ?key (hd ms)"
        using key_sorted [OF inv] m(1) a(2) by (cases us; cases ms) (auto simp: sorted_append)
      with a range_mono(2) m(5) show False by (meson hd_in_set)
    qed
    have "\<exists>xs ys. as = xs @ ys \<and> (\<forall>a \<in> set xs. \<not> beyond r (?key a)) \<and> (\<forall>a \<in> set ys. beyond r (?key a)) \<and>
        (if ms \<noteq> [] then xs = us @ ms else set xs \<subseteq> set us)"
    proof (cases "ms = []")
      case True
      let ?p = "\<lambda>a. \<not> beyond r (?key a)"
      have dw: "\<forall>a \<in> set (dropWhile ?p us). beyond r (?key a)"
      proof (cases "dropWhile ?p us")
        case (Cons c cs)
        have "sorted (map ?key us)" using key_sorted [OF inv] m(1) by (simp add: sorted_append)
        then have "sorted (map ?key (dropWhile ?p us))" by (metis map_append sorted_append takeWhile_dropWhile_id)
        moreover have "beyond r (?key c)" using Cons by (metis hd_dropWhile list.distinct(1) list.sel(1))
        moreover have "sorted (map ?key (c # cs))" using calculation(1) Cons by simp
        ultimately have "beyond r (?key a)" if "a \<in> set (c # cs)" for a
          using range_mono(2) [of r "?key c" "?key a"] that by auto
        then show ?thesis unfolding Cons by simp
      qed (metis empty_iff empty_set)
      have "as = takeWhile ?p us @ dropWhile ?p us @ ws" using m(1) True by simp
      moreover have "\<forall>a \<in> set (takeWhile ?p us). \<not> beyond r (?key a)" "set (takeWhile ?p us) \<subseteq> set us"
        using set_takeWhileD [of _ ?p us] by blast+
      moreover have "\<forall>a \<in> set (dropWhile ?p us @ ws). beyond r (?key a)" using dw m(4) by (metis Un_iff set_append)
      ultimately show ?thesis using True by metis
    next
      case False
      have "\<not> beyond r (?key a)" if "a \<in> set us" for a
      proof
        assume "beyond r (?key a)"
        moreover have "?key a \<le> ?key (hd ms)" using key_sorted [OF inv] m(1) that False by (cases ms) (auto simp: sorted_append)
        ultimately show False using range_mono(2) m(5) False by (meson hd_in_set)
      qed
      with False m(1,4,5) show ?thesis by (intro exI [of _ "us @ ms"] exI [of _ ws]) auto
    qed
    then obtain xs ys where x: "as = xs @ ys" "\<forall>a \<in> set xs. \<not> beyond r (?key a)" "\<forall>a \<in> set ys. beyond r (?key a)"
      "if ms \<noteq> [] then xs = us @ ms else set xs \<subseteq> set us" by blast
    have z: "fst (sl_search s ?go ! 0) = last (0 # xs)"
      using search_zero [of s xs ys ?go] inv x(1-3) go by auto
    have l0: "xs \<noteq> [] \<Longrightarrow> last xs \<in> set as \<and> last xs \<noteq> 0" using x(1) iv(2) by (metis UnCI last_in_set set_append)
    have lb: "below r (?key (last xs)) \<longleftrightarrow> ms = []" if ne': "xs \<noteq> []"
    proof (cases "ms = []")
      case True
      then have "last xs \<in> set us" using x(4) last_in_set [OF ne'] by (simp add: subset_iff)
      with True m(2) show ?thesis by blast
    next
      case False
      then have "last xs \<in> set (ms @ ws)" using x(4) by simp
      with False m(3) show ?thesis by blast
    qed
    show ?thesis
    proof (cases "beyond r (?key (hd as)) \<or> xs = []")
      case True
      then have "ms = []" using ab x(4) by (auto split: if_splits)
      with ne hd z True False m(6) range_key(3) [OF r iv(15) [OF ne(3)]] show ?thesis
        by (auto simp: sl_lastInRange_def Let_def)
    next
      case f: False
      have "last xs = last ms" if "ms \<noteq> []" using x(4) that by simp
      with ne hd z f False m(6) lb l0 range_key(3) [OF r iv(15) [OF ne(3)]] range_key(2) [OF r iv(15), of "last xs"]
      show ?thesis by (auto simp: sl_lastInRange_def Let_def)
    qed
  qed
qed

lemma sl_countInRange_rep:
  assumes inv: "sl_inv s as" and r: "sr_ok r"
  shows "sl_countInRange r s = length (filter (in_range s r) as)"
proof -
  obtain us ms ws where m: "as = us @ ms @ ws" "filter (in_range s r) as = ms"
    using inv r by (metis range_split)
  note f = sl_firstInRange_rep [OF inv r] and l = sl_lastInRange_rep [OF inv r]
  show ?thesis
  proof (cases ms)
    case Nil
    with f m(2) show ?thesis by (simp add: sl_countInRange_def)
  next
    case (Cons a rest)
    have "sl_rankOf (nd_score (sl_heap s a)) (nd_member (sl_heap s a)) s = Some (length us)"
      using sl_rankOf_present [of s us a "rest @ ws"] inv m(1) Cons by simp
    moreover have "sl_rankOf (nd_score (sl_heap s (last ms))) (nd_member (sl_heap s (last ms))) s =
        Some (length (us @ butlast ms))"
    proof (rule sl_rankOf_present)
      have "ms = butlast ms @ [last ms]" using Cons by simp
      then show "sl_inv s ((us @ butlast ms) @ last ms # ws)" using inv m(1) by (metis append.assoc append_Cons append_Nil)
    qed
    ultimately show ?thesis using f l m(2) Cons by (simp add: sl_countInRange_def Let_def)
  qed
qed

end
