(* ===== verification/Skiplist_Abs.thy ===== *)
theory Skiplist_Abs
  imports Skiplist_Query
begin

text \<open>
  What the skiplist promises its client, over the list of its entries in order: the addresses, the
  levels and the spans are hidden behind \<open>sl_wf\<close> and \<open>sl_toList\<close>. The properties of the skiplist
  are at the end.
\<close>

section \<open>Entries in order\<close>

definition ekey :: "bytes \<times> double \<Rightarrow> int \<times> bytes" where
  "ekey e = (dbl_key (snd e), fst e)"

definition sl_wf :: "skiplist \<Rightarrow> bool" where
  "sl_wf s \<longleftrightarrow> (\<exists>as. sl_inv s as)"

text \<open>Insertion into a sorted list of entries, the specification of \<open>insert\<close>.\<close>

definition sl_put :: "bytes \<times> double \<Rightarrow> (bytes \<times> double) list \<Rightarrow> (bytes \<times> double) list" where
  "sl_put e xs = takeWhile (\<lambda>x. ekey x < ekey e) xs @ e # dropWhile (\<lambda>x. ekey x < ekey e) xs"

lemma skey_entry: "skey s a = ekey (sl_entry s a)"
  by (simp add: skey_def ekey_def sl_entry_def)

lemma sl_inv_new: "sl_inv sl_new []"
  by (simp add: sl_inv_def sl_new_def linked_Cons node_ok_def height_def levelAt_def sl_noLevel_def kSkipListMaxLevel_def)
     (simp add: linked_def)

lemma sl_wf_new: "sl_wf sl_new"
  using sl_inv_new by (auto simp: sl_wf_def)

lemma sl_toList_new: "sl_toList sl_new = []"
  using sl_toList_rep [OF sl_inv_new] by simp

lemma sl_inv_clear:
  assumes "sl_inv s as"
  shows "sl_inv (sl_clear s) []"
  using sl_invD(4) [OF assms]
  by (simp add: sl_inv_def sl_clear_def linked_Cons node_ok_def height_def levelAt_def sl_noLevel_def kSkipListMaxLevel_def)
     (simp add: linked_def)

lemma sl_length_toList: "sl_wf s \<Longrightarrow> sl_length s = length (sl_toList s)"
  by (auto simp: sl_wf_def sl_toList_rep sl_invD(5))

lemma sl_sorted: "sl_wf s \<Longrightarrow> sorted_wrt (<) (map ekey (sl_toList s))"
  by (auto simp: sl_wf_def sl_toList_rep skey_entry [symmetric] o_def dest: sl_invD(16))

lemma sl_no_nan: "sl_wf s \<Longrightarrow> e \<in> set (sl_toList s) \<Longrightarrow> \<not> dbl_isnan (snd e)"
  using sl_invD(15) by (fastforce simp: sl_wf_def sl_toList_rep sl_entry_def)

lemma sl_mem_key:
  assumes "sl_inv s as"
  shows "ekey (member, score) \<in> ekey ` set (sl_toList s) \<longleftrightarrow> (\<exists>a \<in> set as. skey s a = (dbl_key score, member))"
proof -
  have "ekey ` set (sl_toList s) = skey s ` set as"
    by (simp add: sl_toList_rep [OF assms] image_image skey_entry)
  moreover have "ekey (member, score) = (dbl_key score, member)" by (simp add: ekey_def)
  ultimately show ?thesis by (metis image_iff)
qed

lemma sl_put_split: "\<forall>x \<in> set ys. ekey x < ekey e \<Longrightarrow> \<forall>x \<in> set zs. ekey e < ekey x \<Longrightarrow> sl_put e (ys @ zs) = ys @ e # zs"
  by (cases zs) (auto simp: sl_put_def takeWhile_append dropWhile_append)

lemma sl_insert_put:
  assumes "sl_wf s" and "1 \<le> H" "H \<le> kSkipListMaxLevel" and "\<not> dbl_isnan score"
    and new: "ekey (member, score) \<notin> ekey ` set (sl_toList s)" and "sl_length s + 1 < 2 ^ 63"
  shows "sl_wf (sl_insert H score member s)" "sl_toList (sl_insert H score member s) = sl_put (member, score) (sl_toList s)"
proof -
  from assms(1) obtain as where inv: "sl_inv s as" by (auto simp: sl_wf_def)
  have H: "H \<le> 32" using assms(3) by (simp add: kSkipListMaxLevel_def)
  have n: "skey s a \<noteq> (dbl_key score, member)" if "a \<in> set as" for a
    using new that sl_mem_key [OF inv] by blast
  obtain ys zs where yz: "as = ys @ zs" "\<And>a. a \<in> set ys \<Longrightarrow> skey s a < (dbl_key score, member)"
    "\<And>a. a \<in> set zs \<Longrightarrow> (dbl_key score, member) < skey s a" "sl_inv (sl_insert H score member s) (ys @ sl_fresh s # zs)"
    "\<And>a. a \<in> set as \<Longrightarrow> sl_entry (sl_insert H score member s) a = sl_entry s a"
    "sl_entry (sl_insert H score member s) (sl_fresh s) = (member, score)"
    using sl_insert_inv [OF inv assms(2) H assms(4) n assms(6)] by blast
  from yz(4) show "sl_wf (sl_insert H score member s)" by (auto simp: sl_wf_def)
  have "map (sl_entry (sl_insert H score member s)) (ys @ sl_fresh s # zs) =
      map (sl_entry s) ys @ (member, score) # map (sl_entry s) zs"
    using yz(1,5,6) by simp
  also have "\<dots> = sl_put (member, score) (map (sl_entry s) ys @ map (sl_entry s) zs)"
    using yz(2,3) by (intro sl_put_split [symmetric]) (auto simp: skey_entry ekey_def)
  finally show "sl_toList (sl_insert H score member s) = sl_put (member, score) (sl_toList s)"
    using yz(1) sl_toList_rep [OF yz(4)] sl_toList_rep [OF inv] by simp
qed

lemma sl_remove_filter:
  assumes "sl_wf s" and "\<not> dbl_isnan score"
  obtains s' where "sl_remove score member s = (ekey (member, score) \<in> ekey ` set (sl_toList s), s')" "sl_wf s'"
    "sl_toList s' = filter (\<lambda>e. ekey e \<noteq> ekey (member, score)) (sl_toList s)"
proof -
  from assms(1) obtain as where inv: "sl_inv s as" by (auto simp: sl_wf_def)
  note l = sl_toList_rep [OF inv]
  show thesis
  proof (cases "ekey (member, score) \<in> ekey ` set (sl_toList s)")
    case True
    then obtain x where x: "x \<in> set as" "skey s x = (dbl_key score, member)" using sl_mem_key [OF inv] by blast
    obtain ys zs s' where r: "as = ys @ x # zs" "sl_remove score member s = (True, s')" "sl_inv s' (ys @ zs)"
      "sl_entry s' = sl_entry s" by (rule sl_remove_inv [OF inv assms(2) x])
    have "sorted_wrt (<) (map (skey s) as)" using sl_invD(16) [OF inv] .
    then have "filter (\<lambda>a. skey s a \<noteq> (dbl_key score, member)) ys = ys"
      "filter (\<lambda>a. skey s a \<noteq> (dbl_key score, member)) zs = zs"
      using x(2) unfolding r(1) filter_id_conv by (auto simp: sorted_wrt_append)
    then have "filter (\<lambda>e. ekey e \<noteq> ekey (member, score)) (map (sl_entry s) as) = map (sl_entry s) (ys @ zs)"
      using x(2) by (simp add: r(1) filter_map o_def skey_entry [symmetric] ekey_def [of "(member, score)"])
    with r that [of s'] True show thesis by (auto simp: sl_wf_def l sl_toList_rep [OF r(3)])
  next
    case False
    then have "skey s a \<noteq> (dbl_key score, member)" if "a \<in> set as" for a
      using that sl_mem_key [OF inv] by blast
    then have "sl_remove score member s = (False, s)" by (rule sl_remove_absent [OF inv assms(2)])
    moreover have "filter (\<lambda>e. ekey e \<noteq> ekey (member, score)) (sl_toList s) = sl_toList s"
      using False unfolding filter_id_conv by (metis image_eqI)
    ultimately show thesis using that [of s] False assms(1) by simp
  qed
qed

section \<open>Queries over the entries\<close>

lemma sl_rankOf_entries:
  assumes "sl_wf s" and "\<not> dbl_isnan score"
  shows "sl_rankOf score member s =
    (if ekey (member, score) \<in> ekey ` set (sl_toList s)
     then Some (length (filter (\<lambda>e. ekey e < ekey (member, score)) (sl_toList s))) else None)"
proof -
  from assms(1) obtain as where inv: "sl_inv s as" by (auto simp: sl_wf_def)
  note l = sl_toList_rep [OF inv]
  show ?thesis
  proof (cases "ekey (member, score) \<in> ekey ` set (sl_toList s)")
    case True
    then obtain x where x: "x \<in> set as" "skey s x = (dbl_key score, member)" using sl_mem_key [OF inv] by blast
    obtain ys zs where yz: "as = ys @ x # zs" using x(1) by (meson split_list)
    have so: "sorted_wrt (<) (map (skey s) as)" using sl_invD(16) [OF inv] .
    have lt: "\<forall>a \<in> set ys. skey s a < (dbl_key score, member)" "\<forall>a \<in> set zs. \<not> skey s a < (dbl_key score, member)"
      using so x(2) by (auto simp: yz sorted_wrt_append)
    have nn: "\<not> dbl_isnan (nd_score (sl_heap s x))" using sl_invD(15) [OF inv x(1)] .
    let ?k = "(dbl_key score, member)"
    have "rankLevels s score member (sl_level s) sl_header 0 = Some (of_nat (length ys))"
      using rankLevels_rep [of s ys "x # zs" score member "sl_level s" "[]" 0 ys 0] inv yz lt assms(2) x(2) sl_invD(7,8,9) [OF inv]
      by (simp add: not_less)
    moreover have "unat (of_nat (length ys) :: 64 word) = length ys"
      using sl_invD(5,6) [OF inv] yz by (simp add: unat_of_nat)
    moreover have "filter (\<lambda>a. skey s a < ?k) as = ys" using lt x(2) by (simp add: yz)
    ultimately show ?thesis using True
      by (simp add: sl_rankOf_def l filter_map o_def skey_entry [symmetric] ekey_def [of "(member, score)"])
  next
    case False
    then have "skey s a \<noteq> (dbl_key score, member)" if "a \<in> set as" for a
      using that sl_mem_key [OF inv] by blast
    then show ?thesis using False sl_rankOf_absent [OF inv assms(2)] by auto
  qed
qed

lemma sl_nodeByRank_entries:
  assumes "sl_wf s"
  shows "map_option (sl_entry s) (sl_nodeByRank n s) = (if n < length (sl_toList s) then Some (sl_toList s ! n) else None)"
  using assms by (auto simp: sl_wf_def sl_nodeByRank_rep sl_toList_rep)

lemma sl_range_entries:
  assumes "sl_wf s" and "sr_ok r" and "ms = filter (\<lambda>e. sr_containsScore r (snd e)) (sl_toList s)"
  shows "map_option (sl_entry s) (sl_firstInRange r s) = (if ms = [] then None else Some (hd ms))"
    and "map_option (sl_entry s) (sl_lastInRange r s) = (if ms = [] then None else Some (last ms))"
    and "sl_countInRange r s = length ms"
proof -
  from assms(1) obtain as where inv: "sl_inv s as" by (auto simp: sl_wf_def)
  have m: "ms = map (sl_entry s) (filter (in_range s r) as)"
    by (simp add: assms(3) sl_toList_rep [OF inv] filter_map o_def sl_entry_def)
  show "map_option (sl_entry s) (sl_firstInRange r s) = (if ms = [] then None else Some (hd ms))"
    unfolding m sl_firstInRange_rep [OF inv assms(2)] by (simp split: list.split)
  show "map_option (sl_entry s) (sl_lastInRange r s) = (if ms = [] then None else Some (last ms))"
    unfolding m sl_lastInRange_rep [OF inv assms(2)] by (simp add: Let_def last_map)
  show "sl_countInRange r s = length ms"
    unfolding m sl_countInRange_rep [OF inv assms(2)] by simp
qed

section \<open>Levels of new nodes\<close>

lemma randomLevelLoop_bounds:
  "level \<le> fst (randomLevelLoop left rng n level) \<and> fst (randomLevelLoop left rng n level) \<le> level + left"
proof (induction left arbitrary: n level)
  case (Suc left)
  from Suc.IH [of "level + 1" "n + 1"] show ?case by simp
qed simp

text \<open>A level drawn for a new node is between one and 32, whatever the generator returns.\<close>

lemma randomLevel_bounds: "1 \<le> fst (randomLevel rng n) \<and> fst (randomLevel rng n) \<le> kSkipListMaxLevel"
  using randomLevelLoop_bounds [of 1 "kSkipListMaxLevel - 1" rng n] by (simp add: randomLevel_def kSkipListMaxLevel_def)

lemma sl_ops:
  assumes "sl_wf s" and "1 \<le> H" "H \<le> kSkipListMaxLevel" and "\<not> dbl_isnan score" "\<not> dbl_isnan old"
    and "ekey (member, score) \<notin> ekey ` set (sl_toList s)" and "sl_length s + 1 < 2 ^ 63"
  shows "sl_wf (sl_insert H score member s) \<and> sl_toList (sl_insert H score member s) = sl_put (member, score) (sl_toList s)"
    and "\<exists>s'. sl_remove old member s = (ekey (member, old) \<in> ekey ` set (sl_toList s), s') \<and> sl_wf s' \<and>
      sl_toList s' = filter (\<lambda>e. ekey e \<noteq> ekey (member, old)) (sl_toList s)"
    and "\<exists>s'. sl_updateScore H old member score s = (ekey (member, old) \<in> ekey ` set (sl_toList s), s') \<and> sl_wf s' \<and>
      sl_toList s' = (let rest = filter (\<lambda>e. ekey e \<noteq> ekey (member, old)) (sl_toList s) in
        if ekey (member, old) \<in> ekey ` set (sl_toList s) then sl_put (member, score) rest else rest)"
    and "sl_wf (sl_clear s) \<and> sl_toList (sl_clear s) = []"
proof -
  show "sl_wf (sl_insert H score member s) \<and> sl_toList (sl_insert H score member s) = sl_put (member, score) (sl_toList s)"
    using sl_insert_put [OF assms(1-4,6,7)] by simp
  obtain s' where r: "sl_remove old member s = (ekey (member, old) \<in> ekey ` set (sl_toList s), s')" "sl_wf s'"
    "sl_toList s' = filter (\<lambda>e. ekey e \<noteq> ekey (member, old)) (sl_toList s)"
    by (rule sl_remove_filter [OF assms(1,5)])
  then show "\<exists>s'. sl_remove old member s = (ekey (member, old) \<in> ekey ` set (sl_toList s), s') \<and> sl_wf s' \<and>
      sl_toList s' = filter (\<lambda>e. ekey e \<noteq> ekey (member, old)) (sl_toList s)" by blast
  have "ekey (member, score) \<notin> ekey ` set (sl_toList s')" using assms(6) r(3) by auto
  moreover have "sl_length s' + 1 < 2 ^ 63"
    using assms(7) sl_length_toList [OF r(2)] sl_length_toList [OF assms(1)]
      length_filter_le [of "\<lambda>e. ekey e \<noteq> ekey (member, old)" "sl_toList s"]
    unfolding r(3) by linarith
  ultimately have i: "sl_wf (sl_insert H score member s')" "sl_toList (sl_insert H score member s') = sl_put (member, score) (sl_toList s')"
    using sl_insert_put [OF r(2) assms(2-4)] by blast+
  show "\<exists>s'. sl_updateScore H old member score s = (ekey (member, old) \<in> ekey ` set (sl_toList s), s') \<and> sl_wf s' \<and>
      sl_toList s' = (let rest = filter (\<lambda>e. ekey e \<noteq> ekey (member, old)) (sl_toList s) in
        if ekey (member, old) \<in> ekey ` set (sl_toList s) then sl_put (member, score) rest else rest)"
  proof (cases "ekey (member, old) \<in> ekey ` set (sl_toList s)")
    case True
    with r i show ?thesis by (intro exI [of _ "sl_insert H score member s'"]) (simp add: sl_updateScore_def)
  next
    case False
    with r show ?thesis by (intro exI [of _ s']) (simp add: sl_updateScore_def)
  qed
  obtain as where "sl_inv s as" using assms(1) by (auto simp: sl_wf_def)
  then have "sl_inv (sl_clear s) []" by (rule sl_inv_clear)
  then show "sl_wf (sl_clear s) \<and> sl_toList (sl_clear s) = []" using sl_toList_rep by (fastforce simp: sl_wf_def)
qed

section \<open>Properties\<close>

text \<open>C17: Inserting a new member, removing a member and changing the score of a member keep the
  skiplist well formed and are insertion into, removal from and move within the list of entries
  sorted by score and member; \<open>remove\<close> reports whether the member was there with that score, and
  without it changes nothing visible. The levels drawn for the nodes have no influence on the list.\<close>

theorem skiplist_refines_sorted:
  assumes "sl_wf s" and "1 \<le> H" "H \<le> kSkipListMaxLevel" and "\<not> dbl_isnan score" "\<not> dbl_isnan old"
    and "ekey (member, score) \<notin> ekey ` set (sl_toList s)" and "sl_length s + 1 < 2 ^ 63"
  shows "(sl_wf (sl_insert H score member s) \<and>
      sl_toList (sl_insert H score member s) = sl_put (member, score) (sl_toList s)) \<and>
    (\<exists>s'. sl_remove old member s = (ekey (member, old) \<in> ekey ` set (sl_toList s), s') \<and> sl_wf s' \<and>
      sl_toList s' = filter (\<lambda>e. ekey e \<noteq> ekey (member, old)) (sl_toList s)) \<and>
    (\<exists>s'. sl_updateScore H old member score s = (ekey (member, old) \<in> ekey ` set (sl_toList s), s') \<and> sl_wf s' \<and>
      sl_toList s' = (let rest = filter (\<lambda>e. ekey e \<noteq> ekey (member, old)) (sl_toList s) in
        if ekey (member, old) \<in> ekey ` set (sl_toList s) then sl_put (member, score) rest else rest)) \<and>
    sl_wf (sl_clear s) \<and> sl_toList (sl_clear s) = []"
  using sl_ops [OF assms] by (elim conjE) (intro conjI)

definition sl_one :: skiplist where
  "sl_one = sl_insert 1 (dbl_of_int 1) (str ''a'') sl_new"

lemma sl_sample:
  shows "\<not> dbl_isnan (dbl_of_int 1)" "\<not> dbl_isnan (dbl_of_int 2)" "dbl_key (dbl_of_int 1) < dbl_key (dbl_of_int 2)"
    and "sl_wf sl_one"
    and "sl_toList sl_one = [(str ''a'', dbl_of_int 1)]"
proof -
  show n: "\<not> dbl_isnan (dbl_of_int 1)" "\<not> dbl_isnan (dbl_of_int 2)" "dbl_key (dbl_of_int 1) < dbl_key (dbl_of_int 2)"
    by (simp_all add: dbl_of_int_def round_ratio_def dbl_make_def Let_def dbl_key_def dbl_neg_def dbl_mag_def
        dbl_isnan_def kExpMask_def kFracMask_def)
  have "(1 :: nat) \<le> kSkipListMaxLevel" "sl_length sl_new + 1 < 2 ^ 63" by (simp_all add: kSkipListMaxLevel_def sl_new_def)
  then show "sl_wf sl_one"
    "sl_toList sl_one = [(str ''a'', dbl_of_int 1)]"
    using sl_insert_put [OF sl_wf_new order_refl _ n(1), of "str ''a''"] unfolding sl_one_def sl_toList_new
    by (simp_all add: sl_put_def)
qed

theorem skiplist_refines_sorted_witness:
  "sl_toList (sl_insert 3 (dbl_of_int 2) (str ''b'') sl_one) =
   [(str ''a'', dbl_of_int 1), (str ''b'', dbl_of_int 2)]"
proof -
  have "sl_length sl_one = 1" using sl_length_toList [OF sl_sample(4)] sl_sample(5) by simp
  then have l: "(3 :: nat) \<le> kSkipListMaxLevel" "sl_length sl_one + 1 < 2 ^ 63" by (simp_all add: kSkipListMaxLevel_def)
  have "ekey (str ''b'', dbl_of_int 2) \<notin> ekey ` set (sl_toList sl_one)"
    using sl_sample(3) by (simp add: sl_sample(5) ekey_def)
  then show ?thesis
    using skiplist_refines_sorted [OF sl_sample(4) _ l(1) sl_sample(2,1) _ l(2), THEN conjunct1] sl_sample(3)
    by (simp add: sl_sample(5) sl_put_def ekey_def)
qed

text \<open>C18: The rank of a member is the number of entries in front of it, and a member that is absent or
  has another score has none; the node at a rank is the entry at that position, and a rank past the
  end has none. The spans are 64-bit words; the sums over them never wrap.\<close>

theorem skiplist_ranks:
  assumes "sl_wf s" and "\<not> dbl_isnan score"
  shows "sl_rankOf score member s =
      (if ekey (member, score) \<in> ekey ` set (sl_toList s)
       then Some (length (filter (\<lambda>e. ekey e < ekey (member, score)) (sl_toList s))) else None) \<and>
    map_option (sl_entry s) (sl_nodeByRank n s) = (if n < length (sl_toList s) then Some (sl_toList s ! n) else None)"
  using sl_rankOf_entries [OF assms] sl_nodeByRank_entries [OF assms(1)] by auto

theorem skiplist_ranks_witness:
  "sl_rankOf (dbl_of_int 1) (str ''a'') sl_one = Some 0"
proof -
  show ?thesis using skiplist_ranks [OF sl_sample(4,1), of "str ''a''"] by (simp add: sl_sample(5))
qed

text \<open>C19: For score bounds that are numbers, the first and the last node in a range and the number of
  nodes in it are those of the entries whose score \<open>containsScore\<close> accepts, with bounds inclusive or
  exclusive and in either order.\<close>

theorem skiplist_score_ranges:
  assumes "sl_wf s" and "\<not> dbl_isnan (sr_min r)" "\<not> dbl_isnan (sr_max r)"
    and "ms = filter (\<lambda>e. sr_containsScore r (snd e)) (sl_toList s)"
  shows "map_option (sl_entry s) (sl_firstInRange r s) = (if ms = [] then None else Some (hd ms)) \<and>
    map_option (sl_entry s) (sl_lastInRange r s) = (if ms = [] then None else Some (last ms)) \<and>
    sl_countInRange r s = length ms"
  using sl_range_entries [OF assms(1) _ assms(4)] assms(2,3) by (simp_all add: sr_ok_def)

theorem skiplist_score_ranges_witness:
  "sl_countInRange \<lparr>sr_min = dbl_of_int 1, sr_max = dbl_of_int 2, sr_min_exclusive = False, sr_max_exclusive = True\<rparr>
     sl_one = 1"
proof -
  let ?r = "\<lparr>sr_min = dbl_of_int 1, sr_max = dbl_of_int 2, sr_min_exclusive = False, sr_max_exclusive = True\<rparr>"
  have c: "sr_containsScore ?r (dbl_of_int 1)"
    using sl_sample(1,2,3) by (simp add: sr_containsScore_def sr_belowMin_def sr_aboveMax_def dbl_lt_def dbl_le_def)
  show ?thesis using skiplist_score_ranges [OF sl_sample(4) _ _ refl, of ?r] c sl_sample(1,2) by (simp add: sl_sample(5))
qed

end
