(* ===== verification/ZSet_Value.thy ===== *)
theory ZSet_Value
  imports Hash_Value Dtoa Skiplist_Abs
begin

text \<open>
  Model of \<open>ZSetValue\<close> of \<open>src/core/collections.h\<close> and \<open>collections.cpp\<close>: a sorted set is a listpack
  of alternating members and score texts, ordered by score and member, until it outgrows its
  limits, and a skiplist with a table from members to scores from then on.

  An operation that may insert into the skiplist takes the draws \<open>rng\<close> of the level generator and
  the position \<open>n\<close> of the next draw, and returns the position it leaves. Both encodings implement
  one finite map from members to scores, listed in the order of score and member. Scores are
  identified up to \<open>==\<close>, through \<open>dbl_key\<close>: \<open>0.0\<close> and \<open>-0.0\<close> are one score.
\<close>

section \<open>The value\<close>

definition scoreToString :: "double \<Rightarrow> bytes" where
  "scoreToString score = d2string score"

definition scoreFromString :: "bytes \<Rightarrow> double" where
  "scoreFromString s = fst (strtod s)"

record zsetvalue =
  zv_encoding :: ObjEncoding
  zv_listpack :: bytes
  zv_skiplist :: skiplist
  zv_scores :: "double dict"

definition zv_new :: zsetvalue where
  "zv_new = \<lparr>zv_encoding = ListPack, zv_listpack = lp_new, zv_skiplist = sl_new, zv_scores = dict_new\<rparr>"

definition zv_size :: "zsetvalue \<Rightarrow> nat" where
  "zv_size z = (if zv_encoding z = ListPack then lp_numElements (zv_listpack z) div 2
                else dict_size (zv_scores z))"

text \<open>An integer element is a score converted by a cast, a string element one read as text.\<close>

fun elementScore :: "lp_element \<Rightarrow> double" where
  "elementScore (LpInt n) = dbl_of_int n"
| "elementScore (LpStr s) = scoreFromString s"

definition zv_score :: "bytes \<Rightarrow> zsetvalue \<Rightarrow> double option \<times> zsetvalue" where
  "zv_score member z =
     (if zv_encoding z = SkipList then
        (case dict_find member (zv_scores z) of (found, t) \<Rightarrow> (found, z\<lparr>zv_scores := t\<rparr>))
      else case lp_find (zv_listpack z) member 0 2 of
          None \<Rightarrow> (None, z)
        | Some index \<Rightarrow> (map_option elementScore (lp_get (zv_listpack z) (index + 1)), z))"

text \<open>A new node of the skiplist, with the level it draws.\<close>

definition insertNode :: "(nat \<Rightarrow> 32 word) \<Rightarrow> nat \<Rightarrow> double \<Rightarrow> bytes \<Rightarrow> skiplist \<Rightarrow> nat \<times> skiplist" where
  "insertNode rng n score member s =
     (case randomLevel rng n of (H, n') \<Rightarrow> (n', sl_insert H score member s))"

fun convertLoop :: "(nat \<Rightarrow> 32 word) \<Rightarrow> nat \<Rightarrow> bytes list \<Rightarrow> skiplist \<Rightarrow> double dict \<Rightarrow> nat \<times> skiplist \<times> double dict" where
  "convertLoop rng n (m # t # rest) sl scores =
     (let s = scoreFromString t;
          (n', sl') = insertNode rng n s m sl
      in convertLoop rng n' rest sl' (snd (dict_insert m s scores)))"
| "convertLoop rng n _ sl scores = (n, sl, scores)"

definition convertToSkipList :: "(nat \<Rightarrow> 32 word) \<Rightarrow> nat \<Rightarrow> zsetvalue \<Rightarrow> nat \<times> zsetvalue" where
  "convertToSkipList rng n z =
     (if zv_encoding z = SkipList then (n, z)
      else case convertLoop rng n (lp_toStrings (zv_listpack z)) (zv_skiplist z) (zv_scores z) of
        (n', sl, scores) \<Rightarrow>
          (n', z\<lparr>zv_skiplist := sl, zv_scores := scores, zv_listpack := lp_clear (zv_listpack z),
                 zv_encoding := SkipList\<rparr>))"

text \<open>The loop over the members of an adopted listpack, \<open>None\<close> when an element cannot be read.\<close>

function longestMember :: "bytes \<Rightarrow> nat \<Rightarrow> nat \<Rightarrow> nat \<Rightarrow> nat option" where
  "longestMember lp count' i longest =
     (if i < count' then
        (case lp_get lp i of
           None \<Rightarrow> None
         | Some (LpInt _) \<Rightarrow> longestMember lp count' (i + 2) longest
         | Some (LpStr s) \<Rightarrow> longestMember lp count' (i + 2) (max longest (length s)))
      else Some longest)"
  by pat_completeness auto
termination by (relation "measure (\<lambda>(lp, n, i, longest). n - i)") auto

declare longestMember.simps [simp del]

definition zv_adoptListpack :: "(nat \<Rightarrow> 32 word) \<Rightarrow> nat \<Rightarrow> bytes \<Rightarrow> zsetvalue \<Rightarrow> bool \<times> nat \<times> zsetvalue" where
  "zv_adoptListpack rng n lp z =
     (if lp_numElements lp mod 2 \<noteq> 0 then (False, n, z)
      else case longestMember lp (lp_numElements lp) 0 0 of
          None \<Rightarrow> (False, n, z)
        | Some longest \<Rightarrow>
            let z1 = z\<lparr>zv_listpack := lp, zv_encoding := ListPack\<rparr> in
            (True,
             if lp_numElements lp div 2 > zset_max_listpack_entries defaultLimits
                \<or> longest > zset_max_listpack_value defaultLimits
             then convertToSkipList rng n z1 else (n, z1)))"

text \<open>The first pair that belongs behind the new one; the end when there is none.\<close>

function insertPosition :: "bytes \<Rightarrow> bytes \<Rightarrow> double \<Rightarrow> nat \<Rightarrow> nat" where
  "insertPosition lp member new_score i =
     (if i < lp_numElements lp then
        (case (lp_get lp i, lp_get lp (i + 1)) of
           (Some member_element, Some score_element) \<Rightarrow>
             let existing = elementScore score_element;
                 existing_member = lp_toString member_element
             in if dbl_lt new_score existing \<or> (dbl_eq existing new_score \<and> member < existing_member)
                then i else insertPosition lp member new_score (i + 2)
         | _ \<Rightarrow> lp_numElements lp)
      else lp_numElements lp)"
  by pat_completeness auto
termination by (relation "measure (\<lambda>(lp, member, new_score, i). lp_numElements lp - i)") auto

declare insertPosition.simps [simp del]

definition listpackAdd :: "bytes \<Rightarrow> double \<Rightarrow> bytes \<Rightarrow> bytes" where
  "listpackAdd member new_score lp =
     (let insert_at = insertPosition lp member new_score 0
      in snd (lp_insertAt (insert_at + 1) (scoreToString new_score) (snd (lp_insertAt insert_at member lp))))"

definition skiplistAdd :: "(nat \<Rightarrow> 32 word) \<Rightarrow> nat \<Rightarrow> bytes \<Rightarrow> double \<Rightarrow> zsetvalue \<Rightarrow> bool \<times> nat \<times> zsetvalue" where
  "skiplistAdd rng n member new_score z =
     (case dict_find member (zv_scores z) of
        (Some old_score, t) \<Rightarrow>
          if dbl_eq old_score new_score then (False, n, z\<lparr>zv_scores := t\<rparr>)
          else (case insertNode rng n new_score member (snd (sl_remove old_score member (zv_skiplist z))) of
                  (n', sl) \<Rightarrow> (False, n', z\<lparr>zv_skiplist := sl, zv_scores := snd (dict_insert member new_score t)\<rparr>))
      | (None, t) \<Rightarrow>
          (case insertNode rng n new_score member (zv_skiplist z) of
             (n', sl) \<Rightarrow> (True, n', z\<lparr>zv_skiplist := sl, zv_scores := snd (dict_insert member new_score t)\<rparr>)))"

definition zv_add :: "(nat \<Rightarrow> 32 word) \<Rightarrow> nat \<Rightarrow> bytes \<Rightarrow> double \<Rightarrow> zsetvalue \<Rightarrow> bool \<times> nat \<times> zsetvalue" where
  "zv_add rng n member new_score z =
     (if zv_encoding z = ListPack then
        (case lp_find (zv_listpack z) member 0 2 of
           Some index \<Rightarrow>
             (False, n, z\<lparr>zv_listpack := listpackAdd member new_score (snd (lp_eraseRange index 2 (zv_listpack z)))\<rparr>)
         | None \<Rightarrow>
             if zv_size z \<ge> zset_max_listpack_entries defaultLimits
                \<or> length member > zset_max_listpack_value defaultLimits
             then (case convertToSkipList rng n z of (n', z') \<Rightarrow> skiplistAdd rng n' member new_score z')
             else (True, n, z\<lparr>zv_listpack := listpackAdd member new_score (zv_listpack z)\<rparr>))
      else skiplistAdd rng n member new_score z)"

definition zv_erase :: "bytes \<Rightarrow> zsetvalue \<Rightarrow> bool \<times> zsetvalue" where
  "zv_erase member z =
     (if zv_encoding z = ListPack then
        (case lp_find (zv_listpack z) member 0 2 of
           None \<Rightarrow> (False, z)
         | Some index \<Rightarrow>
             (case lp_eraseRange index 2 (zv_listpack z) of (erased, lp) \<Rightarrow> (erased, z\<lparr>zv_listpack := lp\<rparr>)))
      else case dict_find member (zv_scores z) of
          (None, t) \<Rightarrow> (False, z\<lparr>zv_scores := t\<rparr>)
        | (Some existing, t) \<Rightarrow>
            (True, z\<lparr>zv_skiplist := snd (sl_remove existing member (zv_skiplist z)),
                    zv_scores := snd (dict_erase member t)\<rparr>))"

definition zv_rank :: "bytes \<Rightarrow> zsetvalue \<Rightarrow> nat option \<times> zsetvalue" where
  "zv_rank member z =
     (if zv_encoding z = SkipList then
        (case dict_find member (zv_scores z) of
           (None, t) \<Rightarrow> (None, z\<lparr>zv_scores := t\<rparr>)
         | (Some found, t) \<Rightarrow> (sl_rankOf found member (zv_skiplist z), z\<lparr>zv_scores := t\<rparr>))
      else (map_option (\<lambda>index. index div 2) (lp_find (zv_listpack z) member 0 2), z))"

fun pairScores :: "bytes list \<Rightarrow> (bytes \<times> double) list" where
  "pairScores (m # t # rest) = (m, scoreFromString t) # pairScores rest"
| "pairScores _ = []"

definition zv_all :: "zsetvalue \<Rightarrow> (bytes \<times> double) list" where
  "zv_all z = (if zv_encoding z = ListPack then pairScores (lp_toStrings (zv_listpack z))
               else sl_toList (zv_skiplist z))"

text \<open>The two bounds become the iterators of a vector constructor; when the second lies before the first
  the constructor has no defined result, which is \<open>None\<close>.\<close>

definition zv_range :: "nat \<Rightarrow> nat \<Rightarrow> zsetvalue \<Rightarrow> (bytes \<times> double) list option" where
  "zv_range start stop z =
     (let everything = zv_all z in
      if start \<ge> length everything then Some []
      else let stop = min stop (length everything - 1) in
           if stop + 1 < start then None else Some (drop start (take (stop + 1) everything)))"

definition zv_rangeByScore :: "ScoreRange \<Rightarrow> zsetvalue \<Rightarrow> (bytes \<times> double) list" where
  "zv_rangeByScore r z =
     (if sr_isEmpty r then []
      else if zv_encoding z = SkipList then
        takeWhile (\<lambda>(member, score). sr_containsScore r score)
          (map (sl_entry (zv_skiplist z))
            (chainFrom (sl_length (zv_skiplist z)) (zv_skiplist z) (sl_firstInRange r (zv_skiplist z))))
      else filter (\<lambda>(member, score). sr_containsScore r score) (zv_all z))"

fun lexLoop :: "LexRange \<Rightarrow> bool \<Rightarrow> (bytes \<times> double) list \<Rightarrow> (bytes \<times> double) list" where
  "lexLoop r started [] = []"
| "lexLoop r started (entry # es) =
     (if \<not> started \<and> \<not> lr_aboveMin r (fst entry) then lexLoop r False es
      else if \<not> lr_belowMax r (fst entry) then []
      else entry # lexLoop r True es)"

definition zv_rangeByLex :: "LexRange \<Rightarrow> zsetvalue \<Rightarrow> (bytes \<times> double) list" where
  "zv_rangeByLex r z = (if lr_isEmpty r then [] else lexLoop r False (zv_all z))"

text \<open>The copy constructor rebuilds the set from its logical contents.\<close>

fun addAll :: "(nat \<Rightarrow> 32 word) \<Rightarrow> nat \<Rightarrow> (bytes \<times> double) list \<Rightarrow> zsetvalue \<Rightarrow> nat \<times> zsetvalue" where
  "addAll rng n [] z = (n, z)"
| "addAll rng n ((member, score) # es) z =
     (case zv_add rng n member score z of (_, n', z') \<Rightarrow> addAll rng n' es z')"

definition zv_copy :: "(nat \<Rightarrow> 32 word) \<Rightarrow> nat \<Rightarrow> zsetvalue \<Rightarrow> nat \<times> zsetvalue" where
  "zv_copy rng n other = addAll rng n (zv_all other) zv_new"

section \<open>Sorted lists of entries\<close>

text \<open>What both encodings keep of their entries, and the map from members to scores.\<close>

definition zs_ok :: "(bytes \<times> double) list \<Rightarrow> bool" where
  "zs_ok es \<longleftrightarrow> sorted_wrt (<) (map ekey es) \<and> distinct (map fst es) \<and> (\<forall>e \<in> set es. \<not> dbl_isnan (snd e))"

definition zs_map :: "(bytes \<times> double) list \<Rightarrow> bytes \<Rightarrow> int option" where
  "zs_map es m = map_option dbl_key (map_of es m)"

lemma ekey_eq: "ekey e = ekey e' \<longleftrightarrow> dbl_key (snd e) = dbl_key (snd e') \<and> fst e = fst e'"
  by (simp add: ekey_def)

lemma ekey_new: "m \<notin> fst ` set es \<Longrightarrow> ekey (m, s) \<notin> ekey ` set es"
  by (force simp: ekey_def image_iff)

lemma zs_ok_Nil [simp]: "zs_ok []"
  by (simp add: zs_ok_def)

lemma zs_map_None: "zs_map es m = None \<longleftrightarrow> m \<notin> fst ` set es"
  by (simp add: zs_map_def map_of_eq_None_iff)

lemma zs_remove:
  assumes "zs_ok es"
  shows "zs_ok (filter (\<lambda>e. fst e \<noteq> m) es)" "zs_map (filter (\<lambda>e. fst e \<noteq> m) es) = (zs_map es)(m := None)"
proof -
  show "zs_ok (filter (\<lambda>e. fst e \<noteq> m) es)"
    using assms by (auto simp: zs_ok_def sorted_wrt_map sorted_wrt_filter distinct_map_filter)
  have "map_of (filter (\<lambda>e. fst e \<noteq> m) es) x = (if x = m then None else map_of es x)" for x
    by (induction es) auto
  then show "zs_map (filter (\<lambda>e. fst e \<noteq> m) es) = (zs_map es)(m := None)"
    by (auto simp: zs_map_def)
qed

lemma sorted_cut:
  fixes k :: "'a :: linorder"
  assumes "sorted_wrt (<) (map f xs)" and "k \<notin> f ` set xs" and "x \<in> set (dropWhile (\<lambda>x. f x < k) xs)"
  shows "k < f x"
proof -
  obtain y ys where y: "dropWhile (\<lambda>x. f x < k) xs = y # ys" using assms(3) by (cases "dropWhile (\<lambda>x. f x < k) xs") auto
  then have "\<not> f y < k" "y \<in> set xs" by (auto simp: dropWhile_eq_Cons_conv) (metis in_set_conv_decomp)
  then have k: "k < f y" using assms(2) by (metis imageI linorder_neqE)
  have "sorted_wrt (<) (map f (takeWhile (\<lambda>x. f x < k) xs @ y # ys))"
    using assms(1) y by (metis takeWhile_dropWhile_id)
  then show ?thesis using assms(3) y k by (auto simp: sorted_wrt_append)
qed

lemma zs_put_cut:
  assumes "zs_ok es" and "m \<notin> fst ` set es"
  obtains ys zs where "es = ys @ zs" "sl_put (m, s) es = ys @ (m, s) # zs"
    "\<forall>x \<in> set ys. ekey x < ekey (m, s)" "\<forall>x \<in> set zs. ekey (m, s) < ekey x"
proof -
  have "ekey (m, s) \<notin> ekey ` set es" using assms(2) by (rule ekey_new)
  then have "ekey (m, s) < ekey x" if "x \<in> set (dropWhile (\<lambda>x. ekey x < ekey (m, s)) es)" for x
    using sorted_cut [OF _ _ that] assms(1) by (auto simp: zs_ok_def)
  then show thesis
    using that [of "takeWhile (\<lambda>x. ekey x < ekey (m, s)) es" "dropWhile (\<lambda>x. ekey x < ekey (m, s)) es"]
    by (auto simp: sl_put_def dest: set_takeWhileD)
qed

lemma zs_put:
  assumes "zs_ok es" and "m \<notin> fst ` set es" and "\<not> dbl_isnan s"
  shows "zs_ok (sl_put (m, s) es)" "zs_map (sl_put (m, s) es) = (zs_map es)(m \<mapsto> dbl_key s)"
proof -
  obtain ys zs where c: "es = ys @ zs" "sl_put (m, s) es = ys @ (m, s) # zs"
    "\<forall>x \<in> set ys. ekey x < ekey (m, s)" "\<forall>x \<in> set zs. ekey (m, s) < ekey x"
    using assms(1,2) by (rule zs_put_cut)
  show "zs_ok (sl_put (m, s) es)"
    using assms c by (auto simp: zs_ok_def sorted_wrt_append)
  show "zs_map (sl_put (m, s) es) = (zs_map es)(m \<mapsto> dbl_key s)"
  proof
    fix x
    have "map_of ys m = None" using assms(2) c(1) by (auto simp: map_of_eq_None_iff)
    then show "zs_map (sl_put (m, s) es) x = ((zs_map es)(m \<mapsto> dbl_key s)) x"
      unfolding c(2) by (auto simp: zs_map_def c(1) map_add_def split: option.splits)
  qed
qed

lemma length_sl_put: "length (sl_put e es) = length es + 1"
proof -
  have "length (sl_put e es) = length (takeWhile (\<lambda>x. ekey x < ekey e) es @ dropWhile (\<lambda>x. ekey x < ekey e) es) + 1"
    unfolding sl_put_def length_append by simp
  then show ?thesis by simp
qed

lemma zs_put_lookup:
  assumes "zs_ok es"
  shows "map_of (sl_put (m, s) (filter (\<lambda>e. fst e \<noteq> m) es)) = (map_of es)(m \<mapsto> s)"
proof -
  let ?rest = "filter (\<lambda>e. fst e \<noteq> m) es"
  have "m \<notin> fst ` set ?rest" by auto
  with zs_remove(1) [OF assms] obtain ys zs where c: "?rest = ys @ zs" "sl_put (m, s) ?rest = ys @ (m, s) # zs"
    by (rule zs_put_cut)
  have "map_of ?rest x = (if x = m then None else map_of es x)" for x by (induction es) auto
  then have r: "map_of (ys @ zs) x = (if x = m then None else map_of es x)" for x using c(1) by simp
  have "map_of ys m = None" using r [of m] by (auto simp: map_add_def split: option.splits)
  then have "map_of (ys @ (m, s) # zs) x = ((map_of es)(m \<mapsto> s)) x" for x
    using r [of x] by (auto simp: map_add_def split: option.splits if_splits)
  then show ?thesis unfolding c(2) by blast
qed

lemma zs_filter_ekey:
  assumes "zs_ok es" and "map_of es m = Some old"
  shows "filter (\<lambda>e. ekey e \<noteq> ekey (m, old)) es = filter (\<lambda>e. fst e \<noteq> m) es"
    and "ekey (m, old) \<in> ekey ` set es"
proof -
  have "fst e = m \<Longrightarrow> e \<in> set es \<Longrightarrow> e = (m, old)" for e
    using assms by (metis fst_conv map_of_eq_Some_iff option.inject prod.collapse zs_ok_def)
  then show "filter (\<lambda>e. ekey e \<noteq> ekey (m, old)) es = filter (\<lambda>e. fst e \<noteq> m) es"
    by (intro filter_cong) (auto simp: ekey_eq)
  show "ekey (m, old) \<in> ekey ` set es" using map_of_SomeD [OF assms(2)] by blast
qed

text \<open>In a sorted list the position of a member is the number of entries in front of it.\<close>

lemma zs_position:
  assumes "zs_ok es" and "i < length es"
  shows "length (filter (\<lambda>e. ekey e < ekey (es ! i)) es) = i"
proof -
  have es: "es = take i es @ es ! i # drop (Suc i) es" using assms(2) by (simp add: id_take_nth_drop)
  have so: "sorted_wrt (<) (map ekey (take i es @ es ! i # drop (Suc i) es))"
    using assms(1) es by (metis zs_ok_def)
  then have "filter (\<lambda>e. ekey e < ekey (es ! i)) (take i es) = take i es"
    "filter (\<lambda>e. ekey e < ekey (es ! i)) (drop (Suc i) es) = []"
    unfolding filter_id_conv filter_empty_conv by (auto simp: sorted_wrt_append)
  then have "filter (\<lambda>e. ekey e < ekey (es ! i)) (take i es @ es ! i # drop (Suc i) es) = take i es" by simp
  then show ?thesis using es assms(2) by (metis length_take min.absorb4)
qed

section \<open>The invariant\<close>

text \<open>The listpack holds members and score texts; the text of a score may be any that reads back.\<close>

definition readScores :: "(bytes \<times> bytes) list \<Rightarrow> (bytes \<times> double) list" where
  "readScores ts = map (map_prod id scoreFromString) ts"

lemma pairScores_flat [simp]: "pairScores (flat ts) = readScores ts"
  by (induction ts rule: flat.induct) (simp_all add: readScores_def)

lemma readScores_simps [simp]:
  "length (readScores ts) = length ts" "map fst (readScores ts) = map fst ts"
  "readScores (ts @ us) = readScores ts @ readScores us" "readScores (t # ts) = (fst t, scoreFromString (snd t)) # readScores ts"
  "readScores [] = []" "take i (readScores ts) = readScores (take i ts)" "drop i (readScores ts) = readScores (drop i ts)"
  by (auto simp: readScores_def take_map drop_map map_prod_def split: prod.splits)

definition zv_invar :: "zsetvalue \<Rightarrow> bool" where
  "zv_invar z \<longleftrightarrow> dict_invar (zv_scores z) \<and> sl_wf (zv_skiplist z) \<and> zs_ok (zv_all z) \<and>
     (if zv_encoding z = ListPack then
        dict_lookup (zv_scores z) = Map.empty \<and> sl_toList (zv_skiplist z) = [] \<and>
        (\<exists>ts. lp_strs (zv_listpack z) (flat ts))
      else zv_encoding z = SkipList \<and> dict_lookup (zv_scores z) = map_of (sl_toList (zv_skiplist z)))"

lemma zv_lp:
  assumes "zv_invar z" and "zv_encoding z = ListPack"
  obtains ts where "lp_strs (zv_listpack z) (flat ts)" "zv_all z = readScores ts" "zs_ok (readScores ts)"
    "dict_invar (zv_scores z)" "dict_lookup (zv_scores z) = Map.empty" "sl_wf (zv_skiplist z)"
    "sl_toList (zv_skiplist z) = []"
proof -
  from assms obtain ts where t: "lp_strs (zv_listpack z) (flat ts)" by (auto simp: zv_invar_def)
  then have "zv_all z = readScores ts" using assms(2) by (simp add: zv_all_def lp_rep_toStrings)
  with t that assms show thesis by (auto simp: zv_invar_def)
qed

lemma zv_lpI:
  assumes "zv_encoding z = ListPack" and "lp_strs (zv_listpack z) (flat ts)" and "zs_ok (readScores ts)"
    and "dict_invar (zv_scores z)" "dict_lookup (zv_scores z) = Map.empty" "sl_wf (zv_skiplist z)"
    "sl_toList (zv_skiplist z) = []"
  shows "zv_invar z \<and> zv_all z = readScores ts"
proof -
  have "zv_all z = readScores ts" using assms(1,2) by (simp add: zv_all_def lp_rep_toStrings)
  then show ?thesis using assms by (auto simp: zv_invar_def)
qed

lemma zv_sl:
  assumes "zv_invar z" and "zv_encoding z \<noteq> ListPack"
  shows "zv_encoding z = SkipList" "zv_all z = sl_toList (zv_skiplist z)" "zs_ok (sl_toList (zv_skiplist z))"
    "dict_invar (zv_scores z)" "dict_lookup (zv_scores z) = map_of (sl_toList (zv_skiplist z))"
    "sl_wf (zv_skiplist z)"
  using assms by (auto simp: zv_invar_def zv_all_def)

lemma zv_slI:
  assumes "zv_encoding z = SkipList" and "zs_ok (sl_toList (zv_skiplist z))" and "sl_wf (zv_skiplist z)"
    and "dict_invar (zv_scores z)" "dict_lookup (zv_scores z) = map_of (sl_toList (zv_skiplist z))"
  shows "zv_invar z \<and> zv_all z = sl_toList (zv_skiplist z)"
  using assms by (auto simp: zv_invar_def zv_all_def)

lemma zv_invar_new: "zv_invar zv_new" "zv_all zv_new = []"
  using zv_lpI [of zv_new "[]"] lp_rep_new dict_invar_new dict_lookup_new sl_wf_new sl_toList_new
  by (auto simp: zv_new_def simp del: lp_new_rep)

section \<open>The skiplist encoding\<close>

lemma insertNode_put:
  assumes "sl_wf sl" and "zs_ok (sl_toList sl)" and "m \<notin> fst ` set (sl_toList sl)" and "\<not> dbl_isnan s"
    and "length (sl_toList sl) + 1 < 2 ^ 63" and "insertNode rng n s m sl = (n', sl')"
  shows "sl_wf sl'" "sl_toList sl' = sl_put (m, s) (sl_toList sl)"
proof -
  obtain H where H: "randomLevel rng n = (H, n')" "sl' = sl_insert H s m sl"
    using assms(6) by (auto simp: insertNode_def split: prod.splits)
  then have "1 \<le> H" "H \<le> kSkipListMaxLevel"
    using randomLevel_bounds [of rng n] by simp_all
  moreover have "ekey (m, s) \<notin> ekey ` set (sl_toList sl)" using assms(3) by (rule ekey_new)
  ultimately show "sl_wf sl'" "sl_toList sl' = sl_put (m, s) (sl_toList sl)"
    using sl_insert_put [OF assms(1) _ _ assms(4)] assms(5) sl_length_toList [OF assms(1)] H(2) by simp_all
qed

lemma convertLoop_rep:
  assumes "sl_wf sl" and "zs_ok (sl_toList sl @ readScores ts)" and "dict_invar d"
    and "dict_lookup d = map_of (sl_toList sl)" and "length (sl_toList sl) + length ts < 2 ^ 63"
    and "convertLoop rng n (flat ts) sl d = (n', sl', d')"
  shows "sl_wf sl' \<and> sl_toList sl' = sl_toList sl @ readScores ts \<and> dict_invar d' \<and> dict_lookup d' = map_of (sl_toList sl')"
  using assms
proof (induction ts arbitrary: n sl d)
  case (Cons p ts)
  obtain m t where p: "p = (m, t)" by (cases p)
  let ?s = "scoreFromString t"
  obtain n1 sl1 where i: "insertNode rng n ?s m sl = (n1, sl1)" by (cases "insertNode rng n ?s m sl")
  have ok: "zs_ok (sl_toList sl)" "m \<notin> fst ` set (sl_toList sl)" "\<not> dbl_isnan ?s"
    "\<forall>x \<in> set (sl_toList sl). ekey x < ekey (m, ?s)"
    using Cons.prems(2) by (auto simp: p zs_ok_def sorted_wrt_append)
  have l: "length (sl_toList sl) + 1 < 2 ^ 63" using Cons.prems(5) by simp
  note ins = insertNode_put [OF Cons.prems(1) ok(1-3) l i]
  have sl1: "sl_toList sl1 = sl_toList sl @ [(m, ?s)]"
    using ins(2) sl_put_split [of "sl_toList sl" "(m, ?s)" "[]"] ok(4) by simp
  let ?d = "snd (dict_insert m ?s d)"
  have d: "dict_invar ?d" "dict_lookup ?d = (dict_lookup d)(m \<mapsto> ?s)"
    using dict.snd_insert [OF Cons.prems(3) TrueI, of m ?s] by simp_all
  have "dict_lookup ?d = map_of (sl_toList sl1)"
  proof
    fix x
    have "map_of (sl_toList sl) m = None" using ok(2) by (simp add: map_of_eq_None_iff)
    then show "dict_lookup ?d x = map_of (sl_toList sl1) x"
      by (auto simp: d(2) Cons.prems(4) sl1 map_add_def split: option.splits)
  qed
  from Cons.IH [OF ins(1) _ d(1) this, of n1] Cons.prems(2,5,6) show ?case
    by (simp add: p sl1 i)
qed simp

lemma convertToSkipList_props:
  assumes "zv_invar z" and "length (zv_all z) < 2 ^ 63" and "convertToSkipList rng n z = (n', z')"
  shows "zv_invar z' \<and> zv_encoding z' = SkipList \<and> zv_all z' = zv_all z"
proof (cases "zv_encoding z = ListPack")
  case True
  with assms(1) obtain ts where l: "lp_strs (zv_listpack z) (flat ts)" "zv_all z = readScores ts" "zs_ok (readScores ts)"
    "dict_invar (zv_scores z)" "dict_lookup (zv_scores z) = Map.empty" "sl_wf (zv_skiplist z)"
    "sl_toList (zv_skiplist z) = []" by (rule zv_lp)
  obtain sl d where c: "convertLoop rng n (flat ts) (zv_skiplist z) (zv_scores z) = (n', sl, d)"
    "z' = z\<lparr>zv_skiplist := sl, zv_scores := d, zv_listpack := lp_clear (zv_listpack z), zv_encoding := SkipList\<rparr>"
    using assms(3) True l(1) by (auto simp: convertToSkipList_def lp_rep_toStrings split: prod.splits)
  have "sl_wf sl \<and> sl_toList sl = readScores ts \<and> dict_invar d \<and> dict_lookup d = map_of (sl_toList sl)"
    using convertLoop_rep [OF l(6) _ l(4) _ _ c(1)] l assms(2) by simp
  then show ?thesis using zv_slI [of z'] c(2) l by simp
next
  case False
  then show ?thesis using zv_sl(1) [OF assms(1) False] assms by (simp add: convertToSkipList_def)
qed

section \<open>The listpack encoding\<close>

lemma elementScore_elem_of [simp]: "elementScore (elem_of v) = scoreFromString v"
proof (cases "stringToInt64 v")
  case (Some n)
  then show ?thesis
    using stringToInt64_to_string [OF Some] strtod_to_string [of n] by (simp add: elem_of_def scoreFromString_def)
qed (simp add: elem_of_def)

lemma map_of_readScores: "map_of (readScores ts) m = map_option scoreFromString (map_of ts m)"
  by (induction ts) auto

lemma lp_get_flat:
  assumes "lp_strs lp (flat ts)" and "i < length ts"
  shows "lp_get lp (2 * i) = Some (elem_of (fst (ts ! i)))" "lp_get lp (2 * i + 1) = Some (elem_of (snd (ts ! i)))"
  using assms flat_nth [of i ts] by (simp_all add: lp_rep_get)

text \<open>A score that can be stored as text: it reads back as an equal score.\<close>

definition score_ok :: "double \<Rightarrow> bool" where
  "score_ok s \<longleftrightarrow> lp_fits (scoreToString s) \<and> dbl_eq (scoreFromString (scoreToString s)) s"

lemma insertPosition_rep:
  assumes "lp_strs lp (flat ts)" and "zs_ok (readScores ts)" and "m \<notin> fst ` set ts" and "\<not> dbl_isnan s"
    and "i \<le> length ts"
  shows "insertPosition lp m s (2 * i) = 2 * (i + length (takeWhile (\<lambda>x. ekey x < ekey (m, s)) (readScores (drop i ts))))"
  using assms(5)
proof (induction "length ts - i" arbitrary: i)
  case 0
  then show ?case using lp_rep_numElements [OF assms(1)] by (subst insertPosition.simps) simp
next
  case (Suc k)
  then have i: "i < length ts" by simp
  note g = lp_get_flat [OF assms(1) i]
  let ?x = "(fst (ts ! i), scoreFromString (snd (ts ! i)))"
  have dr: "drop i ts = ts ! i # drop (Suc i) ts" using i by (simp add: Cons_nth_drop_Suc)
  have x: "?x \<in> set (readScores ts)" using i by (force simp: readScores_def image_iff map_prod_def set_conv_nth split: prod.splits)
  then have nn: "\<not> dbl_isnan (snd ?x)" using assms(2) unfolding zs_ok_def by blast
  have "fst ?x \<noteq> m" using i assms(3) by (metis fst_conv image_eqI nth_mem)
  then have c: "(dbl_lt s (snd ?x) \<or> (dbl_eq (snd ?x) s \<and> m < fst ?x)) \<longleftrightarrow> \<not> ekey ?x < ekey (m, s)"
    using nn assms(4) by (auto simp: dbl_lt_def dbl_eq_def ekey_def)
  have n: "2 * i < lp_numElements lp" using i lp_rep_numElements [OF assms(1)] by simp
  show ?case
  proof (cases "ekey ?x < ekey (m, s)")
    case True
    then have "insertPosition lp m s (2 * i) = insertPosition lp m s (2 * Suc i)"
      using n g c by (subst insertPosition.simps) (auto simp: Let_def)
    then show ?thesis using Suc.hyps(1) [of "Suc i"] Suc.hyps(2) i True by (simp add: dr)
  next
    case False
    then have "insertPosition lp m s (2 * i) = 2 * i"
      using n g c by (subst insertPosition.simps) (simp add: Let_def)
    then show ?thesis using False by (simp add: dr)
  qed
qed

lemma listpackAdd_rep:
  assumes "lp_strs lp (flat ts)" and "zs_ok (readScores ts)" and "m \<notin> fst ` set ts" and "score_ok s" and "lp_fits m"
  obtains us s' where "lp_strs (listpackAdd m s lp) (flat us)" "readScores us = sl_put (m, s') (readScores ts)"
    "dbl_eq s' s"
proof -
  let ?t = "scoreToString s" and ?i = "length (takeWhile (\<lambda>x. ekey x < ekey (m, s)) (readScores ts))"
  have t: "lp_fits ?t" "dbl_eq (scoreFromString ?t) s" using assms(4) by (simp_all add: score_ok_def)
  have nn: "\<not> dbl_isnan s" using t(2) by (simp add: dbl_eq_def)
  have ke: "ekey (m, scoreFromString ?t) = ekey (m, s)" using t(2) by (simp add: ekey_eq dbl_eq_def)
  have il: "?i \<le> length ts" using length_takeWhile_le [of _ "readScores ts"] by simp
  have pos: "insertPosition lp m s 0 = 2 * ?i"
    using insertPosition_rep [OF assms(1-3) nn, of 0] by simp
  obtain b where b: "lp_insertAt (2 * ?i) m lp = (True, b)"
    "lp_strs b (take (2 * ?i) (flat ts) @ m # drop (2 * ?i) (flat ts))"
    using lps.rep_insert [OF assms(1) _ assms(5), of "2 * ?i"] il by auto
  let ?xs = "flat (take ?i ts) @ m # flat (drop ?i ts)"
  have b': "lp_strs b ?xs" using b(2) by (simp only: take_flat drop_flat)
  have len: "length (flat (take ?i ts)) = 2 * ?i" using il by simp
  have "2 * ?i + 1 \<le> length ?xs" using len by simp
  then obtain c where c: "lp_insertAt (2 * ?i + 1) ?t b = (True, c)"
    "lp_strs c (take (2 * ?i + 1) ?xs @ ?t # drop (2 * ?i + 1) ?xs)"
    using lps.rep_insert [OF b' _ t(1), of "2 * ?i + 1"] by blast
  let ?us = "take ?i ts @ (m, ?t) # drop ?i ts"
  have "take (2 * ?i + 1) ?xs @ ?t # drop (2 * ?i + 1) ?xs = flat ?us"
    using il by (simp add: min_absorb2)
  then have "lp_strs (listpackAdd m s lp) (flat ?us)"
    using c b(1) pos by (simp add: listpackAdd_def Let_def)
  moreover have "readScores ?us = sl_put (m, scoreFromString ?t) (readScores ts)"
    using takeWhile_eq_take [of "\<lambda>x. ekey x < ekey (m, s)" "readScores ts"]
      dropWhile_eq_drop [of "\<lambda>x. ekey x < ekey (m, s)" "readScores ts"]
    by (simp add: sl_put_def ke)
  ultimately show thesis using that t(2) by blast
qed

lemma lp_erase_rep:
  assumes "lp_strs lp (flat ts)" and "distinct (map fst ts)" and "lp_find lp m 0 2 = Some j"
  obtains b us where "lp_eraseRange j 2 lp = (True, b)" "lp_strs b (flat us)"
    "readScores us = filter (\<lambda>e. fst e \<noteq> m) (readScores ts)"
proof -
  from assms(1,3) obtain i where i: "j = 2 * i" "i < length ts" "fst (ts ! i) = m" by (rule lps.find_pair_Some)
  let ?us = "take i ts @ drop (Suc i) ts"
  have "take j (flat ts) @ drop (j + 2) (flat ts) = flat ?us"
    using take_flat [of i ts] drop_flat [of "Suc i" ts] i(1) by simp
  moreover have "j < length (flat ts)" "j + 2 \<le> length (flat ts)" using i by simp_all
  ultimately obtain b where b: "lp_eraseRange j 2 lp = (True, b)" "lp_strs b (flat ?us)"
    using lps.rep_erase [OF assms(1), of j 2] by auto
  have ts: "ts = take i ts @ ts ! i # drop (Suc i) ts" using i(2) by (simp add: id_take_nth_drop)
  have "distinct (map fst (take i ts @ ts ! i # drop (Suc i) ts))" using assms(2) ts by metis
  then have "m \<notin> fst ` set (take i ts)" "m \<notin> fst ` set (drop (Suc i) ts)" using i(3) by auto
  then have "filter (\<lambda>e. fst e \<noteq> m) (take i ts) = take i ts" "filter (\<lambda>e. fst e \<noteq> m) (drop (Suc i) ts) = drop (Suc i) ts"
    unfolding filter_id_conv by (metis imageI)+
  then have "filter (\<lambda>e. fst e \<noteq> m) (take i ts @ ts ! i # drop (Suc i) ts) = ?us" using i(3) by simp
  then have "filter (\<lambda>e. fst e \<noteq> m) ts = ?us" using ts by simp
  then have "readScores ?us = filter (\<lambda>e. fst e \<noteq> m) (readScores ts)"
    by (simp add: readScores_def filter_map o_def map_prod_def split_def)
  with b that show thesis by blast
qed

section \<open>Operations\<close>

definition zv_map :: "zsetvalue \<Rightarrow> bytes \<Rightarrow> int option" where
  "zv_map z = zs_map (zv_all z)"

lemma zv_score_props:
  assumes "zv_invar z" and "zv_score m z = (r, z')"
  shows "r = map_of (zv_all z) m \<and> zv_invar z' \<and> zv_all z' = zv_all z"
proof (cases "zv_encoding z = ListPack")
  case True
  with assms(1) obtain ts where l: "lp_strs (zv_listpack z) (flat ts)" "zv_all z = readScores ts" by (rule zv_lp)
  show ?thesis
  proof (cases "lp_find (zv_listpack z) m 0 2")
    case None
    then show ?thesis using assms True lps.find_pair_None [OF l(1), of m] l(2)
      by (simp add: zv_score_def map_of_readScores)
  next
    case (Some j)
    with l(1) obtain i where i: "j = 2 * i" "i < length ts" "map_of ts m = Some (snd (ts ! i))"
      by (rule lps.find_pair_Some)
    then show ?thesis using assms True Some lp_get_flat(2) [OF l(1) i(2)] l(2)
      by (auto simp: zv_score_def map_of_readScores)
  qed
next
  case False
  note t = zv_sl [OF assms(1) False]
  obtain v d where f: "dict_find m (zv_scores z) = (v, d)" by (cases "dict_find m (zv_scores z)")
  with t(1) assms(2) have "r = v" "z' = z\<lparr>zv_scores := d\<rparr>" by (simp_all add: zv_score_def)
  with dict.find [OF t(4) f] zv_slI [of z'] t show ?thesis by simp
qed

lemma skiplistAdd_props:
  assumes "zv_invar z" and "zv_encoding z = SkipList" and "\<not> dbl_isnan s" and "length (zv_all z) + 1 < 2 ^ 63"
    and "skiplistAdd rng n m s z = (new, n', z')"
  shows "new = (zv_map z m = None) \<and> zv_invar z' \<and> zv_map z' = (zv_map z)(m \<mapsto> dbl_key s) \<and> zv_encoding z' = SkipList \<and>
    length (zv_all z') \<le> length (zv_all z) + 1"
proof -
  note t = zv_sl [OF assms(1)]
  have ne: "zv_encoding z \<noteq> ListPack" using assms(2) by simp
  note t = t [OF this]
  obtain old d where f: "dict_find m (zv_scores z) = (old, d)" by (cases "dict_find m (zv_scores z)")
  note d = dict.find [OF t(4) f]
  have i: "dict_invar (snd (dict_insert m s d))" "dict_lookup (snd (dict_insert m s d)) = (dict_lookup (zv_scores z))(m \<mapsto> s)"
    using dict.snd_insert [of d m s] d by simp_all
  let ?es = "sl_toList (zv_skiplist z)" and ?rest = "filter (\<lambda>e. fst e \<noteq> m) (sl_toList (zv_skiplist z))"
  have old: "old = map_of ?es m" using d t(5) by simp
  have lookup: "map_of (sl_put (m, s) ?rest) = (map_of ?es)(m \<mapsto> s)" using t(3) by (rule zs_put_lookup)
  have fin: "zv_invar z' \<and> zv_map z' = (zv_map z)(m \<mapsto> dbl_key s) \<and> length (zv_all z') \<le> length (zv_all z) + 1"
    if w: "sl_wf sl" "sl_toList sl = sl_put (m, s) ?rest"
      and z': "z' = z\<lparr>zv_skiplist := sl, zv_scores := snd (dict_insert m s d)\<rparr>" for sl
  proof -
    have ok: "zs_ok (sl_put (m, s) ?rest)" "zs_map (sl_put (m, s) ?rest) = (zs_map ?rest)(m \<mapsto> dbl_key s)"
      using zs_put [OF zs_remove(1) [OF t(3)] _ assms(3), of m m] by auto
    have "zv_invar z' \<and> zv_all z' = sl_put (m, s) ?rest"
      using zv_slI [of z'] w z' ok(1) i t(5) lookup assms(2) by simp
    moreover have "length (sl_put (m, s) ?rest) \<le> length ?es + 1" by (simp add: length_sl_put)
    ultimately show ?thesis using ok(2) zs_remove(2) [OF t(3), of m] t(2) by (simp add: zv_map_def)
  qed
  show ?thesis
  proof (cases old)
    case None
    then have nm: "m \<notin> fst ` set ?es" using old by (simp add: map_of_eq_None_iff)
    then have "?rest = ?es" unfolding filter_id_conv by force
    moreover obtain sl where sl: "insertNode rng n s m (zv_skiplist z) = (n', sl)" "new"
      "z' = z\<lparr>zv_skiplist := sl, zv_scores := snd (dict_insert m s d)\<rparr>"
      using assms(5) f None by (auto simp: skiplistAdd_def split: prod.splits)
    moreover have "sl_wf sl" "sl_toList sl = sl_put (m, s) ?es"
      using insertNode_put [OF t(6,3) nm assms(3) _ sl(1)] assms(4) t(2) by simp_all
    ultimately show ?thesis using fin [of sl] nm t(2) assms(2) by (simp add: zv_map_def zs_map_None)
  next
    case (Some o1)
    then have om: "map_of ?es m = Some o1" using old by simp
    show ?thesis
    proof (cases "dbl_eq o1 s")
      case True
      then have z': "z' = z\<lparr>zv_scores := d\<rparr>" "\<not> new" using assms(5) f Some by (simp_all add: skiplistAdd_def)
      then have "zv_invar z' \<and> zv_all z' = zv_all z" using zv_slI [of z'] t d assms(2) by simp
      moreover have "(zv_map z)(m \<mapsto> dbl_key s) = zv_map z" "zv_map z m \<noteq> None"
        using True om t(2) by (auto simp: zv_map_def zs_map_def dbl_eq_def fun_eq_iff)
      ultimately show ?thesis using z' assms(2) by (simp add: zv_map_def)
    next
      case False
      then obtain sl where sl: "insertNode rng n s m (snd (sl_remove o1 m (zv_skiplist z))) = (n', sl)" "\<not> new"
        "z' = z\<lparr>zv_skiplist := sl, zv_scores := snd (dict_insert m s d)\<rparr>"
        using assms(5) f Some by (auto simp: skiplistAdd_def split: prod.splits)
      have "\<not> dbl_isnan o1" using map_of_SomeD [OF om] t(3) by (force simp: zs_ok_def)
      then obtain sk where sk: "snd (sl_remove o1 m (zv_skiplist z)) = sk" "sl_wf sk" "sl_toList sk = ?rest"
        using sl_remove_filter [OF t(6), of o1 m] zs_filter_ekey(1) [OF t(3) om] by (metis snd_conv)
      have "length (sl_toList sk) + 1 < 2 ^ 63"
        using assms(4) [unfolded t(2)] length_filter_le [of "\<lambda>e. fst e \<noteq> m" ?es] unfolding sk(3) by linarith
      then have "sl_wf sl" "sl_toList sl = sl_put (m, s) ?rest"
        using insertNode_put [OF sk(2) _ _ assms(3) _ sl(1) [unfolded sk(1)]] zs_remove(1) [OF t(3)] sk(3) by auto
      moreover have "zv_map z m \<noteq> None" using om t(2) by (simp add: zv_map_def zs_map_def)
      ultimately show ?thesis using fin [of sl] sl assms(2) by simp
    qed
  qed
qed

lemma zv_lp_upd:
  assumes "zv_invar z" and "zv_encoding z = ListPack" and "lp_strs b (flat us)" and "zs_ok (readScores us)"
    and "z' = z\<lparr>zv_listpack := b\<rparr>"
  shows "zv_invar z' \<and> zv_all z' = readScores us"
proof -
  from assms(1,2) obtain ts where "dict_invar (zv_scores z)" "dict_lookup (zv_scores z) = Map.empty"
    "sl_wf (zv_skiplist z)" "sl_toList (zv_skiplist z) = []" by (rule zv_lp)
  then show ?thesis using zv_lpI [of z' us] assms by simp
qed

lemma zv_add_props:
  assumes "zv_invar z" and "score_ok s \<or> zv_encoding z = SkipList \<and> \<not> dbl_isnan s" and "lp_fits m" and "length (zv_all z) + 1 < 2 ^ 63"
    and "zv_add rng n m s z = (new, n', z')"
  shows "new = (zv_map z m = None) \<and> zv_invar z' \<and> zv_map z' = (zv_map z)(m \<mapsto> dbl_key s) \<and>
    length (zv_all z') \<le> length (zv_all z) + 1"
proof -
  have nn: "\<not> dbl_isnan s" using assms(2) by (auto simp: score_ok_def dbl_eq_def)
  have put: "zv_invar z' \<and> zv_map z' = (zs_map (readScores us))(m \<mapsto> dbl_key s) \<and> length (zv_all z') = length us + 1"
    if e: "zv_encoding z = ListPack" and u: "lp_strs b (flat us)" "zs_ok (readScores us)" "m \<notin> fst ` set us"
      and z': "z' = z\<lparr>zv_listpack := listpackAdd m s b\<rparr>" for b us
  proof -
    obtain vs s' where v: "lp_strs (listpackAdd m s b) (flat vs)" "readScores vs = sl_put (m, s') (readScores us)" "dbl_eq s' s"
      using u _ assms(3) by (rule listpackAdd_rep) (use assms(2) e in simp)
    have "m \<notin> fst ` set (readScores us)" using u(3) by (metis list.set_map readScores_simps(2))
    moreover have k: "\<not> dbl_isnan s'" "dbl_key s' = dbl_key s" using v(3) by (simp_all add: dbl_eq_def)
    ultimately have p: "zs_ok (readScores vs)" "zs_map (readScores vs) = (zs_map (readScores us))(m \<mapsto> dbl_key s)"
      using zs_put [OF u(2)] v(2) by simp_all
    from zv_lp_upd [OF assms(1) e v(1) p(1) z'] show ?thesis
      using p(2) arg_cong [OF v(2), of length] by (simp add: zv_map_def length_sl_put)
  qed
  show ?thesis
  proof (cases "zv_encoding z = ListPack")
    case True
    with assms(1) obtain ts where l: "lp_strs (zv_listpack z) (flat ts)" "zv_all z = readScores ts" "zs_ok (readScores ts)"
      by (rule zv_lp)
    have di: "distinct (map fst ts)" using l(3) by (simp add: zs_ok_def)
    show ?thesis
    proof (cases "lp_find (zv_listpack z) m 0 2")
      case (Some j)
      obtain b us where b: "lp_eraseRange j 2 (zv_listpack z) = (True, b)" "lp_strs b (flat us)"
        "readScores us = filter (\<lambda>e. fst e \<noteq> m) (readScores ts)"
        using l(1) di Some by (rule lp_erase_rep)
      have z': "\<not> new" "z' = z\<lparr>zv_listpack := listpackAdd m s b\<rparr>"
        using assms(5) True Some b(1) by (simp_all add: zv_add_def)
      have ok: "zs_ok (readScores us)" "zs_map (readScores us) = (zv_map z)(m := None)"
        using zs_remove [OF l(3), of m] b(3) l(2) by (simp_all add: zv_map_def)
      have "m \<notin> fst ` set us"
      proof -
        have "fst ` set us = fst ` set (readScores us)" by (metis list.set_map readScores_simps(2))
        then show ?thesis unfolding b(3) by auto
      qed
      from put [OF True b(2) ok(1) this z'(2)] have p: "zv_invar z'" "zv_map z' = (zv_map z)(m \<mapsto> dbl_key s)"
        "length (zv_all z') = length us + 1" using ok(2) by simp_all
      moreover have "length us \<le> length (zv_all z)"
        using arg_cong [OF b(3), of length] length_filter_le [of "\<lambda>e. fst e \<noteq> m" "readScores ts"] l(2) by simp
      moreover have "zv_map z m \<noteq> None"
        using lps.find_pair_None [OF l(1), of m] Some l(2) by (simp add: zv_map_def zs_map_def map_of_readScores)
      ultimately show ?thesis using z'(1) by simp
    next
      case None
      then have n: "map_of ts m = None" using lps.find_pair_None [OF l(1), of m] by simp
      show ?thesis
      proof (cases "zv_size z \<ge> zset_max_listpack_entries defaultLimits \<or> length m > zset_max_listpack_value defaultLimits")
        case c: True
        obtain n1 z1 where z1: "convertToSkipList rng n z = (n1, z1)" by (cases "convertToSkipList rng n z")
        have "length (zv_all z) < 2 ^ 63" using assms(4) by simp
        from convertToSkipList_props [OF assms(1) this z1]
        have p: "zv_invar z1" "zv_encoding z1 = SkipList" "zv_all z1 = zv_all z" by simp_all
        have "skiplistAdd rng n1 m s z1 = (new, n', z')" using assms(5) True None c z1 by (auto simp: zv_add_def)
        from skiplistAdd_props [OF p(1,2) nn _ this] show ?thesis using p(3) assms(4) by (simp add: zv_map_def)
      next
        case False
        then have z': "new" "z' = z\<lparr>zv_listpack := listpackAdd m s (zv_listpack z)\<rparr>"
          using assms(5) True None by (auto simp: zv_add_def)
        have "m \<notin> fst ` set ts" using n by (simp add: map_of_eq_None_iff)
        from put [OF True l(1,3) this z'(2)] show ?thesis
          using n z'(1) l(2) by (simp add: zv_map_def zs_map_def map_of_readScores)
      qed
    qed
  next
    case False
    then have "skiplistAdd rng n m s z = (new, n', z')" using assms(5) by (simp add: zv_add_def)
    from skiplistAdd_props [OF assms(1) zv_sl(1) [OF assms(1) False] nn assms(4) this] show ?thesis by simp
  qed
qed

lemma zv_erase_props:
  assumes "zv_invar z" and "zv_erase m z = (found, z')"
  shows "found = (zv_map z m \<noteq> None) \<and> zv_invar z' \<and> zv_map z' = (zv_map z)(m := None)"
proof (cases "zv_encoding z = ListPack")
  case True
  with assms(1) obtain ts where l: "lp_strs (zv_listpack z) (flat ts)" "zv_all z = readScores ts" "zs_ok (readScores ts)"
    by (rule zv_lp)
  have di: "distinct (map fst ts)" using l(3) by (simp add: zs_ok_def)
  have none: "lp_find (zv_listpack z) m 0 2 = None \<longleftrightarrow> zv_map z m = None"
    using lps.find_pair_None [OF l(1), of m] l(2) by (simp add: zv_map_def zs_map_def map_of_readScores)
  show ?thesis
  proof (cases "lp_find (zv_listpack z) m 0 2")
    case None
    then have "zv_map z m = None" using none by simp
    with None True assms show ?thesis by (auto simp: zv_erase_def fun_upd_idem)
  next
    case (Some j)
    obtain b us where b: "lp_eraseRange j 2 (zv_listpack z) = (True, b)" "lp_strs b (flat us)"
      "readScores us = filter (\<lambda>e. fst e \<noteq> m) (readScores ts)"
      using l(1) di Some by (rule lp_erase_rep)
    have z': "found" "z' = z\<lparr>zv_listpack := b\<rparr>" using assms(2) True Some b(1) by (simp_all add: zv_erase_def)
    have ok: "zs_ok (readScores us)" "zs_map (readScores us) = (zv_map z)(m := None)"
      using zs_remove [OF l(3), of m] b(3) l(2) by (simp_all add: zv_map_def)
    from zv_lp_upd [OF assms(1) True b(2) ok(1) z'(2)] show ?thesis using ok(2) z'(1) none Some by (simp add: zv_map_def)
  qed
next
  case False
  note t = zv_sl [OF assms(1) False]
  let ?es = "sl_toList (zv_skiplist z)"
  obtain old d where f: "dict_find m (zv_scores z) = (old, d)" by (cases "dict_find m (zv_scores z)")
  note d = dict.find [OF t(4) f]
  show ?thesis
  proof (cases old)
    case None
    then have z': "\<not> found" "z' = z\<lparr>zv_scores := d\<rparr>" using assms(2) False f by (simp_all add: zv_erase_def)
    then have "zv_invar z' \<and> zv_all z' = zv_all z" using zv_slI [of z'] t d by simp
    moreover have "zv_map z m = None" using None d t by (simp add: zv_map_def zs_map_def)
    ultimately show ?thesis using z' by (simp add: zv_map_def fun_upd_idem)
  next
    case (Some o1)
    then have om: "map_of ?es m = Some o1" using d t(5) by simp
    have "\<not> dbl_isnan o1" using map_of_SomeD [OF om] t(3) by (force simp: zs_ok_def)
    then obtain sk where sk: "snd (sl_remove o1 m (zv_skiplist z)) = sk" "sl_wf sk"
      "sl_toList sk = filter (\<lambda>e. fst e \<noteq> m) ?es"
      using sl_remove_filter [OF t(6), of o1 m] zs_filter_ekey(1) [OF t(3) om] by (metis snd_conv)
    have z': "found" "z' = z\<lparr>zv_skiplist := sk, zv_scores := snd (dict_erase m d)\<rparr>"
      using assms(2) False f Some sk(1) by (simp_all add: zv_erase_def)
    have e: "dict_invar (snd (dict_erase m d))" "dict_lookup (snd (dict_erase m d)) = (map_of ?es)(m := None)"
      using dict.snd_erase [of d m] d t(5) by simp_all
    have "map_of (filter (\<lambda>e. fst e \<noteq> m) es) = (map_of es)(m := None)" for es :: "(bytes \<times> double) list"
      by (induction es) auto
    then have "zv_invar z' \<and> zv_all z' = filter (\<lambda>e. fst e \<noteq> m) ?es"
      using zv_slI [of z'] z'(2) sk e zs_remove(1) [OF t(3)] t(1) by simp
    then show ?thesis using zs_remove(2) [OF t(3), of m] t(2) z'(1) om by (simp add: zv_map_def zs_map_def)
  qed
qed

lemma zv_size_all:
  assumes "zv_invar z" shows "zv_size z = length (zv_all z)"
proof (cases "zv_encoding z = ListPack")
  case True
  with assms obtain ts where "lp_strs (zv_listpack z) (flat ts)" "zv_all z = readScores ts" by (rule zv_lp)
  with True lps.rep_count show ?thesis by (simp add: zv_size_def)
next
  case False
  note t = zv_sl [OF assms False]
  have "dict_size (zv_scores z) = card (dom (map_of (sl_toList (zv_skiplist z))))"
    using dict.size_card [OF t(4)] t(5) by simp
  also have "\<dots> = length (sl_toList (zv_skiplist z))"
    using t(3) distinct_card [of "map fst (sl_toList (zv_skiplist z))"] by (simp add: zs_ok_def dom_map_of_conv_image_fst)
  finally show ?thesis using False t(2) by (simp add: zv_size_def)
qed

lemma zv_rank_props:
  assumes "zv_invar z" and "zv_rank m z = (r, z')"
  shows "r = find_idx (\<lambda>_ e. fst e = m) 0 (zv_all z) \<and> zv_invar z' \<and> zv_all z' = zv_all z"
proof (cases "zv_encoding z = ListPack")
  case True
  with assms(1) obtain ts where l: "lp_strs (zv_listpack z) (flat ts)" "zv_all z = readScores ts" by (rule zv_lp)
  have "find_idx (\<lambda>_ e. fst e = m) k (readScores ts) = find_idx (\<lambda>_ p. fst p = m) k ts" for k
    by (induction ts arbitrary: k) simp_all
  then show ?thesis using assms True lps.find_pair [OF l(1), of m] l(2)
    by (auto simp: zv_rank_def option.map_comp o_def option.map_ident)
next
  case False
  note t = zv_sl [OF assms(1) False]
  let ?es = "sl_toList (zv_skiplist z)"
  obtain old d where f: "dict_find m (zv_scores z) = (old, d)" by (cases "dict_find m (zv_scores z)")
  note d = dict.find [OF t(4) f]
  have z': "z' = z\<lparr>zv_scores := d\<rparr>" using assms(2) t(1) f by (simp add: zv_rank_def split: option.splits)
  have inv: "zv_invar z' \<and> zv_all z' = zv_all z" using zv_slI [of z'] t d z' by simp
  show ?thesis
  proof (cases old)
    case None
    then show ?thesis using assms(2) t f d inv find_key_None [of m 0 ?es] by (simp add: zv_rank_def)
  next
    case (Some o1)
    then have om: "map_of ?es m = Some o1" using d t(5) by simp
    then obtain i where i: "find_idx (\<lambda>_ e. fst e = m) 0 ?es = Some i" using find_key_None [of m 0 ?es] by auto
    note k = find_key_Some [OF i]
    have e: "?es ! i = (m, o1)" using k om by (metis option.inject prod.collapse)
    have "\<not> dbl_isnan o1" using map_of_SomeD [OF om] t(3) by (force simp: zs_ok_def)
    then have "sl_rankOf o1 m (zv_skiplist z) = Some i"
      using sl_rankOf_entries [OF t(6)] zs_filter_ekey(2) [OF t(3) om] zs_position [OF t(3) k(1)] e by simp
    then show ?thesis using assms(2) t f Some inv i by (simp add: zv_rank_def)
  qed
qed

section \<open>Ranges\<close>

lemma chainFrom_long:
  "sl_inv s (ys @ zs) \<Longrightarrow>
   chainFrom (length zs + k) s (lv_forward (levelAt s (last (sl_header # ys)) 0)) = zs"
proof (induction zs arbitrary: ys)
  case Nil
  then show ?case using forward_after [OF Nil] by (cases k) simp_all
next
  case (Cons z zs)
  from Cons.IH [of "ys @ [z]"] Cons.prems forward_after [OF Cons.prems] show ?case by simp
qed

lemma sl_scoreWalk:
  assumes "sl_wf s" and "sr_ok r"
  shows "takeWhile (\<lambda>(member, score). sr_containsScore r score)
      (map (sl_entry s) (chainFrom (sl_length s) s (sl_firstInRange r s))) =
    filter (\<lambda>(member, score). sr_containsScore r score) (sl_toList s)"
proof -
  from assms(1) obtain as where inv: "sl_inv s as" by (auto simp: sl_wf_def)
  let ?key = "\<lambda>a. dbl_key (nd_score (sl_heap s a))" and ?P = "\<lambda>(member :: bytes, score). sr_containsScore r score"
  obtain us ms ws where m: "as = us @ ms @ ws" "\<forall>a \<in> set us. below r (?key a)" "\<forall>a \<in> set (ms @ ws). \<not> below r (?key a)"
    "\<forall>a \<in> set ws. beyond r (?key a)" "\<forall>a \<in> set ms. \<not> beyond r (?key a)" "filter (in_range s r) as = ms"
    using inv assms(2) by (rule range_split)
  have P: "?P (sl_entry s a) = in_range s r a" for a by (simp add: sl_entry_def)
  have fil: "filter ?P (sl_toList s) = map (sl_entry s) ms"
    using m(6) P by (simp add: sl_toList_rep [OF inv] filter_map o_def)
  note first = sl_firstInRange_rep [OF inv assms(2)]
  show ?thesis
  proof (cases ms)
    case Nil
    then have "chainFrom (sl_length s) s (sl_firstInRange r s) = []"
      using first m(6) by (cases "sl_length s") simp_all
    then show ?thesis using fil Nil by simp
  next
    case (Cons x xs)
    have "sl_firstInRange r s = lv_forward (levelAt s (last (sl_header # us)) 0)"
      using first m(6) Cons forward_after [of s us "ms @ ws"] inv m(1) by simp
    then have c: "chainFrom (sl_length s) s (sl_firstInRange r s) = ms @ ws"
      using chainFrom_long [of s us "ms @ ws" "length us"] inv m(1) sl_invD(5) [OF inv] by (simp add: add.commute add.left_commute)
    have nn: "\<not> dbl_isnan (nd_score (sl_heap s a))" if "a \<in> set as" for a using sl_invD(15) [OF inv that] .
    have ins: "in_range s r a" if "a \<in> set ms" for a using that unfolding m(6) [symmetric] by simp
    have out: "\<not> in_range s r a" if "a \<in> set ws" for a
      using range_key(1) [OF assms(2) nn [of a]] m(1,4) that by auto
    have "takeWhile ?P (map (sl_entry s) (ms @ ws)) = map (sl_entry s) (takeWhile (in_range s r) (ms @ ws))"
      by (simp add: takeWhile_map o_def P del: takeWhile_append map_append)
    also have "takeWhile (in_range s r) (ms @ ws) = ms" using ins out by (cases ws) (simp_all add: takeWhile_append)
    finally show ?thesis using c fil by simp
  qed
qed

lemma zv_rangeByScore_filter:
  assumes "zv_invar z" and "sr_ok r"
  shows "zv_rangeByScore r z = filter (\<lambda>(member, score). sr_containsScore r score) (zv_all z)"
proof (cases "sr_isEmpty r")
  case True
  have "\<not> sr_containsScore r (snd e)" if "e \<in> set (zv_all z)" for e
    using range_key(1) [OF assms(2)] range_empty [OF assms(2) True] assms(1) that by (auto simp: zv_invar_def zs_ok_def)
  then show ?thesis using True by (auto simp: zv_rangeByScore_def filter_empty_conv [symmetric] split: prod.splits
      intro!: filter_False [symmetric])
next
  case False
  show ?thesis
  proof (cases "zv_encoding z = ListPack")
    case True
    then show ?thesis using False by (simp add: zv_rangeByScore_def)
  next
    case sl: False
    note t = zv_sl [OF assms(1) sl]
    show ?thesis using False t sl_scoreWalk [OF t(6) assms(2)] by (simp add: zv_rangeByScore_def)
  qed
qed

text \<open>The members from the first one not below the minimum up to the first one above the maximum.\<close>

definition lex_run :: "LexRange \<Rightarrow> (bytes \<times> double) list \<Rightarrow> (bytes \<times> double) list" where
  "lex_run r es = takeWhile (\<lambda>e. lr_belowMax r (fst e)) (dropWhile (\<lambda>e. \<not> lr_aboveMin r (fst e)) es)"

lemma lexLoop_run: "lexLoop r True es = takeWhile (\<lambda>e. lr_belowMax r (fst e)) es" "lexLoop r False es = lex_run r es"
proof -
  show t: "lexLoop r True es = takeWhile (\<lambda>e. lr_belowMax r (fst e)) es" for es by (induction es) simp_all
  show "lexLoop r False es = lex_run r es" by (induction es) (auto simp: lex_run_def t)
qed

lemma lex_empty: "lr_isEmpty r \<Longrightarrow> lr_aboveMin r m \<Longrightarrow> \<not> lr_belowMax r m"
  by (auto simp: lr_isEmpty_def lr_aboveMin_def lr_belowMax_def split: if_splits)

lemma zv_rangeByLex_run: "zv_rangeByLex r z = lex_run r (zv_all z)"
proof (cases "lr_isEmpty r")
  case True
  have "lex_run r es = []" for es
    using lex_empty [OF True] by (induction es) (auto simp: lex_run_def)
  then show ?thesis using True by (simp add: zv_rangeByLex_def)
qed (simp add: zv_rangeByLex_def lexLoop_run)

lemma lex_mono: "lr_aboveMin r m \<Longrightarrow> m \<le> m' \<Longrightarrow> lr_aboveMin r m'" "lr_belowMax r m' \<Longrightarrow> m \<le> m' \<Longrightarrow> lr_belowMax r m"
  by (auto simp: lr_aboveMin_def lr_belowMax_def split: if_splits)

lemma lex_run_filter:
  "sorted (map fst es) \<Longrightarrow> lex_run r es = filter (\<lambda>e. lr_aboveMin r (fst e) \<and> lr_belowMax r (fst e)) es"
proof (induction es)
  case (Cons e es)
  show ?case
  proof (cases "lr_aboveMin r (fst e)")
    case False
    then show ?thesis using Cons by (simp add: lex_run_def)
  next
    case True
    have up: "lr_aboveMin r (fst e')" if "e' \<in> set es" for e' using lex_mono(1) [OF True] Cons.prems that by simp
    have "takeWhile (\<lambda>e. lr_belowMax r (fst e)) xs = filter (\<lambda>e. lr_belowMax r (fst e)) xs" if "sorted (map fst xs)" for xs
      using that by (induction xs) (auto dest: lex_mono(2) intro!: filter_False [symmetric])
    from this [OF Cons.prems] have "lex_run r (e # es) = filter (\<lambda>e. lr_belowMax r (fst e)) (e # es)"
      using True by (simp add: lex_run_def)
    also have "\<dots> = filter (\<lambda>e. lr_aboveMin r (fst e) \<and> lr_belowMax r (fst e)) (e # es)"
      using True up by (intro filter_cong) auto
    finally show ?thesis .
  qed
qed (simp add: lex_run_def)

lemma zs_uniform_sorted:
  assumes "zs_ok es" and "\<forall>e \<in> set es. dbl_key (snd e) = k"
  shows "sorted (map fst es)"
proof -
  have "sorted_wrt (\<lambda>x y. ekey x < ekey y) es" using assms(1) by (simp add: zs_ok_def sorted_wrt_map)
  then have "sorted_wrt (\<lambda>x y. fst x \<le> fst y) es"
    by (rule sorted_wrt_mono_rel [rotated]) (use assms(2) in \<open>auto simp: ekey_def\<close>)
  then show ?thesis by (simp add: sorted_wrt_map)
qed

section \<open>Copies\<close>

lemma addAll_props:
  assumes "zv_invar z" and "\<forall>(m, s) \<in> set es. score_ok s \<and> lp_fits m" and "length (zv_all z) + length es < 2 ^ 63"
    and "addAll rng n es z = (n', z')"
  shows "zv_invar z' \<and> zv_map z' = foldl (\<lambda>f (m, s). f(m \<mapsto> dbl_key s)) (zv_map z) es"
  using assms
proof (induction es arbitrary: n z)
  case (Cons e es)
  obtain m s where e: "e = (m, s)" by (cases e)
  obtain new n1 z1 where a: "zv_add rng n m s z = (new, n1, z1)" by (cases "zv_add rng n m s z")
  have p: "zv_invar z1 \<and> zv_map z1 = (zv_map z)(m \<mapsto> dbl_key s) \<and> length (zv_all z1) \<le> length (zv_all z) + 1"
    using zv_add_props [OF Cons.prems(1) _ _ _ a] Cons.prems(2,3) by (simp add: e)
  with Cons.IH [of z1 n1] Cons.prems show ?case by (simp add: e a)
qed simp

lemma foldl_upd_map_of:
  "distinct (map fst es) \<Longrightarrow> foldl (\<lambda>f (m, s). f(m \<mapsto> g s)) f es = f ++ (\<lambda>m. map_option g (map_of es m))"
proof (induction es arbitrary: f)
  case (Cons e es)
  obtain m s where e: "e = (m, s)" by (cases e)
  have "map_of es m = None" using Cons.prems by (simp add: e map_of_eq_None_iff)
  then have "f(m \<mapsto> g s) ++ (\<lambda>m. map_option g (map_of es m)) = f ++ (\<lambda>x. map_option g (map_of (e # es) x))"
    by (auto simp: e map_add_def fun_eq_iff split: option.splits)
  moreover have "foldl (\<lambda>f (m, s). f(m \<mapsto> g s)) f (e # es) = foldl (\<lambda>f (m, s). f(m \<mapsto> g s)) (f(m \<mapsto> g s)) es"
    by (simp add: e)
  moreover have "distinct (map fst es)" using Cons.prems by simp
  ultimately show ?case using Cons.IH by metis
qed simp

lemma zv_copy_map:
  assumes "zv_invar z" and "\<forall>(m, s) \<in> set (zv_all z). score_ok s \<and> lp_fits m" and "length (zv_all z) < 2 ^ 63"
    and "zv_copy rng n z = (n', z')"
  shows "zv_invar z' \<and> zv_map z' = zv_map z"
proof -
  have "distinct (map fst (zv_all z))" using assms(1) by (simp add: zv_invar_def zs_ok_def)
  then show ?thesis
    using addAll_props [OF zv_invar_new(1) assms(2) _ assms(4) [unfolded zv_copy_def]] assms(3) foldl_upd_map_of [of "zv_all z" dbl_key]
    by (simp add: zv_invar_new(2) zv_map_def zs_map_def [abs_def] map_add_def)
qed

section \<open>Scores that are stored exactly\<close>

lemma score_ok_integral: "double2ll s = Some n \<Longrightarrow> score_ok s"
  using d2string_double2ll [of s n] double2ll_text [of s n] by (simp add: score_ok_def scoreToString_def scoreFromString_def)

lemma score_ok_infinite:
  assumes "dbl_isinf s"
  shows "score_ok s"
proof -
  have n: "\<not> dbl_isnan s" using assms by (simp add: dbl_isinf_def dbl_isnan_def)
  have k: "dbl_key s = (if dbl_neg s then - 0x7FF0000000000000 else 0x7FF0000000000000)"
    using dbl_isinf_mag [OF assms] by (simp add: dbl_key_def)
  have z: "dbl_key 0 = 0" "\<not> dbl_isnan 0" by (simp_all add: dbl_key_def dbl_mag_def dbl_isnan_def kExpMask_def)
  have r: "dbl_eq (fst (strtod (str ''inf''))) 0x7FF0000000000000" "dbl_eq (fst (strtod (str ''-inf''))) 0xFFF0000000000000"
    by (simp_all add: strtod_def strtod_special_def has_prefix_def is_space_def tolower_def dbl_make_def kSignMask_def dbl_eq_def
        dbl_isnan_def kExpMask_def kFracMask_def Let_def)
  have i: "dbl_key 0x7FF0000000000000 = 0x7FF0000000000000" "dbl_key 0xFFF0000000000000 = - 0x7FF0000000000000"
    by (simp_all add: dbl_key_def dbl_neg_def dbl_mag_def)
  show ?thesis using assms n k z r i
    by (cases "dbl_neg s") (auto simp: score_ok_def scoreToString_def scoreFromString_def d2string_def dbl_lt_def dbl_eq_def)
qed

section \<open>Properties\<close>

lemma zv_size_card: "zv_invar z \<Longrightarrow> zv_size z = card (dom (zv_map z))"
proof -
  assume i: "zv_invar z"
  have "dom (zv_map z) = fst ` set (zv_all z)"
    by (auto simp: zv_map_def zs_map_def dom_def map_of_eq_None_iff [symmetric] simp flip: dom_map_of_conv_image_fst)
  moreover have "distinct (map fst (zv_all z))" using i by (simp add: zv_invar_def zs_ok_def)
  ultimately show ?thesis using zv_size_all [OF i] distinct_card [of "map fst (zv_all z)"] by simp
qed

lemma zv_range_slice:
  "zv_range start stop z =
     (if stop + 1 < start \<and> start < length (zv_all z) then None
      else Some (map (\<lambda>i. zv_all z ! i) [start ..< min (stop + 1) (length (zv_all z))]))"
proof -
  have slice: "drop k (take n xs) = map (\<lambda>i. xs ! i) [k ..< n]" if "n \<le> length xs" for k n and xs :: "(bytes \<times> double) list"
    using that by (simp add: list_eq_iff_nth_eq)
  show ?thesis
  proof (cases "length (zv_all z) \<le> start")
    case False
    then have "min stop (length (zv_all z) - 1) + 1 = min (stop + 1) (length (zv_all z))" by arith
    then show ?thesis using False slice [of "min (stop + 1) (length (zv_all z))" "zv_all z" start]
      by (auto simp: zv_range_def Let_def)
  qed (simp add: zv_range_def)
qed

text \<open>C31: A sorted set is a finite map from members to scores in both of its encodings and across the
  conversion between them: adding, deleting and reading a member have map semantics, the results
  say whether the member was new or there, and the size counts the members. The levels that the
  skiplist draws have no influence. The score added is any number but NaN when the set is a
  skiplist, which keeps the double itself; when the set is a listpack, which keeps the score as
  text, it is an infinity or an integer up to \<open>2 ^ 62\<close> in size, the scores that \<open>double2ll\<close> accepts.\<close>

theorem zset_refines_map:
  assumes "zv_invar z" and "lp_fits member" and "zv_size z + 1 < 2 ^ 63"
    and "dbl_isinf score \<or> double2ll score \<noteq> None \<or> zv_encoding z = SkipList \<and> \<not> dbl_isnan score"
    and "zv_add rng n member score z = (new, n', z1)" and "zv_erase member z = (erased, z2)"
    and "zv_score member z = (found, z3)"
  shows "new = (zv_map z member = None) \<and> zv_invar z1 \<and> zv_map z1 = (zv_map z)(member \<mapsto> dbl_key score) \<and>
    erased = (zv_map z member \<noteq> None) \<and> zv_invar z2 \<and> zv_map z2 = (zv_map z)(member := None) \<and>
    map_option dbl_key found = zv_map z member \<and> zv_invar z3 \<and> zv_map z3 = zv_map z \<and>
    zv_size z = card (dom (zv_map z))"
proof -
  have "score_ok score \<or> zv_encoding z = SkipList \<and> \<not> dbl_isnan score"
    using assms(4) score_ok_infinite score_ok_integral by blast
  from zv_add_props [OF assms(1) this assms(2) _ assms(5)] show ?thesis
    using zv_erase_props [OF assms(1,6)] zv_score_props [OF assms(1,7)]
      zv_size_all [OF assms(1)] zv_size_card [OF assms(1)] assms(3)
    by (simp add: zv_map_def zs_map_def)
qed

lemma score_five: "score_ok 0x4014000000000000"
  by (rule score_ok_integral [OF double2ll_five])

theorem zset_refines_map_witness:
  "zv_map (snd (snd (zv_add (\<lambda>_. 0) 0 (str ''a'') 0x4014000000000000 zv_new))) (str ''a'') = Some 0x4014000000000000"
proof -
  obtain new n' z1 where a: "zv_add (\<lambda>_. 0) 0 (str ''a'') 0x4014000000000000 zv_new = (new, n', z1)" by (metis surj_pair)
  obtain erased z2 where e: "zv_erase (str ''a'') zv_new = (erased, z2)" by (metis surj_pair)
  obtain found z3 where f: "zv_score (str ''a'') zv_new = (found, z3)" by (metis surj_pair)
  have "lp_fits (str ''a'')" "zv_size zv_new + 1 < 2 ^ 63"
    using zv_size_all [OF zv_invar_new(1)] by (simp_all add: zv_invar_new(2))
  from zset_refines_map [OF zv_invar_new(1) this _ a e f] double2ll_five show ?thesis
    by (simp add: a [simplified] dbl_key_def dbl_neg_def dbl_mag_def)
qed

text \<open>C32: A sorted set lists its entries in the order of score and member. The rank of a member is its
  position in that list; a range of ranks is a slice of it, empty when it starts behind the last entry
  or directly after its end, and has no defined result when it starts inside the list and later than
  that. The entries of a score range are those
  whose score \<open>containsScore\<close> accepts, with the skiplist seek of the one encoding and the scan of the
  other, and a range of members is one run of the list, which is the filter by the two bounds when
  all scores are equal.\<close>

theorem zset_order:
  assumes "zv_invar z" and "\<not> dbl_isnan (sr_min r)" "\<not> dbl_isnan (sr_max r)" and "zv_rank member z = (k, z')"
  shows "sorted_wrt (\<lambda>x y. (dbl_key (snd x), fst x) < (dbl_key (snd y), fst y)) (zv_all z) \<and>
    (case k of None \<Rightarrow> member \<notin> fst ` set (zv_all z)
     | Some i \<Rightarrow> i < length (zv_all z) \<and> fst (zv_all z ! i) = member) \<and>
    zv_range start stop z =
      (if stop + 1 < start \<and> start < length (zv_all z) then None
       else Some (map (\<lambda>i. zv_all z ! i) [start ..< min (stop + 1) (length (zv_all z))])) \<and>
    zv_rangeByScore r z = filter (\<lambda>(member, score). sr_containsScore r score) (zv_all z) \<and>
    zv_rangeByLex lr z = takeWhile (\<lambda>e. lr_belowMax lr (fst e)) (dropWhile (\<lambda>e. \<not> lr_aboveMin lr (fst e)) (zv_all z)) \<and>
    ((\<forall>e \<in> set (zv_all z). dbl_key (snd e) = key) \<longrightarrow>
      zv_rangeByLex lr z = filter (\<lambda>e. lr_aboveMin lr (fst e) \<and> lr_belowMax lr (fst e)) (zv_all z))"
proof -
  have ok: "zs_ok (zv_all z)" using assms(1) by (simp add: zv_invar_def)
  then have "sorted_wrt (\<lambda>x y. (dbl_key (snd x), fst x) < (dbl_key (snd y), fst y)) (zv_all z)"
    by (simp add: zs_ok_def sorted_wrt_map ekey_def)
  moreover have "case k of None \<Rightarrow> member \<notin> fst ` set (zv_all z)
     | Some i \<Rightarrow> i < length (zv_all z) \<and> fst (zv_all z ! i) = member"
    using zv_rank_props [OF assms(1,4)] find_key_Some [of member "zv_all z"] find_key_None [of member 0 "zv_all z"]
    by (auto simp: map_of_eq_None_iff split: option.splits)
  moreover have "zv_rangeByScore r z = filter (\<lambda>(member, score). sr_containsScore r score) (zv_all z)"
    by (rule zv_rangeByScore_filter [OF assms(1)]) (simp add: sr_ok_def assms(2,3))
  moreover have "(\<forall>e \<in> set (zv_all z). dbl_key (snd e) = key) \<longrightarrow>
      lex_run lr (zv_all z) = filter (\<lambda>e. lr_aboveMin lr (fst e) \<and> lr_belowMax lr (fst e)) (zv_all z)"
    using lex_run_filter [OF zs_uniform_sorted [OF ok]] by blast
  ultimately show ?thesis
    unfolding zv_rangeByLex_run lex_run_def [symmetric] zv_range_slice by blast
qed

theorem zset_order_witness:
  "fst (zv_rank (str ''a'') (snd (snd (zv_add (\<lambda>_. 0) 0 (str ''a'') 0x4014000000000000 zv_new)))) = Some 0"
proof -
  obtain new n' z where a: "zv_add (\<lambda>_. 0) 0 (str ''a'') 0x4014000000000000 zv_new = (new, n', z)" by (metis surj_pair)
  have "lp_fits (str ''a'')" "length (zv_all zv_new) + 1 < 2 ^ 63" by (simp_all add: zv_invar_new(2))
  from zv_add_props [OF zv_invar_new(1) disjI1 [OF score_five] this a]
  have p: "zv_invar z" "zv_map z (str ''a'') \<noteq> None" "length (zv_all z) \<le> 1" by (simp_all add: zv_invar_new(2))
  obtain k z' where k: "zv_rank (str ''a'') z = (k, z')" by (metis surj_pair)
  let ?r = "\<lparr>sr_min = dbl_of_int 1, sr_max = dbl_of_int 2, sr_min_exclusive = False, sr_max_exclusive = True\<rparr>"
  have "case k of None \<Rightarrow> str ''a'' \<notin> fst ` set (zv_all z)
     | Some i \<Rightarrow> i < length (zv_all z) \<and> fst (zv_all z ! i) = str ''a''"
    using zset_order [OF p(1) _ _ k, of ?r, THEN conjunct2, THEN conjunct1] sl_sample(1,2) by (simp split: option.splits)
  moreover have "str ''a'' \<in> fst ` set (zv_all z)" using p(2) zs_map_None [of "zv_all z"] by (simp add: zv_map_def)
  ultimately have "k = Some 0" using p(3) by (auto split: option.splits)
  then show ?thesis using a k by simp
qed

end
