(* ===== verification/Object.thy ===== *)
theory Object
  imports Set_Value List_Value ZSet_Value
begin

text \<open>
  Model of \<open>src/core/object.h\<close> and \<open>object.cpp\<close>: \<open>Value\<close>, what the keyspace stores under a key. The
  arms of the variant are a datatype; the pointers to collections are never null outside of a
  moved-from value, which no caller reads, so an arm holds its collection. A string is stored as
  an integer, as a short immutable string or as a raw string.
\<close>

section \<open>The value\<close>

datatype Arm = AInt int | AStr bytes | AList listvalue | AHash hashvalue | ASet setvalue | AZSet zsetvalue

record Value =
  v_type :: ObjType
  v_enc :: ObjEncoding
  v_data :: Arm
  v_last_access :: int

definition v_new :: Value where
  "v_new = \<lparr>v_type = String, v_enc = EmbStr, v_data = AStr [], v_last_access = 0\<rparr>"

definition makeString :: "bytes \<Rightarrow> Value" where
  "makeString s =
     (case stringToInt64 s of
        Some n \<Rightarrow> v_new\<lparr>v_type := String, v_enc := IntEnc, v_data := AInt n\<rparr>
      | None \<Rightarrow> v_new\<lparr>v_type := String, v_enc := (if length s \<le> kEmbStrSizeLimit then EmbStr else Raw),
                     v_data := AStr s\<rparr>)"

definition makeRawString :: "bytes \<Rightarrow> Value" where
  "makeRawString s = v_new\<lparr>v_type := String, v_enc := Raw, v_data := AStr s\<rparr>"

definition makeInt :: "int \<Rightarrow> Value" where
  "makeInt n = v_new\<lparr>v_type := String, v_enc := IntEnc, v_data := AInt n\<rparr>"

definition makeList :: Value where
  "makeList = v_new\<lparr>v_type := List, v_data := AList lv_new\<rparr>"

definition makeHash :: Value where
  "makeHash = v_new\<lparr>v_type := Hash, v_data := AHash hv_new\<rparr>"

definition makeSet :: Value where
  "makeSet = v_new\<lparr>v_type := Set, v_data := ASet sv_new\<rparr>"

definition makeZSet :: Value where
  "makeZSet = v_new\<lparr>v_type := ZSet, v_data := AZSet zv_new\<rparr>"

text \<open>The collection accessors: \<open>None\<close> when the value is of another type.\<close>

definition v_list :: "Value \<Rightarrow> listvalue option" where
  "v_list v = (case v_data v of AList l \<Rightarrow> Some l | _ \<Rightarrow> None)"

definition v_hash :: "Value \<Rightarrow> hashvalue option" where
  "v_hash v = (case v_data v of AHash h \<Rightarrow> Some h | _ \<Rightarrow> None)"

definition v_set :: "Value \<Rightarrow> setvalue option" where
  "v_set v = (case v_data v of ASet s \<Rightarrow> Some s | _ \<Rightarrow> None)"

definition v_zset :: "Value \<Rightarrow> zsetvalue option" where
  "v_zset v = (case v_data v of AZSet z \<Rightarrow> Some z | _ \<Rightarrow> None)"

definition v_encoding :: "Value \<Rightarrow> ObjEncoding" where
  "v_encoding v =
     (case v_type v of
        String \<Rightarrow> v_enc v
      | List \<Rightarrow> (case v_list v of Some l \<Rightarrow> lv_encoding l | None \<Rightarrow> ListPack)
      | Hash \<Rightarrow> (case v_hash v of Some h \<Rightarrow> hv_encoding h | None \<Rightarrow> ListPack)
      | Set \<Rightarrow> (case v_set v of Some s \<Rightarrow> sv_encoding s | None \<Rightarrow> IntSet)
      | ZSet \<Rightarrow> (case v_zset v of Some z \<Rightarrow> zv_encoding z | None \<Rightarrow> ListPack))"

definition elementCount :: "Value \<Rightarrow> nat" where
  "elementCount v =
     (case v_type v of
        String \<Rightarrow> 1
      | List \<Rightarrow> (case v_list v of Some l \<Rightarrow> lv_size l | None \<Rightarrow> 0)
      | Hash \<Rightarrow> (case v_hash v of Some h \<Rightarrow> hv_size h | None \<Rightarrow> 0)
      | Set \<Rightarrow> (case v_set v of Some s \<Rightarrow> sv_size s | None \<Rightarrow> 0)
      | ZSet \<Rightarrow> (case v_zset v of Some z \<Rightarrow> zv_size z | None \<Rightarrow> 0))"

section \<open>Strings\<close>

definition stringValue :: "Value \<Rightarrow> bytes" where
  "stringValue v =
     (case v_data v of
        AInt n \<Rightarrow> if v_enc v = IntEnc then to_string n else []
      | AStr s \<Rightarrow> s
      | _ \<Rightarrow> [])"

definition stringRef :: "Value \<Rightarrow> bytes" where
  "stringRef v = (case v_data v of AStr s \<Rightarrow> s | _ \<Rightarrow> [])"

definition asInt :: "Value \<Rightarrow> int option" where
  "asInt v = (case v_data v of AInt n \<Rightarrow> Some n | AStr s \<Rightarrow> stringToInt64 s | _ \<Rightarrow> None)"

definition makeMutable :: "Value \<Rightarrow> Value" where
  "makeMutable v = (if v_enc v = Raw then v else v\<lparr>v_data := AStr (stringValue v), v_enc := Raw\<rparr>)"

text \<open>\<open>None\<close> is the exception of \<open>std::get\<close> on a variant that holds no string.\<close>

definition appendString :: "bytes \<Rightarrow> Value \<Rightarrow> Value option" where
  "appendString suffix v =
     (let v1 = makeMutable v in
      case v_data v1 of AStr s \<Rightarrow> Some (v1\<lparr>v_data := AStr (s @ suffix)\<rparr>) | _ \<Rightarrow> None)"

text \<open>The caller assigns through the reference; \<open>f\<close> is what it does to the string.\<close>

definition mutableString :: "(bytes \<Rightarrow> bytes) \<Rightarrow> Value \<Rightarrow> Value option" where
  "mutableString f v =
     (let v1 = makeMutable v in
      case v_data v1 of AStr s \<Rightarrow> Some (v1\<lparr>v_data := AStr (f s)\<rparr>) | _ \<Rightarrow> None)"

function digitCount :: "64 word \<Rightarrow> nat \<Rightarrow> nat" where
  "digitCount magnitude len =
     (if magnitude div 10 > 0 then digitCount (magnitude div 10) (len + 1) else len + 1)"
  by pat_completeness auto
termination
proof (relation "measure (\<lambda>(m, len). unat m)")
  fix m :: "64 word" and len :: nat
  assume "m div 10 > 0"
  then have "0 < unat m" by (cases "m = 0") (simp_all add: unat_gt_0)
  then show "((m div 10, len + 1), (m, len)) \<in> measure (\<lambda>(m, len). unat m)" by (simp add: unat_div)
qed simp

declare digitCount.simps [simp del]

definition stringLength :: "Value \<Rightarrow> nat" where
  "stringLength v =
     (case v_data v of
        AInt n \<Rightarrow> digitCount (if n < 0 then - word_of_int n else word_of_int n) (if n < 0 then 1 else 0)
      | AStr s \<Rightarrow> length s
      | _ \<Rightarrow> 0)"

section \<open>Bookkeeping\<close>

definition v_touch :: "int \<Rightarrow> Value \<Rightarrow> Value" where
  "v_touch now_ms v = v\<lparr>v_last_access := now_ms\<rparr>"

text \<open>The deep copy. Hashes, sets and sorted sets are rebuilt from their contents; the latter draw
  skiplist levels.\<close>

definition v_copy :: "(nat \<Rightarrow> 32 word) \<Rightarrow> nat \<Rightarrow> Value \<Rightarrow> nat \<times> Value" where
  "v_copy rng n other =
     (case v_data other of
        AHash h \<Rightarrow> (n, other\<lparr>v_data := AHash (hv_copy h)\<rparr>)
      | ASet s \<Rightarrow> (n, other\<lparr>v_data := ASet (sv_copy s)\<rparr>)
      | AZSet z \<Rightarrow> (case zv_copy rng n z of (n', z') \<Rightarrow> (n', other\<lparr>v_data := AZSet z'\<rparr>))
      | _ \<Rightarrow> (n, other))"

section \<open>Well-typed values\<close>

fun arm_type :: "Arm \<Rightarrow> ObjType" where
  "arm_type (AInt _) = String"
| "arm_type (AStr _) = String"
| "arm_type (AList _) = List"
| "arm_type (AHash _) = Hash"
| "arm_type (ASet _) = Set"
| "arm_type (AZSet _) = ZSet"

fun encodings_of :: "ObjType \<Rightarrow> ObjEncoding set" where
  "encodings_of String = {IntEnc, EmbStr, Raw}"
| "encodings_of List = {ListPack, QuickList}"
| "encodings_of Hash = {ListPack, HashTable}"
| "encodings_of Set = {IntSet, ListPack, HashTable}"
| "encodings_of ZSet = {ListPack, SkipList}"

text \<open>The arm fits the type, strings are encoded as \<open>makeString\<close> or a mutation left them, and the
  collections satisfy their invariants.\<close>

definition v_typed :: "Value \<Rightarrow> bool" where
  "v_typed v \<longleftrightarrow> v_type v = arm_type (v_data v) \<and>
     (case v_data v of
        AInt n \<Rightarrow> v_enc v = IntEnc \<and> is_int64 n
      | AStr s \<Rightarrow> v_enc v = Raw \<or> v_enc v = EmbStr \<and> length s \<le> kEmbStrSizeLimit \<and> stringToInt64 s = None
      | AList l \<Rightarrow> lv_encoding l \<in> {ListPack, QuickList} \<and> (\<exists>xs. lv_rep l xs)
      | AHash h \<Rightarrow> hv_invar h
      | ASet s \<Rightarrow> sv_invar s
      | AZSet z \<Rightarrow> zv_invar z)"

lemma v_typed_make:
  "v_typed v_new" "v_typed (makeString s)" "v_typed (makeRawString s)" "is_int64 n \<Longrightarrow> v_typed (makeInt n)"
  "v_typed makeList" "v_typed makeHash" "v_typed makeSet" "v_typed makeZSet"
  using lv_rep_new hv_invar_new(1) sv_invar_new(1) zv_invar_new(1) stringToInt64_sound [of s]
  by (auto simp: v_typed_def v_new_def makeString_def makeRawString_def makeInt_def makeList_def makeHash_def makeSet_def
      makeZSet_def lv_new_def stringToInt64_def simp del: lp_new_rep split: option.splits)

lemma v_typed_encoding: "v_typed v \<Longrightarrow> v_encoding v \<in> encodings_of (v_type v)"
  by (auto simp: v_typed_def v_encoding_def v_list_def v_hash_def v_set_def v_zset_def hv_invar_def sv_invar_def
      zv_invar_def split: Arm.splits if_splits)

lemma v_typed_arms:
  "v_typed v \<Longrightarrow> (v_list v \<noteq> None) = (v_type v = List) \<and> (v_hash v \<noteq> None) = (v_type v = Hash) \<and>
     (v_set v \<noteq> None) = (v_type v = Set) \<and> (v_zset v \<noteq> None) = (v_type v = ZSet)"
  by (auto simp: v_typed_def v_list_def v_hash_def v_set_def v_zset_def split: Arm.splits)

section \<open>String operations\<close>

lemma v_string_cases:
  assumes "v_typed v" and "v_type v = String"
  obtains n where "v_data v = AInt n" "v_enc v = IntEnc" "is_int64 n"
  | s where "v_data v = AStr s" "v_enc v = Raw \<or> v_enc v = EmbStr"
  using assms by (auto simp: v_typed_def split: Arm.splits)

lemma digitCount_digits: "digitCount m len = len + length (nat_digits (unat m))"
proof (induction m len rule: digitCount.induct)
  case (1 m len)
  have d: "unat (m div 10) = unat m div 10" by (simp add: unat_div)
  show ?case
  proof (cases "m div 10 > 0")
    case True
    then have "0 < unat m div 10" using d by (simp add: word_less_nat_alt)
    then have "10 \<le> unat m" by (simp add: div_greater_zero_iff)
    then show ?thesis using True 1 d by (subst digitCount.simps, subst nat_digits.simps) simp
  next
    case False
    then have "unat m div 10 = 0" using d by (simp add: word_gt_0)
    then have "unat m < 10" by (simp add: div_eq_0_iff)
    then show ?thesis using False by (subst digitCount.simps, subst nat_digits.simps) simp
  qed
qed

lemma stringLength_int:
  assumes "is_int64 n" and "v_data v = AInt n"
  shows "stringLength v = length (to_string n)"
proof -
  have u: "unat (word_of_int k :: 64 word) = nat k" if "0 \<le> k" "k < 2 ^ 64" for k
    using that by (simp add: unat_eq_nat_uint uint_word_of_int_eq take_bit_int_eq_self)
  have "unat (- word_of_int n :: 64 word) = nat (- n)" if "n < 0"
    using u [of "- n"] that assms(1) by (simp add: is_int64_def)
  moreover have "unat (word_of_int n :: 64 word) = nat n" if "\<not> n < 0"
    using u [of n] that assms(1) by (simp add: is_int64_def)
  ultimately show ?thesis using assms(2) by (simp add: stringLength_def digitCount_digits to_string_def)
qed

lemma string_ops:
  assumes "v_typed v" and "v_type v = String"
  shows "stringLength v = length (stringValue v)" "asInt v = stringToInt64 (stringValue v)"
    and "\<exists>v'. mutableString f v = Some v' \<and> v_typed v' \<and> v_type v' = String \<and> v_enc v' = Raw \<and> stringValue v' = f (stringValue v)"
proof -
  from assms show "stringLength v = length (stringValue v)"
    by (rule v_string_cases) (auto simp: stringLength_int, auto simp: stringValue_def stringLength_def)
  from assms show "asInt v = stringToInt64 (stringValue v)"
    by (rule v_string_cases) (auto simp: asInt_def stringValue_def stringToInt64_complete)
  from assms show "\<exists>v'. mutableString f v = Some v' \<and> v_typed v' \<and> v_type v' = String \<and> v_enc v' = Raw \<and> stringValue v' = f (stringValue v)"
    by (rule v_string_cases) (use assms(2) in \<open>auto simp: mutableString_def makeMutable_def stringValue_def v_typed_def Let_def\<close>)
qed

lemma appendString_mutable: "appendString suffix = mutableString (\<lambda>s. s @ suffix)"
  by (rule ext) (simp add: appendString_def mutableString_def)

lemma stringValue_makeString: "stringValue (makeString s) = s"
  using stringToInt64_sound [of s] by (auto simp: stringValue_def makeString_def v_new_def split: option.splits)

lemma makeString_fields: "v_type (makeString s) = String"
  "v_encoding (makeString s) = (if stringToInt64 s \<noteq> None then IntEnc else if length s \<le> kEmbStrSizeLimit then EmbStr else Raw)"
  by (auto simp: makeString_def v_new_def v_encoding_def split: option.splits)

section \<open>Copies\<close>

lemma sv_copy_props:
  assumes "sv_invar s"
  shows "sv_invar (sv_copy s) \<and> sv_elems (sv_copy s) = sv_elems s"
proof -
  have "sv_invar (fold (\<lambda>m s. snd (sv_add m s)) ms s) \<and> sv_elems (fold (\<lambda>m s. snd (sv_add m s)) ms s) = sv_elems s \<union> set ms"
    if "sv_invar s" for ms s
    using that
  proof (induction ms arbitrary: s)
    case (Cons m ms)
    obtain new s1 where a: "sv_add m s = (new, s1)" by (cases "sv_add m s")
    then show ?case using Cons.IH [of s1] strs.add [OF Cons.prems TrueI a] by auto
  qed simp
  from this [OF sv_invar_new(1), of "sv_members s"] show ?thesis
    by (simp add: sv_copy_def sv_invar_new(2)) (simp add: sv_elems_def)
qed

text \<open>Two values with the same contents; the encodings may differ.\<close>

fun same_contents :: "Arm \<Rightarrow> Arm \<Rightarrow> bool" where
  "same_contents (AHash h) (AHash h') \<longleftrightarrow> hv_lookup h = hv_lookup h'"
| "same_contents (ASet s) (ASet s') \<longleftrightarrow> sv_elems s = sv_elems s'"
| "same_contents (AZSet z) (AZSet z') \<longleftrightarrow> zv_map z = zv_map z'"
| "same_contents a b \<longleftrightarrow> a = b"

text \<open>What can be stored again: lengths below the listpack's limit and scores whose text reads back.\<close>

definition v_storable :: "Value \<Rightarrow> bool" where
  "v_storable v \<longleftrightarrow> (case v_data v of
      AHash h \<Rightarrow> \<forall>(k, v) \<in> set (hv_entries h). hv_fits k v
    | AZSet z \<Rightarrow> (\<forall>(m, s) \<in> set (zv_all z). score_ok s \<and> lp_fits m) \<and> length (zv_all z) < 2 ^ 63
    | _ \<Rightarrow> True)"

lemma v_copy_same:
  assumes "v_typed v" and "v_storable v" and "v_copy rng n v = (n', v')"
  shows "v_typed v'" "v_type v' = v_type v" "same_contents (v_data v) (v_data v')" "v_last_access v' = v_last_access v"
proof -
  have "v_typed v' \<and> v_type v' = v_type v \<and> same_contents (v_data v) (v_data v') \<and> v_last_access v' = v_last_access v"
  proof (cases "v_data v")
    case (AHash h)
    then show ?thesis using assms hv_copy_props [of h] by (auto simp: v_copy_def v_typed_def v_storable_def)
  next
    case (ASet s)
    then show ?thesis using assms sv_copy_props [of s] by (auto simp: v_copy_def v_typed_def)
  next
    case (AZSet z)
    obtain m z' where c: "zv_copy rng n z = (m, z')" by (cases "zv_copy rng n z")
    then show ?thesis using AZSet assms zv_copy_map [of z rng n m z'] by (auto simp: v_copy_def v_typed_def v_storable_def)
  qed (use assms in \<open>auto simp: v_copy_def\<close>)
  then show "v_typed v'" "v_type v' = v_type v" "same_contents (v_data v) (v_data v')" "v_last_access v' = v_last_access v" by simp_all
qed

section \<open>Properties\<close>

text \<open>C33: Every way to make a value yields a well-typed one: the arm of the variant is the one of the
  type, exactly the accessor of that type answers, and the encoding is one of the type. A write
  through \<open>appendString\<close>, \<open>mutableString\<close> or \<open>touch\<close> keeps a well-typed string so, and never
  raises.\<close>

theorem values_well_typed:
  assumes "is_int64 n" and "v_typed v" and "v_type v = String"
  shows "(\<forall>w \<in> {v_new, makeString s, makeRawString s, makeInt n, makeList, makeHash, makeSet, makeZSet}.
      v_typed w \<and> v_encoding w \<in> encodings_of (v_type w) \<and>
      (v_list w \<noteq> None) = (v_type w = List) \<and> (v_hash w \<noteq> None) = (v_type w = Hash) \<and>
      (v_set w \<noteq> None) = (v_type w = Set) \<and> (v_zset w \<noteq> None) = (v_type w = ZSet)) \<and>
    (\<exists>v'. appendString s v = Some v' \<and> v_typed v' \<and> v_type v' = String) \<and>
    (\<exists>v'. mutableString f v = Some v' \<and> v_typed v' \<and> v_type v' = String) \<and>
    v_typed (v_touch now v) \<and> v_type (v_touch now v) = String"
proof -
  have "v_typed w" if "w \<in> {v_new, makeString s, makeRawString s, makeInt n, makeList, makeHash, makeSet, makeZSet}" for w
    using that v_typed_make assms(1) by blast
  moreover have "v_typed (v_touch now v) \<and> v_type (v_touch now v) = String"
    using assms(2,3) by (simp add: v_touch_def v_typed_def split: Arm.splits)
  ultimately show ?thesis
    using v_typed_encoding v_typed_arms string_ops(3) [OF assms(2,3)] unfolding appendString_mutable by metis
qed

theorem values_well_typed_witness:
  "v_encoding (makeString (str ''12'')) \<in> encodings_of String \<and> (\<exists>v'. appendString (str ''3'') (makeString (str ''12'')) = Some v')"
proof -
  have "is_int64 0" by (simp add: is_int64_def)
  from values_well_typed [OF this v_typed_make(2) makeString_fields(1)] makeString_fields(1)
  show ?thesis by (metis insertI1 insertI2)
qed

text \<open>C34: A string value reads back as the bytes it was made from, whatever encoding was chosen: as
  integer exactly when the bytes are the canonical decimal text of a 64-bit integer, as \<open>embstr\<close>
  up to 44 other bytes, as \<open>raw\<close> beyond. The length is the number of bytes, also where the digits
  of an integer are counted instead, the integer view is that of the text, and appending makes the
  value raw and extends the text.\<close>

theorem string_values:
  assumes "v_typed v" and "v_type v = String"
  shows "stringValue (makeString s) = s \<and>
    v_encoding (makeString s) = (if \<exists>n. is_int64 n \<and> s = to_string n then IntEnc else if length s \<le> 44 then EmbStr else Raw) \<and>
    stringLength v = length (stringValue v) \<and> asInt v = stringToInt64 (stringValue v) \<and>
    (\<exists>v'. appendString suffix v = Some v' \<and> stringValue v' = stringValue v @ suffix \<and> v_encoding v' = Raw)"
proof -
  have "stringToInt64 s \<noteq> None \<longleftrightarrow> (\<exists>n. is_int64 n \<and> s = to_string n)"
    using stringToInt64_sound stringToInt64_complete by fastforce
  then have "v_encoding (makeString s) = (if \<exists>n. is_int64 n \<and> s = to_string n then IntEnc else if length s \<le> 44 then EmbStr else Raw)"
    using makeString_fields(2) [of s] by (simp add: kEmbStrSizeLimit_def)
  moreover obtain v' where "appendString suffix v = Some v'" "v_type v' = String" "v_enc v' = Raw" "stringValue v' = stringValue v @ suffix"
    using string_ops(3) [OF assms] unfolding appendString_mutable by metis
  moreover from this have "v_encoding v' = Raw" by (simp add: v_encoding_def)
  ultimately show ?thesis
    using string_ops(1,2) [OF assms] stringValue_makeString [of s] by blast
qed

theorem string_values_witness: "stringLength (makeString (str ''-120'')) = 4"
  using string_values [OF v_typed_make(2) makeString_fields(1), of "str ''-120''" "str ''-120''" "[]"] by simp

end
