(* ===== verification/Database.thy ===== *)
theory Database
  imports Object Dict_Scan
begin

text \<open>
  Model of \<open>src/server/db.h\<close> and \<open>db.cpp\<close>: one keyspace, a table of values and a table of expiry
  times, with lazy expiry on every lookup and a sampled active cycle. The two callbacks are a flag
  each, and their calls are recorded in \<open>db_events\<close>. A pointer into the keyspace is the value it
  points to; what is written through it is assigned back with \<open>dict_assign\<close>.
\<close>

section \<open>State\<close>

definition kActiveExpireSampleSize :: nat where
  "kActiveExpireSampleSize = 20"

definition kActiveExpireThresholdPercent :: nat where
  "kActiveExpireThresholdPercent = 25"

definition kActiveExpireMaxIterations :: nat where
  "kActiveExpireMaxIterations = 16"

datatype KeyEvent = Expired bytes | NewKey bytes

record Database =
  db_index :: int
  db_dict :: "Value dict"
  db_expires :: "int dict"
  db_on_expired :: bool
  db_on_new_key :: bool
  db_expiration_enabled :: bool
  db_events :: "KeyEvent list"

definition db_new :: "int \<Rightarrow> Database" where
  "db_new index = \<lparr>db_index = index, db_dict = dict_new, db_expires = dict_new, db_on_expired = False,
                   db_on_new_key = False, db_expiration_enabled = True, db_events = []\<rparr>"

definition setExpiredKeyCallback :: "Database \<Rightarrow> Database" where
  "setExpiredKeyCallback db = db\<lparr>db_on_expired := True\<rparr>"

definition setNewKeyCallback :: "Database \<Rightarrow> Database" where
  "setNewKeyCallback db = db\<lparr>db_on_new_key := True\<rparr>"

definition setExpirationEnabled :: "bool \<Rightarrow> Database \<Rightarrow> Database" where
  "setExpirationEnabled enabled db = db\<lparr>db_expiration_enabled := enabled\<rparr>"

section \<open>Operations\<close>

text \<open>The two erasures and the callback, as lazy and active expiry perform them.\<close>

definition expireKey :: "bytes \<Rightarrow> Database \<Rightarrow> Database" where
  "expireKey key db =
     db\<lparr>db_expires := snd (dict_erase key (db_expires db)), db_dict := snd (dict_erase key (db_dict db)),
        db_events := db_events db @ (if db_on_expired db then [Expired key] else [])\<rparr>"

definition expireIfNeeded :: "bytes \<Rightarrow> int \<Rightarrow> Database \<Rightarrow> bool \<times> Database" where
  "expireIfNeeded key now_ms db =
     (case dict_find key (db_expires db) of
        (None, t) \<Rightarrow> (False, db\<lparr>db_expires := t\<rparr>)
      | (Some w, t) \<Rightarrow>
          if w > now_ms then (False, db\<lparr>db_expires := t\<rparr>)
          else if \<not> db_expiration_enabled db then (True, db\<lparr>db_expires := t\<rparr>)
          else (True, expireKey key (db\<lparr>db_expires := t\<rparr>)))"

definition lookupRead :: "bytes \<Rightarrow> int \<Rightarrow> Database \<Rightarrow> Value option \<times> Database" where
  "lookupRead key now_ms db =
     (case expireIfNeeded key now_ms db of
        (True, db1) \<Rightarrow> (None, db1)
      | (False, db1) \<Rightarrow>
          (case dict_find key (db_dict db1) of
             (None, d) \<Rightarrow> (None, db1\<lparr>db_dict := d\<rparr>)
           | (Some v, d) \<Rightarrow>
               (Some (v_touch now_ms v), db1\<lparr>db_dict := dict_assign key (v_touch now_ms v) d\<rparr>)))"

definition lookupWrite :: "bytes \<Rightarrow> int \<Rightarrow> Database \<Rightarrow> Value option \<times> Database" where
  "lookupWrite key now_ms db = lookupRead key now_ms db"

definition newKeyEvent :: "bool \<Rightarrow> bytes \<Rightarrow> Database \<Rightarrow> Database" where
  "newKeyEvent added key db =
     (if added \<and> db_on_new_key db then db\<lparr>db_events := db_events db @ [NewKey key]\<rparr> else db)"

definition setKey :: "bytes \<Rightarrow> Value \<Rightarrow> Database \<Rightarrow> Database" where
  "setKey key v db =
     (case dict_insert key v (db_dict db) of
        (added, d) \<Rightarrow>
          newKeyEvent added key (db\<lparr>db_dict := d, db_expires := snd (dict_erase key (db_expires db))\<rparr>))"

definition overwriteValue :: "bytes \<Rightarrow> Value \<Rightarrow> Database \<Rightarrow> Database" where
  "overwriteValue key v db =
     (case dict_insert key v (db_dict db) of (added, d) \<Rightarrow> newKeyEvent added key (db\<lparr>db_dict := d\<rparr>))"

definition db_erase :: "bytes \<Rightarrow> Database \<Rightarrow> bool \<times> Database" where
  "db_erase key db =
     (case dict_erase key (db_dict db) of
        (erased, d) \<Rightarrow> (erased, db\<lparr>db_expires := snd (dict_erase key (db_expires db)), db_dict := d\<rparr>))"

definition db_exists :: "bytes \<Rightarrow> int \<Rightarrow> Database \<Rightarrow> bool \<times> Database" where
  "db_exists key now_ms db = (case lookupRead key now_ms db of (v, db1) \<Rightarrow> (v \<noteq> None, db1))"

definition setExpireAt :: "bytes \<Rightarrow> int \<Rightarrow> Database \<Rightarrow> Database" where
  "setExpireAt key at_ms db = db\<lparr>db_expires := snd (dict_insert key at_ms (db_expires db))\<rparr>"

definition persist :: "bytes \<Rightarrow> Database \<Rightarrow> bool \<times> Database" where
  "persist key db = (case dict_erase key (db_expires db) of (erased, t) \<Rightarrow> (erased, db\<lparr>db_expires := t\<rparr>))"

definition expireAtMs :: "bytes \<Rightarrow> Database \<Rightarrow> int \<times> Database" where
  "expireAtMs key db =
     (case dict_find key (db_expires db) of
        (Some w, t) \<Rightarrow> (w, db\<lparr>db_expires := t\<rparr>) | (None, t) \<Rightarrow> (- 1, db\<lparr>db_expires := t\<rparr>))"

definition ttlMs :: "bytes \<Rightarrow> int \<Rightarrow> Database \<Rightarrow> int \<times> Database" where
  "ttlMs key now_ms db =
     (case lookupRead key now_ms db of
        (None, db1) \<Rightarrow> (- 2, db1)
      | (Some _, db1) \<Rightarrow>
          (case expireAtMs key db1 of
             (w, db2) \<Rightarrow>
               if w < 0 then (- 1, db2)
               else let remaining = w - now_ms in (if remaining < 0 then 0 else remaining, db2)))"

definition flush :: "Database \<Rightarrow> Database" where
  "flush db = db\<lparr>db_dict := dict_clear (db_dict db), db_expires := dict_clear (db_expires db)\<rparr>"

text \<open>The sampling loop of one iteration of the active cycle: how many keys were drawn and the keys to
  delete, in order, on the draws of the generator from position \<open>n\<close> on.\<close>

fun sampleLoop :: "nat \<Rightarrow> (nat \<Rightarrow> 64 word) \<Rightarrow> nat \<Rightarrow> int \<Rightarrow> int dict \<Rightarrow> nat \<times> bytes list \<times> nat" where
  "sampleLoop 0 rng n now_ms t = (0, [], n)"
| "sampleLoop (Suc left) rng n now_ms t =
     (case randomEntry rng n t of
        (None, n1) \<Rightarrow> (0, [], n1)
      | (Some (key, w), n1) \<Rightarrow>
          (case sampleLoop left rng n1 now_ms t of
             (sampled, doomed, n2) \<Rightarrow> (sampled + 1, (if w \<le> now_ms then key # doomed else doomed), n2)))"

fun expireLoop :: "nat \<Rightarrow> (nat \<Rightarrow> 64 word) \<Rightarrow> nat \<Rightarrow> int \<Rightarrow> nat \<Rightarrow> Database \<Rightarrow> nat \<times> nat \<times> Database" where
  "expireLoop 0 rng n now_ms total_deleted db = (total_deleted, n, db)"
| "expireLoop (Suc left) rng n now_ms total_deleted db =
     (let remaining = dict_size (db_expires db) in
      if remaining = 0 then (total_deleted, n, db)
      else case sampleLoop (min remaining kActiveExpireSampleSize) rng n now_ms (db_expires db) of
        (sampled, doomed, n1) \<Rightarrow>
          let db1 = fold expireKey doomed db;
              expired = length doomed;
              total = total_deleted + expired
          in if sampled = 0 then (total, n1, db1)
             else if expired * 100 div sampled \<le> kActiveExpireThresholdPercent then (total, n1, db1)
             else expireLoop left rng n1 now_ms total db1)"

definition activeExpireCycle :: "(nat \<Rightarrow> 64 word) \<Rightarrow> nat \<Rightarrow> int \<Rightarrow> Database \<Rightarrow> nat \<times> nat \<times> Database" where
  "activeExpireCycle rng n now_ms db =
     (if \<not> db_expiration_enabled db \<or> dict_empty (db_expires db) then (0, n, db)
      else expireLoop kActiveExpireMaxIterations rng n now_ms 0 db)"

fun randomKeyLoop :: "nat \<Rightarrow> (nat \<Rightarrow> 64 word) \<Rightarrow> nat \<Rightarrow> int \<Rightarrow> Database \<Rightarrow> bytes option \<times> nat \<times> Database" where
  "randomKeyLoop 0 rng n now_ms db = (None, n, db)"
| "randomKeyLoop (Suc left) rng n now_ms db =
     (case randomEntry rng n (db_dict db) of
        (None, n1) \<Rightarrow> (None, n1, db)
      | (Some (key, v), n1) \<Rightarrow>
          (case expireIfNeeded key now_ms db of
             (True, db1) \<Rightarrow> randomKeyLoop left rng n1 now_ms db1
           | (False, db1) \<Rightarrow> (Some key, n1, db1)))"

definition randomKey :: "(nat \<Rightarrow> 64 word) \<Rightarrow> nat \<Rightarrow> int \<Rightarrow> Database \<Rightarrow> bytes option \<times> nat \<times> Database" where
  "randomKey rng n now_ms db = randomKeyLoop 100 rng n now_ms db"

definition db_keys :: "Database \<Rightarrow> bytes list" where
  "db_keys db = map fst (dict_forEach (db_dict db))"

definition db_scan :: "64 word \<Rightarrow> Database \<Rightarrow> bytes list \<times> 64 word" where
  "db_scan cursor db = (case dict_scan cursor (db_dict db) of (es, c) \<Rightarrow> (map fst es, c))"

definition incrementalRehash :: "nat \<Rightarrow> Database \<Rightarrow> bool \<times> Database" where
  "incrementalRehash buckets db =
     (case rehashSteps buckets (db_dict db) of (b, d) \<Rightarrow> (b, db\<lparr>db_dict := d\<rparr>))"

section \<open>The keyspace as clients see it\<close>

definition db_invar :: "Database \<Rightarrow> bool" where
  "db_invar db \<longleftrightarrow> dict_invar (db_dict db) \<and> dict_invar (db_expires db)"

definition db_values :: "Database \<Rightarrow> bytes \<Rightarrow> Value option" where
  "db_values db = dict_lookup (db_dict db)"

definition db_ttls :: "Database \<Rightarrow> bytes \<Rightarrow> int option" where
  "db_ttls db = dict_lookup (db_expires db)"

definition dead :: "int \<Rightarrow> Database \<Rightarrow> bytes \<Rightarrow> bool" where
  "dead now_ms db key \<longleftrightarrow> (case db_ttls db key of None \<Rightarrow> False | Some w \<Rightarrow> w \<le> now_ms)"

text \<open>What a client can see at a time: the keys whose expiry has not passed.\<close>

definition db_view :: "int \<Rightarrow> Database \<Rightarrow> bytes \<Rightarrow> Value option" where
  "db_view now_ms db key = (if dead now_ms db key then None else db_values db key)"

lemma db_invar_new: "db_invar (db_new i)" "db_values (db_new i) = Map.empty" "db_ttls (db_new i) = Map.empty"
  by (simp_all add: db_invar_def db_new_def db_values_def db_ttls_def dict_invar_new dict_lookup_new)

lemma expireKey_props:
  assumes "db_invar db"
  shows "db_invar (expireKey key db)" "db_values (expireKey key db) = (db_values db)(key := None)"
    "db_ttls (expireKey key db) = (db_ttls db)(key := None)"
    "db_events (expireKey key db) = db_events db @ (if db_on_expired db then [Expired key] else [])"
    "db_on_expired (expireKey key db) = db_on_expired db" "db_expiration_enabled (expireKey key db) = db_expiration_enabled db"
  using assms dict.snd_erase [of "db_dict db" key] dict.snd_erase [of "db_expires db" key]
  by (simp_all add: db_invar_def expireKey_def db_values_def db_ttls_def)

lemma expireIfNeeded_props:
  assumes "db_invar db" and "expireIfNeeded key now db = (gone, db')"
  shows "gone = dead now db key" "db_invar db'"
    "db_values db' = (if dead now db key \<and> db_expiration_enabled db then (db_values db)(key := None) else db_values db)"
    "db_ttls db' = (if dead now db key \<and> db_expiration_enabled db then (db_ttls db)(key := None) else db_ttls db)"
    "db_events db' = db_events db @ (if dead now db key \<and> db_expiration_enabled db \<and> db_on_expired db then [Expired key] else [])"
    "db_expiration_enabled db' = db_expiration_enabled db" "db_on_expired db' = db_on_expired db"
proof -
  obtain r t where f: "dict_find key (db_expires db) = (r, t)" by (cases "dict_find key (db_expires db)")
  have e: "r = db_ttls db key" "dict_invar t" "dict_lookup t = dict_lookup (db_expires db)"
    using dict.find [OF _ f] assms(1) by (simp_all add: db_invar_def db_ttls_def)
  let ?db = "db\<lparr>db_expires := t\<rparr>"
  have d: "db_invar ?db" "db_values ?db = db_values db" "db_ttls ?db = db_ttls db"
    using assms(1) e by (simp_all add: db_invar_def db_values_def db_ttls_def)
  note x = expireKey_props [OF d(1), of key]
  have "(gone, db') = (if dead now db key then (True, if db_expiration_enabled db then expireKey key ?db else ?db) else (False, ?db))"
    using assms(2) f e(1) by (auto simp: expireIfNeeded_def dead_def split: option.splits if_splits)
  then show "gone = dead now db key" "db_invar db'"
    "db_values db' = (if dead now db key \<and> db_expiration_enabled db then (db_values db)(key := None) else db_values db)"
    "db_ttls db' = (if dead now db key \<and> db_expiration_enabled db then (db_ttls db)(key := None) else db_ttls db)"
    "db_events db' = db_events db @ (if dead now db key \<and> db_expiration_enabled db \<and> db_on_expired db then [Expired key] else [])"
    "db_expiration_enabled db' = db_expiration_enabled db" "db_on_expired db' = db_on_expired db"
    using x d by (auto split: if_splits)
qed

lemma lookupRead_props:
  assumes "db_invar db" and "lookupRead key now db = (r, db')"
  shows "r = map_option (v_touch now) (db_view now db key)" "db_invar db'"
    "db_values db' = (if dead now db key then if db_expiration_enabled db then (db_values db)(key := None) else db_values db
       else (db_values db)(key := map_option (v_touch now) (db_values db key)))"
    "db_ttls db' = (if dead now db key \<and> db_expiration_enabled db then (db_ttls db)(key := None) else db_ttls db)"
    "db_events db' = db_events db @ (if dead now db key \<and> db_expiration_enabled db \<and> db_on_expired db then [Expired key] else [])"
proof -
  obtain gone db1 where e: "expireIfNeeded key now db = (gone, db1)" by (cases "expireIfNeeded key now db")
  note p = expireIfNeeded_props [OF assms(1) e]
  obtain v d where f: "dict_find key (db_dict db1) = (v, d)" by (cases "dict_find key (db_dict db1)")
  have d: "v = db_values db1 key" "dict_invar d" "dict_lookup d = db_values db1"
    using dict.find [OF _ f] p(2) by (simp_all add: db_invar_def db_values_def)
  have a: "dict_invar (dict_assign key x d) \<and> dict_lookup (dict_assign key x d) = (db_values db1)(key \<mapsto> x)" if "v = Some w" for x w
    using dict_assign_props [OF d(2), of key w x] d that by simp
  have r: "(r, db') = (if gone then (None, db1) else (case v of None \<Rightarrow> (None, db1\<lparr>db_dict := d\<rparr>)
      | Some x \<Rightarrow> (Some (v_touch now x), db1\<lparr>db_dict := dict_assign key (v_touch now x) d\<rparr>)))"
    using assms(2) e f by (auto simp: lookupRead_def split: bool.splits option.splits)
  have i: "dict_invar (db_expires db1)" using p(2) by (simp add: db_invar_def)
  show "r = map_option (v_touch now) (db_view now db key)" "db_invar db'"
    "db_values db' = (if dead now db key then if db_expiration_enabled db then (db_values db)(key := None) else db_values db
       else (db_values db)(key := map_option (v_touch now) (db_values db key)))"
    "db_ttls db' = (if dead now db key \<and> db_expiration_enabled db then (db_ttls db)(key := None) else db_ttls db)"
    "db_events db' = db_events db @ (if dead now db key \<and> db_expiration_enabled db \<and> db_on_expired db then [Expired key] else [])"
    using r p d a i
    by (auto simp: db_view_def db_values_def [of db'] db_ttls_def [of db'] db_invar_def db_ttls_def [of db1] db_values_def [of db1]
        fun_upd_idem split: if_splits option.splits)
qed

section \<open>Writes\<close>

lemma newKeyEvent_fields [simp]:
  "db_dict (newKeyEvent a k db) = db_dict db" "db_expires (newKeyEvent a k db) = db_expires db"
  "db_expiration_enabled (newKeyEvent a k db) = db_expiration_enabled db"
  by (simp_all add: newKeyEvent_def)

lemma db_writes:
  assumes "db_invar db"
  shows "db_invar (setKey k v db) \<and> db_values (setKey k v db) = (db_values db)(k \<mapsto> v) \<and> db_ttls (setKey k v db) = (db_ttls db)(k := None)"
    "db_invar (overwriteValue k v db) \<and> db_values (overwriteValue k v db) = (db_values db)(k \<mapsto> v) \<and> db_ttls (overwriteValue k v db) = db_ttls db"
    "db_invar (setExpireAt k w db) \<and> db_values (setExpireAt k w db) = db_values db \<and> db_ttls (setExpireAt k w db) = (db_ttls db)(k \<mapsto> w)"
    "db_invar (flush db) \<and> db_values (flush db) = Map.empty \<and> db_ttls (flush db) = Map.empty"
proof -
  have i: "dict_invar (db_dict db)" "dict_invar (db_expires db)" using assms by (simp_all add: db_invar_def)
  show "db_invar (setKey k v db) \<and> db_values (setKey k v db) = (db_values db)(k \<mapsto> v) \<and> db_ttls (setKey k v db) = (db_ttls db)(k := None)"
    using dict.snd_insert [OF i(1) TrueI, of k v] dict.snd_erase [OF i(2), of k]
    by (simp add: setKey_def db_invar_def db_values_def db_ttls_def case_prod_beta)
  show "db_invar (overwriteValue k v db) \<and> db_values (overwriteValue k v db) = (db_values db)(k \<mapsto> v) \<and> db_ttls (overwriteValue k v db) = db_ttls db"
    using dict.snd_insert [OF i(1) TrueI, of k v] i
    by (simp add: overwriteValue_def db_invar_def db_values_def db_ttls_def case_prod_beta)
  show "db_invar (setExpireAt k w db) \<and> db_values (setExpireAt k w db) = db_values db \<and> db_ttls (setExpireAt k w db) = (db_ttls db)(k \<mapsto> w)"
    using dict.snd_insert [OF i(2) TrueI, of k w] i by (simp add: setExpireAt_def db_invar_def db_values_def db_ttls_def)
  show "db_invar (flush db) \<and> db_values (flush db) = Map.empty \<and> db_ttls (flush db) = Map.empty"
    by (simp add: flush_def db_invar_def db_values_def db_ttls_def dict_clear_new dict_invar_new dict_lookup_new)
qed

lemma db_removals:
  assumes "db_invar db"
  shows "db_erase k db = (e, db') \<Longrightarrow> e = (db_values db k \<noteq> None) \<and> db_invar db' \<and>
      db_values db' = (db_values db)(k := None) \<and> db_ttls db' = (db_ttls db)(k := None)"
    "persist k db = (e, db') \<Longrightarrow> e = (db_ttls db k \<noteq> None) \<and> db_invar db' \<and>
      db_values db' = db_values db \<and> db_ttls db' = (db_ttls db)(k := None)"
proof -
  have i: "dict_invar (db_dict db)" "dict_invar (db_expires db)" using assms by (simp_all add: db_invar_def)
  show "db_erase k db = (e, db') \<Longrightarrow> e = (db_values db k \<noteq> None) \<and> db_invar db' \<and>
      db_values db' = (db_values db)(k := None) \<and> db_ttls db' = (db_ttls db)(k := None)"
    using dict.erase [OF i(1), of k] dict.snd_erase [OF i(2), of k]
    by (auto simp: db_erase_def db_invar_def db_values_def db_ttls_def split: prod.splits)
  show "persist k db = (e, db') \<Longrightarrow> e = (db_ttls db k \<noteq> None) \<and> db_invar db' \<and>
      db_values db' = db_values db \<and> db_ttls db' = (db_ttls db)(k := None)"
    using dict.erase [OF i(2), of k] i by (auto simp: persist_def db_invar_def db_values_def db_ttls_def split: prod.splits)
qed

lemma ttlMs_props:
  assumes "db_invar db" and "ttlMs k now db = (ttl, db')" and "\<forall>w. db_ttls db k = Some w \<longrightarrow> 0 \<le> w"
  shows "ttl = (if db_view now db k = None then - 2 else case db_ttls db k of None \<Rightarrow> - 1 | Some w \<Rightarrow> w - now)"
proof -
  obtain r db1 where l: "lookupRead k now db = (r, db1)" by (cases "lookupRead k now db")
  note p = lookupRead_props [OF assms(1) l]
  show ?thesis
  proof (cases "db_view now db k")
    case None
    then show ?thesis using p(1) l assms(2) by (simp add: ttlMs_def)
  next
    case (Some v)
    then have nd: "\<not> dead now db k" by (auto simp: db_view_def split: if_splits)
    obtain w t where f: "dict_find k (db_expires db1) = (w, t)" by (cases "dict_find k (db_expires db1)")
    have "w = db_ttls db k" using dict.find [OF _ f] p(2,4) nd by (simp add: db_invar_def db_ttls_def)
    then show ?thesis using Some p(1) l f assms(2,3) nd
      by (auto simp: ttlMs_def expireAtMs_def dead_def Let_def split: option.splits if_splits)
  qed
qed

section \<open>The active cycle\<close>

lemma sampleLoop_dead:
  assumes "dict_invar t" and "sampleLoop m rng n now t = (sampled, doomed, n')"
  shows "\<forall>k \<in> set doomed. \<exists>w \<le> now. dict_lookup t k = Some w" "length doomed \<le> sampled" "sampled \<le> m"
proof -
  have "(\<forall>k \<in> set doomed. \<exists>w \<le> now. dict_lookup t k = Some w) \<and> length doomed \<le> sampled \<and> sampled \<le> m"
    using assms(2)
  proof (induction m arbitrary: n sampled doomed n')
    case (Suc m)
    show ?case
    proof (cases "dict_empty t")
      case True
      then show ?thesis using Suc.prems by (simp add: randomEntry_def)
    next
      case False
      then obtain k w n1 where e: "randomEntry rng n t = (Some (k, w), n1)" "(k, w) \<in> set (dict_forEach t)"
        using randomEntry_mem [OF assms(1), of rng n] by fastforce
      obtain s d n2 where l: "sampleLoop m rng n1 now t = (s, d, n2)" by (cases "sampleLoop m rng n1 now t")
      have "dict_lookup t k = Some w" using e(2) dict_invarD(6) [OF assms(1)] by (simp add: dict_lookup_def)
      then show ?thesis using Suc.IH [OF l] Suc.prems e(1) l by (auto split: if_splits)
    qed
  qed simp
  then show "\<forall>k \<in> set doomed. \<exists>w \<le> now. dict_lookup t k = Some w" "length doomed \<le> sampled" "sampled \<le> m" by blast+
qed

text \<open>What deleting dead keys may change.\<close>

definition only_dead_removed :: "int \<Rightarrow> Database \<Rightarrow> Database \<Rightarrow> bool" where
  "only_dead_removed now db db' \<longleftrightarrow> db_invar db' \<and>
     (\<exists>ks. (\<forall>k \<in> set ks. dead now db k) \<and>
       db_values db' = (\<lambda>k. if k \<in> set ks then None else db_values db k) \<and>
       db_ttls db' = (\<lambda>k. if k \<in> set ks then None else db_ttls db k) \<and>
       db_on_expired db' = db_on_expired db \<and>
       db_events db' = db_events db @ (if db_on_expired db then map Expired ks else []))"

lemma only_dead_removed_refl: "db_invar db \<Longrightarrow> only_dead_removed now db db"
  unfolding only_dead_removed_def by (intro conjI exI [of _ "[]"]) auto

lemma only_dead_removed_trans:
  assumes "only_dead_removed now db db1" and "only_dead_removed now db1 db2"
  shows "only_dead_removed now db db2"
proof -
  obtain ks where k: "\<forall>k \<in> set ks. dead now db k" "db_values db1 = (\<lambda>k. if k \<in> set ks then None else db_values db k)"
    "db_ttls db1 = (\<lambda>k. if k \<in> set ks then None else db_ttls db k)" "db_on_expired db1 = db_on_expired db"
    "db_events db1 = db_events db @ (if db_on_expired db then map Expired ks else [])"
    using assms(1) by (auto simp: only_dead_removed_def)
  obtain ls where l: "db_invar db2" "\<forall>k \<in> set ls. dead now db1 k" "db_values db2 = (\<lambda>k. if k \<in> set ls then None else db_values db1 k)"
    "db_ttls db2 = (\<lambda>k. if k \<in> set ls then None else db_ttls db1 k)" "db_on_expired db2 = db_on_expired db1"
    "db_events db2 = db_events db1 @ (if db_on_expired db1 then map Expired ls else [])"
    using assms(2) by (auto simp: only_dead_removed_def)
  have "\<forall>k \<in> set (ks @ ls). dead now db k" using k(1,3) l(2) by (auto simp: dead_def split: if_splits)
  then show ?thesis unfolding only_dead_removed_def using k l by (intro conjI exI [of _ "ks @ ls"]) auto
qed

lemma expireKeys_dead:
  assumes "db_invar db" and "\<forall>k \<in> set ks. dead now db k"
  shows "only_dead_removed now db (fold expireKey ks db)"
proof -
  have "db_invar (fold expireKey ks db) \<and> db_values (fold expireKey ks db) = (\<lambda>k. if k \<in> set ks then None else db_values db k) \<and>
       db_ttls (fold expireKey ks db) = (\<lambda>k. if k \<in> set ks then None else db_ttls db k) \<and>
       db_on_expired (fold expireKey ks db) = db_on_expired db \<and>
       db_events (fold expireKey ks db) = db_events db @ (if db_on_expired db then map Expired ks else [])"
    using assms(1)
  proof (induction ks arbitrary: db)
    case (Cons k ks)
    note x = expireKey_props [OF Cons.prems, of k]
    from Cons.IH [OF x(1)] show ?case by (auto simp: x fun_eq_iff)
  qed simp
  then show ?thesis using assms(2) unfolding only_dead_removed_def by blast
qed

lemma expireLoop_dead:
  assumes "db_invar db" and "expireLoop m rng n now tot db = (tot', n', db')"
  shows "only_dead_removed now db db'"
  using assms
proof (induction m arbitrary: n tot db)
  case (Suc m)
  show ?case
  proof (cases "dict_size (db_expires db) = 0")
    case True
    then show ?thesis using Suc.prems only_dead_removed_refl by simp
  next
    case False
    obtain sampled doomed n1 where s: "sampleLoop (min (dict_size (db_expires db)) kActiveExpireSampleSize) rng n now (db_expires db) = (sampled, doomed, n1)"
      by (metis prod_cases3)
    have t: "dict_invar (db_expires db)" using Suc.prems(1) by (simp add: db_invar_def)
    have "\<forall>k \<in> set doomed. dead now db k"
      using sampleLoop_dead(1) [OF t s] by (auto simp: dead_def db_ttls_def)
    note x = expireKeys_dead [OF Suc.prems(1) this]
    let ?db = "fold expireKey doomed db"
    have i: "db_invar ?db" using x by (simp add: only_dead_removed_def)
    have "db' = ?db \<or> expireLoop m rng n1 now (tot + length doomed) ?db = (tot', n', db')"
      using Suc.prems(2) False s by (auto simp: Let_def split: if_splits)
    then show ?thesis using x Suc.IH [OF i] only_dead_removed_trans by blast
  qed
qed (simp add: only_dead_removed_refl)

lemma only_dead_removed_view:
  assumes "only_dead_removed now db db'" and "now \<le> later"
  shows "db_view later db' = db_view later db"
proof
  fix k
  obtain ks where "\<forall>k \<in> set ks. dead now db k" "db_values db' = (\<lambda>k. if k \<in> set ks then None else db_values db k)"
    "db_ttls db' = (\<lambda>k. if k \<in> set ks then None else db_ttls db k)"
    using assms(1) by (auto simp: only_dead_removed_def)
  then show "db_view later db' k = db_view later db k"
    using assms(2) by (auto simp: db_view_def dead_def split: option.splits)
qed

section \<open>Properties\<close>

text \<open>C35: Lazy expiry. A lookup answers with the value a client may see at that time, stamped with the
  time of access, and leaves every other key as it was. On a master a key whose time has passed is
  deleted from both tables and reported once to the callback; on a replica it is only hidden.\<close>

theorem lookup_expires:
  assumes "db_invar db" and "lookupRead key now db = (r, db')"
  shows "r = map_option (v_touch now) (db_view now db key) \<and> db_invar db' \<and>
    (\<forall>k. k \<noteq> key \<longrightarrow> db_values db' k = db_values db k \<and> db_ttls db' k = db_ttls db k) \<and>
    (if dead now db key then
       if db_expiration_enabled db then
         db_values db' key = None \<and> db_ttls db' key = None \<and>
         db_events db' = db_events db @ (if db_on_expired db then [Expired key] else [])
       else db_values db' = db_values db \<and> db_ttls db' = db_ttls db \<and> db_events db' = db_events db
     else db_values db' key = r \<and> db_ttls db' = db_ttls db \<and> db_events db' = db_events db)"
  using lookupRead_props [OF assms] by (auto simp: db_view_def)

definition db_sample :: Database where
  "db_sample = setExpireAt (str ''k'') 50 (setKey (str ''k'') (makeInt 7) (setExpiredKeyCallback (db_new 0)))"

lemma db_sample_props:
  "db_invar db_sample" "db_values db_sample = [str ''k'' \<mapsto> makeInt 7]" "db_ttls db_sample = [str ''k'' \<mapsto> 50]"
proof -
  have n: "db_invar (setExpiredKeyCallback (db_new 0))" "db_values (setExpiredKeyCallback (db_new 0)) = Map.empty"
    "db_ttls (setExpiredKeyCallback (db_new 0)) = Map.empty"
    using db_invar_new by (simp_all add: setExpiredKeyCallback_def db_invar_def db_values_def db_ttls_def)
  note k = db_writes(1) [OF n(1), of "str ''k''" "makeInt 7"]
  show "db_invar db_sample" "db_values db_sample = [str ''k'' \<mapsto> makeInt 7]" "db_ttls db_sample = [str ''k'' \<mapsto> 50]"
    using db_writes(3) [OF conjunct1 [OF k], of "str ''k''" 50] k n by (simp_all add: db_sample_def)
qed

theorem lookup_expires_witness:
  "fst (lookupRead (str ''k'') 49 db_sample) = Some (v_touch 49 (makeInt 7)) \<and> fst (lookupRead (str ''k'') 50 db_sample) = None"
proof -
  obtain r db' where a: "lookupRead (str ''k'') 49 db_sample = (r, db')" by (metis surj_pair)
  obtain q db2 where b: "lookupRead (str ''k'') 50 db_sample = (q, db2)" by (metis surj_pair)
  have "r = Some (v_touch 49 (makeInt 7))" "q = None"
    using lookup_expires [OF db_sample_props(1) a] lookup_expires [OF db_sample_props(1) b]
    by (simp_all add: db_view_def dead_def db_sample_props)
  then show ?thesis using a b by simp
qed

text \<open>C36: The active cycle, whatever keys the generator draws, deletes only keys whose time has passed,
  together with their expiry, and reports only deleted keys; what clients can see at that
  time or later does not change. A replica deletes nothing.\<close>

theorem active_expire_safe:
  assumes "db_invar db" and "activeExpireCycle rng n now db = (deleted, n', db')" and "now \<le> later"
  shows "db_invar db' \<and> db_view later db' = db_view later db \<and>
    (\<exists>ks. (\<forall>k \<in> set ks. dead now db k) \<and>
      db_values db' = (\<lambda>k. if k \<in> set ks then None else db_values db k) \<and>
      db_ttls db' = (\<lambda>k. if k \<in> set ks then None else db_ttls db k) \<and>
      db_events db' = db_events db @ (if db_on_expired db then map Expired ks else [])) \<and>
    (\<not> db_expiration_enabled db \<longrightarrow> db' = db \<and> deleted = 0)"
proof -
  have r: "only_dead_removed now db db'"
    using assms(2) only_dead_removed_refl [OF assms(1)] expireLoop_dead [OF assms(1)]
    by (auto simp: activeExpireCycle_def split: if_splits)
  have "\<not> db_expiration_enabled db \<longrightarrow> db' = db \<and> deleted = 0" using assms(2) by (auto simp: activeExpireCycle_def)
  with r only_dead_removed_view [OF r assms(3)] show ?thesis by (auto simp: only_dead_removed_def)
qed

theorem active_expire_safe_witness:
  "db_view 100 (snd (snd (activeExpireCycle (\<lambda>_. 0) 0 60 db_sample))) = db_view 100 db_sample"
proof -
  obtain d n db' where a: "activeExpireCycle (\<lambda>_. 0) 0 60 db_sample = (d, n, db')" by (metis prod_cases3)
  from active_expire_safe [OF db_sample_props(1) a, of 100] show ?thesis by (simp add: a)
qed

text \<open>The sample is drawn with replacement: a key that is drawn twice is counted and reported twice.
  Here one key has expired, and the cycle answers that it deleted two.\<close>

definition db_pair :: Database where
  "db_pair = setExpireAt (str ''b'') 500 (setExpireAt (str ''a'') 50 (setKey (str ''b'') (makeInt 2)
     (setKey (str ''a'') (makeInt 1) (setExpiredKeyCallback (db_new 0)))))"

lemma active_expire_counts_twice:
  "case activeExpireCycle (\<lambda>_. 2) 0 60 db_pair of (deleted, _, db') \<Rightarrow>
     deleted = 2 \<and> db_keys db' = [str ''b''] \<and> db_events db' = [Expired (str ''a''), Expired (str ''a'')]"
  by code_simp

text \<open>C37: The writes to a keyspace are updates of two finite maps, of the values and of the expiry times.
  Setting a key clears its expiry, overwriting keeps it, deleting removes both and reports whether
  the key was there, \<open>persist\<close> reports whether there was an expiry. \<open>ttlMs\<close> answers -2 for a key
  that cannot be seen, -1 for one without expiry, and the time left otherwise.\<close>

theorem keyspace_refines_maps:
  assumes "db_invar db" and "db_erase k db = (erased, db1)" and "persist k db = (had, db2)"
    and "ttlMs k now db = (ttl, db3)" and "\<forall>w. db_ttls db k = Some w \<longrightarrow> 0 \<le> w"
  shows "db_invar (setKey k v db) \<and> db_values (setKey k v db) = (db_values db)(k \<mapsto> v) \<and> db_ttls (setKey k v db) = (db_ttls db)(k := None) \<and>
    db_invar (overwriteValue k v db) \<and> db_values (overwriteValue k v db) = (db_values db)(k \<mapsto> v) \<and> db_ttls (overwriteValue k v db) = db_ttls db \<and>
    db_invar (setExpireAt k t db) \<and> db_values (setExpireAt k t db) = db_values db \<and> db_ttls (setExpireAt k t db) = (db_ttls db)(k \<mapsto> t) \<and>
    erased = (db_values db k \<noteq> None) \<and> db_invar db1 \<and> db_values db1 = (db_values db)(k := None) \<and> db_ttls db1 = (db_ttls db)(k := None) \<and>
    had = (db_ttls db k \<noteq> None) \<and> db_invar db2 \<and> db_values db2 = db_values db \<and> db_ttls db2 = (db_ttls db)(k := None) \<and>
    ttl = (if db_view now db k = None then - 2 else case db_ttls db k of None \<Rightarrow> - 1 | Some w \<Rightarrow> w - now)"
  using db_writes [OF assms(1)] db_removals(1) [OF assms(1,2)] db_removals(2) [OF assms(1,3)] ttlMs_props [OF assms(1,4,5)]
  by blast

theorem keyspace_refines_maps_witness: "fst (ttlMs (str ''k'') 20 db_sample) = 30"
proof -
  obtain e db1 where a: "db_erase (str ''k'') db_sample = (e, db1)" by (metis surj_pair)
  obtain h db2 where b: "persist (str ''k'') db_sample = (h, db2)" by (metis surj_pair)
  obtain ttl db3 where c: "ttlMs (str ''k'') 20 db_sample = (ttl, db3)" by (metis surj_pair)
  have "\<forall>w. db_ttls db_sample (str ''k'') = Some w \<longrightarrow> 0 \<le> w" by (simp add: db_sample_props)
  from keyspace_refines_maps [OF db_sample_props(1) a b c this]
  have "ttl = (if db_view 20 db_sample (str ''k'') = None then - 2 else case db_ttls db_sample (str ''k'') of None \<Rightarrow> - 1 | Some w \<Rightarrow> w - 20)"
    by blast
  then show ?thesis using c by (simp add: db_view_def dead_def db_sample_props)
qed

end
