(* ===== verification/Resp_Inline.thy ===== *)
theory Resp_Inline
  imports Double "HOL-Library.Sublist"
begin

text \<open>
  Model of \<open>splitArgs\<close> of \<open>src/net/resp.cpp\<close>, the splitter for commands typed on a line. Its outer loop may fail to
  return, so it is a partial function whose result is an \<open>option\<close>: \<open>None\<close> means that the call never comes
  back, \<open>Some None\<close> that the line is refused for its quotes. The forms in which an argument can be written
  are stated apart from the code, and the splitter is shown to read exactly those.
\<close>

section \<open>Hexadecimal digits\<close>

definition hexDigitToInt :: "byte \<Rightarrow> int" where
  "hexDigitToInt c =
     (if 48 \<le> c \<and> c \<le> 57 then uint c - 48
      else if 97 \<le> c \<and> c \<le> 102 then uint c - 97 + 10
      else if 65 \<le> c \<and> c \<le> 70 then uint c - 65 + 10
      else -1)"

section \<open>Splitting a line\<close>

text \<open>
  \<open>rest\<close> is the line from the index \<open>i\<close> on, and \<open>current\<close> the argument so far. The inner loop ends
  with the argument and the rest of the line, or with \<open>None\<close> for unbalanced quotes.
\<close>

datatype quoting = Plain | InDouble | InSingle

definition escaped :: "byte \<Rightarrow> byte" where
  "escaped c =
     (if c = 110 then 10 else if c = 114 then 13 else if c = 116 then 9
      else if c = 98 then 8 else if c = 97 then 7 else c)"

fun splitToken :: "quoting \<Rightarrow> bytes \<Rightarrow> bytes \<Rightarrow> (bytes \<times> bytes) option" where
  "splitToken InDouble current [] = None"
| "splitToken InDouble current (c # rest) =
     (if c = 92 \<and> length rest > 2 \<and> rest ! 0 = 120 \<and> hexDigitToInt (rest ! 1) \<noteq> -1 \<and> hexDigitToInt (rest ! 2) \<noteq> -1
      then splitToken InDouble
             (current @ [word_of_int (hexDigitToInt (rest ! 1) * 16 + hexDigitToInt (rest ! 2))]) (drop 3 rest)
      else if c = 92 \<and> rest \<noteq> [] then splitToken InDouble (current @ [escaped (hd rest)]) (drop 1 rest)
      else if c = 34 then (if rest \<noteq> [] \<and> \<not> is_space (hd rest) then None else Some (current, rest))
      else splitToken InDouble (current @ [c]) rest)"
| "splitToken InSingle current [] = None"
| "splitToken InSingle current (c # rest) =
     (if c = 92 \<and> rest \<noteq> [] \<and> hd rest = 39 then splitToken InSingle (current @ [39]) (drop 1 rest)
      else if c = 39 then (if rest \<noteq> [] \<and> \<not> is_space (hd rest) then None else Some (current, rest))
      else splitToken InSingle (current @ [c]) rest)"
| "splitToken Plain current [] = Some (current, [])"
| "splitToken Plain current (c # rest) =
     (if c \<in> {32, 10, 13, 9, 0} then Some (current, c # rest)
      else if c = 34 then splitToken InDouble current rest
      else if c = 39 then splitToken InSingle current rest
      else splitToken Plain (current @ [c]) rest)"

partial_function (option) splitArgsLoop :: "bytes list \<Rightarrow> bytes \<Rightarrow> bytes list option option" where
  "splitArgsLoop out line =
     (let rest = dropWhile is_space line in
      if rest = [] then Some (Some out)
      else case splitToken Plain [] rest of
             None \<Rightarrow> Some None
           | Some (current, rest') \<Rightarrow> splitArgsLoop (out @ [current]) rest')"

definition splitArgs :: "bytes \<Rightarrow> bytes list option option" where
  "splitArgs line = splitArgsLoop [] line"

section \<open>What can be written on a line\<close>

text \<open>
  The forms that the splitter is meant to read, stated without it. An argument is a run of bare bytes
  that may end in one quoted part. Between double quotes stand plain bytes, bytes as two
  hexadecimal digits after \<open>\x\<close>, and escapes: \<open>n\<close>, \<open>r\<close>, \<open>t\<close>, \<open>b\<close> and \<open>a\<close> name control characters and every
  other byte stands for itself, \<open>x\<close> too when no two digits follow. Between single quotes only the quote
  itself is escaped. Each form has its text and its value.
\<close>

datatype double_item = DChar byte | DHex byte byte | DEscape byte
datatype single_item = SChar byte | SQuote
datatype quoted = NoQuote | DoubleQuoted "double_item list" | SingleQuoted "single_item list"

fun double_text :: "double_item \<Rightarrow> bytes" where
  "double_text (DChar c) = [c]"
| "double_text (DHex h l) = [92, 120, h, l]"
| "double_text (DEscape c) = [92, c]"

fun double_value :: "double_item \<Rightarrow> byte" where
  "double_value (DChar c) = c"
| "double_value (DHex h l) = of_nat (16 * the (hex_digit h) + the (hex_digit l))"
| "double_value (DEscape c) = (case map_of [(110, 10), (114, 13), (116, 9), (98, 8), (97, 7)] c of Some b \<Rightarrow> b | None \<Rightarrow> c)"

definition two_hex :: "bytes \<Rightarrow> bool" where
  "two_hex s \<longleftrightarrow> 2 \<le> length s \<and> hex_digit (s ! 0) \<noteq> None \<and> hex_digit (s ! 1) \<noteq> None"

fun double_ok :: "double_item list \<Rightarrow> bool" where
  "double_ok [] \<longleftrightarrow> True"
| "double_ok (DChar c # ds) \<longleftrightarrow> c \<noteq> 34 \<and> c \<noteq> 92 \<and> double_ok ds"
| "double_ok (DHex h l # ds) \<longleftrightarrow> hex_digit h \<noteq> None \<and> hex_digit l \<noteq> None \<and> double_ok ds"
| "double_ok (DEscape c # ds) \<longleftrightarrow> (c = 120 \<longrightarrow> \<not> two_hex (concat (map double_text ds))) \<and> double_ok ds"

fun single_text :: "single_item \<Rightarrow> bytes" where
  "single_text (SChar c) = [c]"
| "single_text SQuote = [92, 39]"

fun single_value :: "single_item \<Rightarrow> byte" where
  "single_value (SChar c) = c"
| "single_value SQuote = 39"

fun single_ok :: "single_item list \<Rightarrow> bool" where
  "single_ok [] \<longleftrightarrow> True"
| "single_ok (SChar c # ss) \<longleftrightarrow> c \<noteq> 39 \<and> (c = 92 \<longrightarrow> ss \<noteq> []) \<and> single_ok ss"
| "single_ok (SQuote # ss) \<longleftrightarrow> single_ok ss"

fun quoted_text :: "quoted \<Rightarrow> bytes" where
  "quoted_text NoQuote = []"
| "quoted_text (DoubleQuoted ds) = 34 # concat (map double_text ds) @ [34]"
| "quoted_text (SingleQuoted ss) = 39 # concat (map single_text ss) @ [39]"

fun quoted_value :: "quoted \<Rightarrow> bytes" where
  "quoted_value NoQuote = []"
| "quoted_value (DoubleQuoted ds) = map double_value ds"
| "quoted_value (SingleQuoted ss) = map single_value ss"

fun quoted_ok :: "quoted \<Rightarrow> bool" where
  "quoted_ok NoQuote \<longleftrightarrow> True"
| "quoted_ok (DoubleQuoted ds) \<longleftrightarrow> double_ok ds"
| "quoted_ok (SingleQuoted ss) \<longleftrightarrow> single_ok ss"

type_synonym argument = "bytes \<times> quoted"

definition arg_text :: "argument \<Rightarrow> bytes" where
  "arg_text a = fst a @ quoted_text (snd a)"

definition arg_value :: "argument \<Rightarrow> bytes" where
  "arg_value a = fst a @ quoted_value (snd a)"

text \<open>Bare bytes are all but the blanks that end an argument, NUL and the quotes. An argument without a
  quoted part ends at the end of the line, at such a blank or at a NUL; one with a quoted part ends
  at the end of the line or at any blank.\<close>

definition bare :: "bytes \<Rightarrow> bool" where
  "bare w \<longleftrightarrow> set w \<inter> {32, 10, 13, 9, 0, 34, 39} = {}"

definition arg_ok :: "argument \<Rightarrow> bool" where
  "arg_ok a \<longleftrightarrow> bare (fst a) \<and> quoted_ok (snd a)"

definition ends_at :: "argument \<Rightarrow> bytes \<Rightarrow> bool" where
  "ends_at a rest \<longleftrightarrow> rest = [] \<or> (if snd a = NoQuote then hd rest \<in> {32, 10, 13, 9, 0} else is_space (hd rest))"

text \<open>Arguments with the blanks that follow them.\<close>

abbreviation items_text :: "(argument \<times> bytes) list \<Rightarrow> bytes" where
  "items_text its \<equiv> concat (map (\<lambda>(a, sep). arg_text a @ sep) its)"

abbreviation items_value :: "(argument \<times> bytes) list \<Rightarrow> bytes list" where
  "items_value its \<equiv> map (\<lambda>(a, sep). arg_value a) its"

fun items_ok :: "(argument \<times> bytes) list \<Rightarrow> bytes \<Rightarrow> bool" where
  "items_ok [] rest \<longleftrightarrow> True"
| "items_ok ((a, sep) # its) rest \<longleftrightarrow>
     arg_ok a \<and> arg_text a \<noteq> [] \<and> \<not> is_space (hd (arg_text a)) \<and> list_all is_space sep \<and>
     ends_at a (sep @ items_text its @ rest) \<and> items_ok its rest"

lemma hexDigitToInt_hex_digit: "hexDigitToInt c = (case hex_digit c of None \<Rightarrow> -1 | Some n \<Rightarrow> int n)"
proof -
  define n where "n = unat c"
  have c: "c \<le> k \<longleftrightarrow> n \<le> unat k" "k \<le> c \<longleftrightarrow> unat k \<le> n" for k by (simp_all only: n_def word_le_nat_alt)
  have u: "uint c = int n" by (simp only: n_def uint_nat)
  have l: "unat (c + 32) = n + 32" if "n \<le> 90" using that by (simp add: n_def unat_word_ariths)
  have t: "unat (tolower c) = (if 65 \<le> n \<and> n \<le> 90 then n + 32 else n)"
    using l by (simp add: tolower_def c n_def [symmetric])
  have "unat (c - 48) = n - 48" if "48 \<le> n" using that by (simp add: n_def unat_sub word_le_nat_alt)
  then have h: "hex_digit c = (if 48 \<le> n \<and> n \<le> 57 then Some (n - 48)
      else if 97 \<le> unat (tolower c) \<and> unat (tolower c) \<le> 102 then Some (unat (tolower c) - 87) else None)"
    by (simp add: hex_digit_def is_digit_def digit_val_def c n_def [symmetric] word_le_nat_alt [of _ "tolower c"] word_le_nat_alt [of "tolower c"])
  show ?thesis unfolding h t by (auto simp: hexDigitToInt_def c u)
qed

text \<open>The steps of the inner loop inside double quotes.\<close>

lemma split_double:
  "splitToken InDouble cur (34 # s) = (if s = [] \<or> is_space (hd s) then Some (cur, s) else None)"
  "splitToken InDouble cur [92] = None"
  "c \<noteq> 34 \<Longrightarrow> c \<noteq> 92 \<Longrightarrow> splitToken InDouble cur (c # s) = splitToken InDouble (cur @ [c]) s"
  by simp_all

lemma split_double_hex:
  assumes "hex_digit h \<noteq> None" and "hex_digit l \<noteq> None"
  shows "splitToken InDouble cur (92 # 120 # h # l # s) = splitToken InDouble (cur @ [double_value (DHex h l)]) s"
proof -
  obtain a b where ab: "hex_digit h = Some a" "hex_digit l = Some b" using assms by blast
  have "int a * 16 + int b = int (16 * a + b)" by simp
  then have "word_of_int (int a * 16 + int b) = double_value (DHex h l)" by (simp only: double_value.simps ab option.sel of_int_of_nat_eq)
  moreover have "hexDigitToInt h = int a" "hexDigitToInt l = int b" by (simp_all add: hexDigitToInt_hex_digit ab)
  ultimately show ?thesis unfolding splitToken.simps(2) [of cur 92] by simp
qed

lemma split_double_escape:
  assumes "\<not> (c = 120 \<and> two_hex s)"
  shows "splitToken InDouble cur (92 # c # s) = splitToken InDouble (cur @ [double_value (DEscape c)]) s"
proof -
  have h: "hexDigitToInt b \<noteq> -1 \<longleftrightarrow> hex_digit b \<noteq> None" for b by (simp add: hexDigitToInt_hex_digit split: option.split)
  have "\<not> (92 = (92 :: byte) \<and> length (c # s) > 2 \<and> (c # s) ! 0 = 120 \<and> hexDigitToInt ((c # s) ! 1) \<noteq> -1 \<and> hexDigitToInt ((c # s) ! 2) \<noteq> -1)"
    using assms by (auto simp: two_hex_def h)
  then show ?thesis unfolding splitToken.simps(2) by (simp only: if_False) (simp add: escaped_def)
qed

lemma two_hex_append: "r = [] \<or> hex_digit (hd r) = None \<Longrightarrow> two_hex (x @ r) \<longleftrightarrow> two_hex x"
  by (cases x rule: remdups_adj.cases; cases r) (auto simp: two_hex_def)

lemma hex_digit_quote [simp]: "hex_digit 34 = None" "hex_digit 92 = None"
  by (simp_all add: hex_digit_def is_digit_def tolower_def)

lemma split_double_items:
  "double_ok ds \<Longrightarrow> r = [] \<or> hex_digit (hd r) = None \<Longrightarrow>
   splitToken InDouble cur (concat (map double_text ds) @ r) = splitToken InDouble (cur @ map double_value ds) r"
proof (induction ds arbitrary: cur rule: double_ok.induct)
  case (3 h l ds)
  then show ?case using split_double_hex [of h l cur "concat (map double_text ds) @ r"]
    by (simp del: splitToken.simps double_value.simps)
next
  case (4 c ds)
  then show ?case using split_double_escape [of c "concat (map double_text ds) @ r" cur] two_hex_append [of r "concat (map double_text ds)"]
    by (simp del: splitToken.simps double_value.simps)
qed (simp_all add: split_double del: splitToken.simps)

text \<open>A text inside double quotes runs over its items to its end, to a lone backslash or to a quote.\<close>

lemma double_items:
  obtains ds r where "double_ok ds" "s = concat (map double_text ds) @ r" "r = [] \<or> r = [92] \<or> (\<exists>rest. r = 34 # rest)"
proof -
  have "\<exists>ds r. double_ok ds \<and> s = concat (map double_text ds) @ r \<and> (r = [] \<or> r = [92] \<or> (\<exists>rest. r = 34 # rest))"
  proof (induction "length s" arbitrary: s rule: less_induct)
    case less
    have ih: ?case
      if "double_text d @ s' = s" "double_text d \<noteq> []"
        "\<And>ds r. s' = concat (map double_text ds) @ r \<Longrightarrow> r = [] \<or> hex_digit (hd r) = None \<Longrightarrow> double_ok ds \<Longrightarrow> double_ok (d # ds)" for d s'
    proof -
      have "length s' < length s" using that(1,2) by (metis length_append length_greater_0_conv less_add_same_cancel2)
      from less.hyps [OF this] obtain ds r where ds: "double_ok ds" "s' = concat (map double_text ds) @ r"
        "r = [] \<or> r = [92] \<or> (\<exists>rest. r = 34 # rest)" by blast
      then have "double_ok (d # ds)" by (intro that(3)) auto
      with ds that(1) show ?thesis by (intro exI [of _ "d # ds"] exI [of _ r]) auto
    qed
    consider "s = [] \<or> s = [92] \<or> (\<exists>s'. s = 34 # s')" | c s' where "s = 92 # c # s'" | c s' where "s = c # s'" "c \<noteq> 34" "c \<noteq> 92"
      by (metis list.exhaust)
    then show ?case
    proof cases
      case 1
      then show ?thesis by (intro exI [of _ "[]"] exI [of _ s]) auto
    next
      case (2 c s')
      show ?thesis
      proof (cases "c = 120 \<and> two_hex s'")
        case True
        then obtain h l s2 where "s' = h # l # s2" "hex_digit h \<noteq> None" "hex_digit l \<noteq> None"
          by (cases s' rule: remdups_adj.cases) (auto simp: two_hex_def)
        with True 2 show ?thesis by (intro ih [of "DHex h l" s2]) simp_all
      next
        case False
        with 2 two_hex_append show ?thesis by (intro ih [of "DEscape c" s']) auto
      qed
    next
      case (3 c s')
      then show ?thesis by (intro ih [of "DChar c" s']) simp_all
    qed
  qed
  then show ?thesis using that by blast
qed

text \<open>The same inside single quotes.\<close>

lemma split_single:
  "splitToken InSingle cur (39 # s) = (if s = [] \<or> is_space (hd s) then Some (cur, s) else None)"
  "splitToken InSingle cur (92 # 39 # s) = splitToken InSingle (cur @ [39]) s"
  "c \<noteq> 39 \<Longrightarrow> \<not> (c = 92 \<and> s \<noteq> [] \<and> hd s = 39) \<Longrightarrow> splitToken InSingle cur (c # s) = splitToken InSingle (cur @ [c]) s"
  by auto

lemma single_texts_hd: "single_ok ss \<Longrightarrow> ss \<noteq> [] \<Longrightarrow> concat (map single_text ss) \<noteq> [] \<and> hd (concat (map single_text ss)) \<noteq> 39"
  by (cases ss rule: single_ok.cases) auto

lemma split_single_items:
  "single_ok ss \<Longrightarrow>
   splitToken InSingle cur (concat (map single_text ss) @ r) = splitToken InSingle (cur @ map single_value ss) r"
proof (induction ss arbitrary: cur rule: single_ok.induct)
  case (2 c ss)
  then show ?case using split_single(3) [of c "concat (map single_text ss) @ r" cur] single_texts_hd [of ss]
    by (auto simp del: splitToken.simps)
qed (simp_all add: split_single del: splitToken.simps)

lemma split_single_backslashes: "set r \<subseteq> {92} \<Longrightarrow> splitToken InSingle cur r = None"
proof (induction r arbitrary: cur)
  case (Cons c r)
  have "c \<noteq> 39" "\<not> (c = 92 \<and> r \<noteq> [] \<and> hd r = 39)" using Cons.prems by (cases r; auto)+
  from split_single(3) [OF this, of cur] Cons show ?case by (simp del: splitToken.simps)
qed simp

lemma single_items:
  obtains ss r where "single_ok ss" "s = concat (map single_text ss) @ r" "set r \<subseteq> {92} \<or> (\<exists>rest. r = 39 # rest)"
proof -
  have "\<exists>ss r. single_ok ss \<and> s = concat (map single_text ss) @ r \<and> (set r \<subseteq> {92} \<or> (\<exists>rest. r = 39 # rest))"
  proof (induction "length s" arbitrary: s rule: less_induct)
    case less
    consider "s = [] \<or> s = [92] \<or> (\<exists>s'. s = 39 # s')" | s' where "s = 92 # 39 # s'"
      | c s' where "s = c # s'" "c \<noteq> 39" "c = 92 \<Longrightarrow> s' \<noteq> [] \<and> hd s' \<noteq> 39"
      by (metis list.exhaust list.sel(1))
    then show ?case
    proof cases
      case 1
      then show ?thesis by (intro exI [of _ "[]"] exI [of _ s]) auto
    next
      case (2 s')
      then obtain ss r where "single_ok ss" "s' = concat (map single_text ss) @ r" "set r \<subseteq> {92} \<or> (\<exists>rest. r = 39 # rest)"
        using less.hyps [of s'] by auto
      with 2 show ?thesis by (intro exI [of _ "SQuote # ss"] exI [of _ r]) auto
    next
      case (3 c s')
      then obtain ss r where ss: "single_ok ss" "s' = concat (map single_text ss) @ r" "set r \<subseteq> {92} \<or> (\<exists>rest. r = 39 # rest)"
        using less.hyps [of s'] by auto
      show ?thesis
      proof (cases "c = 92 \<and> ss = []")
        case True
        with ss 3 have "s' = r" "set r \<subseteq> {92}" by auto
        with 3 True show ?thesis by (intro exI [of _ "[]"] exI [of _ s]) auto
      next
        case False
        with 3 ss show ?thesis by (intro exI [of _ "SChar c # ss"] exI [of _ r]) auto
      qed
    qed
  qed
  then show ?thesis using that by blast
qed

text \<open>The quotes that are refused: one that is never closed, and one whose closing quote is followed by
  another character than a blank. A backslash at the very end escapes nothing.\<close>

inductive refused_quote :: "bytes \<Rightarrow> bool" where
  open_double: "bare w \<Longrightarrow> double_ok ds \<Longrightarrow> e = [] \<or> e = [92] \<Longrightarrow> refused_quote (w @ 34 # concat (map double_text ds) @ e)"
| glued_double: "bare w \<Longrightarrow> double_ok ds \<Longrightarrow> \<not> is_space c \<Longrightarrow> refused_quote (w @ 34 # concat (map double_text ds) @ 34 # c # rest)"
| open_single: "bare w \<Longrightarrow> single_ok ss \<Longrightarrow> set e \<subseteq> {92} \<Longrightarrow> refused_quote (w @ 39 # concat (map single_text ss) @ e)"
| glued_single: "bare w \<Longrightarrow> single_ok ss \<Longrightarrow> \<not> is_space c \<Longrightarrow> refused_quote (w @ 39 # concat (map single_text ss) @ 39 # c # rest)"

lemma splitToken_bare:
  assumes "bare w"
  shows "splitToken Plain cur (w @ 34 # s) = splitToken InDouble (cur @ w) s"
    and "splitToken Plain cur (w @ 39 # s) = splitToken InSingle (cur @ w) s"
    and "s = [] \<or> hd s \<in> {32, 10, 13, 9, 0} \<Longrightarrow> splitToken Plain cur (w @ s) = Some (cur @ w, s)"
proof -
  have w: "splitToken Plain cur (w @ s) = splitToken Plain (cur @ w) s" for s
    using assms by (induction w arbitrary: cur) (auto simp: bare_def)
  then show "splitToken Plain cur (w @ 34 # s) = splitToken InDouble (cur @ w) s"
    "splitToken Plain cur (w @ 39 # s) = splitToken InSingle (cur @ w) s" by simp_all
  show "s = [] \<or> hd s \<in> {32, 10, 13, 9, 0} \<Longrightarrow> splitToken Plain cur (w @ s) = Some (cur @ w, s)"
    unfolding w by (cases s) auto
qed

lemma refused_quote_None: "refused_quote s \<Longrightarrow> splitToken Plain cur s = None"
proof (induction rule: refused_quote.induct)
  case (open_double w ds e)
  then show ?case using split_double_items [of ds e "cur @ w"] by (auto simp: splitToken_bare)
next
  case (glued_double w ds c rest)
  then show ?case using split_double_items [of ds "34 # c # rest" "cur @ w"] by (simp add: splitToken_bare)
next
  case (open_single w ss e)
  then show ?case using split_single_items [of ss "cur @ w" e] by (simp add: splitToken_bare split_single_backslashes)
next
  case (glued_single w ss c rest)
  then show ?case using split_single_items [of ss "cur @ w" "39 # c # rest"] by (simp add: splitToken_bare)
qed

text \<open>An argument, from its first byte on.\<close>

lemma splitToken_arg:
  assumes "arg_ok a" and "ends_at a rest"
  shows "splitToken Plain [] (arg_text a @ rest) = Some (arg_value a, rest)"
proof (cases "snd a")
  case NoQuote
  then show ?thesis using assms splitToken_bare(3) [of "fst a" rest "[]"]
    by (simp add: arg_ok_def ends_at_def arg_text_def arg_value_def)
next
  case (DoubleQuoted ds)
  then show ?thesis using assms splitToken_bare(1) [of "fst a"] split_double_items [of ds "34 # rest" "fst a"]
    by (auto simp: arg_ok_def ends_at_def arg_text_def arg_value_def)
next
  case (SingleQuoted ss)
  then show ?thesis using assms splitToken_bare(2) [of "fst a"] split_single_items [of ss "fst a" "39 # rest"]
    by (auto simp: arg_ok_def ends_at_def arg_text_def arg_value_def)
qed

lemma arg_or_refused:
  obtains a rest where "arg_ok a" "s = arg_text a @ rest" "ends_at a rest" | "refused_quote s"
proof -
  let ?p = "\<lambda>c. c \<notin> {32, 10, 13, 9, 0, 34, 39}"
  define w r where "w = takeWhile ?p s" and "r = dropWhile ?p s"
  have w: "bare w" unfolding w_def bare_def by (auto dest: set_takeWhileD)
  have s: "s = w @ r" by (simp add: w_def r_def)
  have h: "r \<noteq> [] \<Longrightarrow> hd r \<in> {32, 10, 13, 9, 0, 34, 39}" using hd_dropWhile [of ?p s] unfolding r_def by blast
  consider "r = [] \<or> hd r \<in> {32, 10, 13, 9, 0}" | s' where "r = 34 # s'" | s' where "r = 39 # s'"
    using h by (cases r) auto
  then show ?thesis
  proof cases
    case 1
    show ?thesis by (rule that(1) [of "(w, NoQuote)" r]) (use 1 w s in \<open>simp_all add: arg_ok_def arg_text_def ends_at_def\<close>)
  next
    case (2 s')
    obtain ds q where d: "double_ok ds" "s' = concat (map double_text ds) @ q" "q = [] \<or> q = [92] \<or> (\<exists>rest. q = 34 # rest)"
      by (rule double_items)
    show ?thesis
    proof (cases "\<exists>rest. q = 34 # rest \<and> (rest = [] \<or> is_space (hd rest))")
      case True
      then obtain rest where "q = 34 # rest" "rest = [] \<or> is_space (hd rest)" by blast
      then show ?thesis by (intro that(1) [of "(w, DoubleQuoted ds)" rest]) (use 2 w s d in \<open>simp_all add: arg_ok_def arg_text_def ends_at_def\<close>)
    next
      case False
      with d(3) consider "q = [] \<or> q = [92]" | c rest where "q = 34 # c # rest" "\<not> is_space c" by (metis list.exhaust list.sel(1))
      then have "refused_quote s" unfolding s 2 d(2) by cases (use w d(1) in \<open>auto intro: refused_quote.intros\<close>)
      then show ?thesis by (rule that(2))
    qed
  next
    case (3 s')
    obtain ss q where d: "single_ok ss" "s' = concat (map single_text ss) @ q" "set q \<subseteq> {92} \<or> (\<exists>rest. q = 39 # rest)"
      by (rule single_items)
    show ?thesis
    proof (cases "\<exists>rest. q = 39 # rest \<and> (rest = [] \<or> is_space (hd rest))")
      case True
      then obtain rest where "q = 39 # rest" "rest = [] \<or> is_space (hd rest)" by blast
      then show ?thesis by (intro that(1) [of "(w, SingleQuoted ss)" rest]) (use 3 w s d in \<open>simp_all add: arg_ok_def arg_text_def ends_at_def\<close>)
    next
      case False
      with d(3) consider "set q \<subseteq> {92}" | c rest where "q = 39 # c # rest" "\<not> is_space c" by (metis list.exhaust list.sel(1))
      then have "refused_quote s" unfolding s 3 d(2) by cases (use w d(1) in \<open>auto intro: refused_quote.intros\<close>)
      then show ?thesis by (rule that(2))
    qed
  qed
qed

section \<open>Splitting\<close>

text \<open>At a NUL byte outside quotes the outer loop makes no progress.\<close>

lemma splitArgsLoop_nul: "splitArgsLoop out (0 # rest) = None"
proof (rule ccontr)
  assume "splitArgsLoop out (0 # rest) \<noteq> None"
  then obtain y where "splitArgsLoop out (0 # rest) = Some y" by blast
  then have "(0 # rest :: bytes) = [] \<or> hd (0 # rest) \<noteq> (0 :: byte)"
  proof (rule splitArgsLoop.raw_induct [where P = "\<lambda>out line y. line = [] \<or> hd line \<noteq> 0", rotated])
    fix loop :: "bytes list \<Rightarrow> bytes \<Rightarrow> bytes list option option" and out line y
    assume ih: "\<And>out line y. loop out line = Some y \<Longrightarrow> line = [] \<or> hd line \<noteq> 0"
      and st: "(let rest = dropWhile is_space line in if rest = [] then Some (Some out)
         else case splitToken Plain [] rest of None \<Rightarrow> Some None
              | Some (current, rest') \<Rightarrow> loop (out @ [current]) rest') = Some y"
    show "line = [] \<or> hd line \<noteq> 0"
    proof (rule ccontr)
      assume "\<not> (line = [] \<or> hd line \<noteq> 0)"
      then obtain r where r: "line = 0 # r" by (cases line) auto
      have "loop (out @ [[]]) line = Some y" using st by (simp add: r is_space_def)
      with ih r show False by fastforce
    qed
  qed
  then show False by simp
qed

text \<open>The blanks in front, the arguments with the blanks after them, and the rest of the line.\<close>

definition written :: "bytes \<Rightarrow> (argument \<times> bytes) list \<Rightarrow> bytes \<Rightarrow> bytes \<Rightarrow> bool" where
  "written lead its rest line \<longleftrightarrow> line = lead @ items_text its @ rest \<and> list_all is_space lead \<and> items_ok its rest"

lemma dropWhile_lead: "list_all is_space lead \<Longrightarrow> dropWhile is_space (lead @ s) = dropWhile is_space s"
  by (induction lead) auto

lemma splitArgsLoop_lead: "list_all is_space lead \<Longrightarrow> splitArgsLoop out (lead @ s) = splitArgsLoop out s"
  by (subst (1 2) splitArgsLoop.simps) (simp add: dropWhile_lead)

lemma splitArgsLoop_written:
  "written lead its rest line \<Longrightarrow> splitArgsLoop out line = splitArgsLoop (out @ items_value its) rest"
proof (induction its arbitrary: lead line out)
  case Nil
  then show ?case by (simp add: written_def splitArgsLoop_lead)
next
  case (Cons x its)
  obtain a sep where x: "x = (a, sep)" by (metis surj_pair)
  note w = Cons.prems [unfolded written_def x items_ok.simps]
  let ?s = "sep @ items_text its @ rest"
  have "dropWhile is_space (arg_text a @ ?s) = arg_text a @ ?s" using w by (cases "arg_text a") auto
  moreover have "splitToken Plain [] (arg_text a @ ?s) = Some (arg_value a, ?s)" using w by (simp add: splitToken_arg)
  ultimately have "splitArgsLoop out (arg_text a @ ?s) = splitArgsLoop (out @ [arg_value a]) ?s"
    using w by (subst splitArgsLoop.simps) simp
  moreover have "splitArgsLoop out line = splitArgsLoop out (arg_text a @ ?s)" using w by (simp add: splitArgsLoop_lead)
  moreover have "splitArgsLoop (out @ [arg_value a]) ?s = splitArgsLoop ((out @ [arg_value a]) @ items_value its) rest"
    by (rule Cons.IH [of sep]) (use w in \<open>simp add: written_def\<close>)
  ultimately show ?case by (simp add: x)
qed

text \<open>Every line is written in this way, up to its end, up to a NUL byte or up to a quote that is refused.\<close>

definition stuck_at :: "bytes \<Rightarrow> bool" where
  "stuck_at rest \<longleftrightarrow> rest \<noteq> [] \<and> \<not> is_space (hd rest) \<and> refused_quote rest"

lemma line_written:
  obtains lead its where "written lead its [] line" | lead its r where "written lead its (0 # r) line"
    | lead its rest where "written lead its rest line" "stuck_at rest"
proof -
  have "\<exists>lead its rest. written lead its rest line \<and> (rest = [] \<or> (\<exists>r. rest = 0 # r) \<or> stuck_at rest)"
  proof (induction "length line" arbitrary: line rule: less_induct)
    case less
    let ?lead = "takeWhile is_space line" and ?s = "dropWhile is_space line"
    have l: "list_all is_space ?lead" by (auto simp: list_all_iff dest: set_takeWhileD)
    have w: "written ?lead [] ?s line" using l by (simp add: written_def)
    have ns: "?s \<noteq> [] \<Longrightarrow> \<not> is_space (hd ?s)" by (rule hd_dropWhile)
    show ?case
    proof (cases "?s = [] \<or> (\<exists>r. ?s = 0 # r) \<or> refused_quote ?s")
      case True
      with ns have "?s = [] \<or> (\<exists>r. ?s = 0 # r) \<or> stuck_at ?s" unfolding stuck_at_def by blast
      with w show ?thesis by blast
    next
      case False
      from arg_or_refused [of ?s] False obtain a s where a: "arg_ok a" "?s = arg_text a @ s" "ends_at a s" by metis
      have ne: "arg_text a \<noteq> []"
      proof
        assume e: "arg_text a = []"
        then have "snd a = NoQuote" by (cases "snd a") (auto simp: arg_text_def)
        with a(2,3) e False have "hd ?s \<in> {32, 10, 13, 9, 0}" by (simp add: ends_at_def)
        moreover have "hd ?s \<noteq> 0" using False by (metis list.collapse)
        ultimately show False using ns False by (auto simp: is_space_def)
      qed
      have "length ?s = length (arg_text a) + length s" using a(2) by simp
      then have "length s < length line" using ne length_dropWhile_le [of is_space line] by (cases "arg_text a") auto
      from less.hyps [OF this] obtain sep its rest where r: "written sep its rest s"
        "rest = [] \<or> (\<exists>r. rest = 0 # r) \<or> stuck_at rest" by blast
      have "line = ?lead @ arg_text a @ s" using a(2) by (metis takeWhile_dropWhile_id)
      moreover have "\<not> is_space (hd (arg_text a))" using ns False a(2) ne by simp
      ultimately have "written ?lead ((a, sep) # its) rest line" using r(1) l a ne by (simp add: written_def)
      with r(2) show ?thesis by blast
    qed
  qed
  then show ?thesis using that by blast
qed

lemma splitArgs_written:
  assumes "written lead its rest line"
  shows "rest = [] \<Longrightarrow> splitArgs line = Some (Some (items_value its))"
    and "rest = 0 # r \<Longrightarrow> splitArgs line = None"
    and "stuck_at rest \<Longrightarrow> splitArgs line = Some None"
proof -
  note w = splitArgsLoop_written [OF assms, of "[]"]
  have "splitArgsLoop out [] = Some (Some out)" for out by (subst splitArgsLoop.simps) simp
  with w show "rest = [] \<Longrightarrow> splitArgs line = Some (Some (items_value its))" by (simp add: splitArgs_def)
  show "rest = 0 # r \<Longrightarrow> splitArgs line = None"
    using w splitArgsLoop_nul by (simp add: splitArgs_def)
  assume s: "stuck_at rest"
  then have "dropWhile is_space rest = rest" by (cases rest) (auto simp: stuck_at_def)
  then have "splitArgsLoop out rest = Some None" for out
    using s refused_quote_None [of rest] by (subst splitArgsLoop.simps) (auto simp: stuck_at_def)
  with w show "splitArgs line = Some None" by (simp add: splitArgs_def)
qed

lemma splitArgs_exact:
  "splitArgs line = Some (Some ws) \<longleftrightarrow> (\<exists>lead its. written lead its [] line \<and> ws = items_value its)" (is "_ \<longleftrightarrow> ?A")
  "splitArgs line = None \<longleftrightarrow> (\<exists>lead its r. written lead its (0 # r) line)" (is "_ \<longleftrightarrow> ?B")
  "splitArgs line = Some None \<longleftrightarrow> (\<exists>lead its rest. written lead its rest line \<and> stuck_at rest)" (is "_ \<longleftrightarrow> ?C")
proof -
  have A: "?A \<Longrightarrow> splitArgs line = Some (Some ws)" using splitArgs_written(1) by blast
  have B: "?B \<Longrightarrow> splitArgs line = None" using splitArgs_written(2) by blast
  have C: "?C \<Longrightarrow> splitArgs line = Some None" using splitArgs_written(3) by blast
  have "(splitArgs line = Some (Some ws) \<longrightarrow> ?A) \<and> (splitArgs line = None \<longrightarrow> ?B) \<and> (splitArgs line = Some None \<longrightarrow> ?C)"
  proof (cases line rule: line_written)
    case (1 lead its)
    moreover have "splitArgs line = Some (Some (items_value its))" using splitArgs_written(1) [OF 1] by simp
    ultimately show ?thesis by auto
  next
    case (2 lead its r)
    moreover have "splitArgs line = None" using splitArgs_written(2) [OF 2] by simp
    ultimately show ?thesis by auto
  next
    case (3 lead its rest)
    moreover have "splitArgs line = Some None" using splitArgs_written(3) [OF 3] .
    ultimately show ?thesis by auto
  qed
  with A B C show "splitArgs line = Some (Some ws) \<longleftrightarrow> ?A" "splitArgs line = None \<longleftrightarrow> ?B" "splitArgs line = Some None \<longleftrightarrow> ?C" by blast+
qed

text \<open>The arguments together are no longer than the line.\<close>

lemma double_value_size: "length ds \<le> length (concat (map double_text ds))"
proof (induction ds)
  case (Cons d ds)
  then show ?case by (cases d) auto
qed simp

lemma single_value_size: "length ss \<le> length (concat (map single_text ss))"
proof (induction ss)
  case (Cons d ss)
  then show ?case by (cases d) auto
qed simp

lemma arg_value_size: "length (arg_value a) \<le> length (arg_text a)"
  using double_value_size single_value_size by (cases "snd a") (auto simp: arg_value_def arg_text_def intro: le_SucI)

lemma items_size:
  "items_ok its rest \<Longrightarrow> its \<noteq> [] \<Longrightarrow> (\<Sum>w\<leftarrow>items_value its. length w + 1) \<le> length (items_text its) + 1"
proof (induction its)
  case (Cons x its)
  obtain a sep where x: "x = (a, sep)" by (metis surj_pair)
  show ?case
  proof (cases its)
    case Nil
    then show ?thesis using arg_value_size [of a] by (simp add: x)
  next
    case (Cons y ys)
    obtain b sep' where y: "y = (b, sep')" by (metis surj_pair)
    have "sep \<noteq> []"
    proof
      assume "sep = []"
      then have e: "ends_at a (arg_text b @ sep' @ items_text ys @ rest)" "arg_ok b" "arg_text b \<noteq> []" "\<not> is_space (hd (arg_text b))"
        using Cons.prems by (simp_all add: x Cons y)
      then have "hd (arg_text b) = 0" by (auto simp: ends_at_def is_space_def split: if_splits)
      with e(2,3) show False by (cases b rule: prod.exhaust, cases "fst b"; cases "snd b") (auto simp: arg_text_def arg_ok_def bare_def)
    qed
    moreover have "(\<Sum>w\<leftarrow>items_value its. length w + 1) \<le> length (items_text its) + 1"
      using Cons.IH Cons.prems x \<open>its = y # ys\<close> by simp
    ultimately show ?thesis using arg_value_size [of a] by (cases sep) (simp_all add: x)
  qed
qed simp

lemma splitArgs_size:
  assumes "splitArgs line = Some (Some ws)"
  shows "(\<Sum>w\<leftarrow>ws. length w + 1) \<le> length line + 1"
proof -
  obtain lead its where w: "written lead its [] line" "ws = items_value its" using assms splitArgs_exact(1) by blast
  then show ?thesis using items_size [of its "[]"] by (cases "its = []") (auto simp: written_def)
qed

lemma splitArgs_nul: "splitArgs line = None \<Longrightarrow> 0 \<in> set line"
  by (auto simp: splitArgs_exact(2) written_def)

section \<open>Properties\<close>

text \<open>C23: \<open>splitArgs\<close> reads exactly the lines it is meant to read. It returns a list of arguments exactly when the
  line is a sequence of well-formed arguments with blanks between and around them, and the list
  is their values: bare bytes, bytes between double quotes with hexadecimal and character escapes, bytes
  between single quotes. It refuses exactly the lines that run, after such arguments, into a quote that
  is not closed or whose closing quote is followed by something else than a blank. It fails to return
  exactly when it runs, after such arguments, into a NUL byte outside quotes; so it returns on every line
  without NUL.\<close>

theorem split_args_exact:
  "(splitArgs line = Some (Some ws) \<longleftrightarrow> (\<exists>lead its. written lead its [] line \<and> ws = items_value its)) \<and>
   (splitArgs line = Some None \<longleftrightarrow>
      (\<exists>lead its rest. written lead its rest line \<and> rest \<noteq> [] \<and> \<not> is_space (hd rest) \<and> refused_quote rest)) \<and>
   (splitArgs line = None \<longleftrightarrow> (\<exists>lead its rest. written lead its (0 # rest) line)) \<and>
   (0 \<notin> set line \<longrightarrow> (\<exists>r. splitArgs line = Some r))"
  using splitArgs_exact [of line] splitArgs_nul [of line] unfolding stuck_at_def by blast

theorem split_args_exact_witness:
  "splitArgs (str ''SET  k'' @ [34, 92, 120, 52, 49, 92, 110, 34]) = Some (Some [str ''SET'', str ''kA'' @ [10]]) \<and>
   splitArgs (str ''GET '' @ [39, 107]) = Some None \<and> splitArgs (str ''GET'' @ [0]) = None \<and> (\<exists>r. splitArgs (str ''GET'') = Some r)"
proof -
  let ?its = "[((str ''SET'', NoQuote), [32, 32]), ((str ''k'', DoubleQuoted [DHex 52 49, DEscape 110]), [])]"
  have "written [] ?its [] (str ''SET  k'' @ [34, 92, 120, 52, 49, 92, 110, 34])"
    by (simp add: written_def arg_text_def arg_ok_def bare_def ends_at_def is_space_def hex_digit_def is_digit_def)
  moreover have "items_value ?its = [str ''SET'', str ''kA'' @ [10]]"
    by (simp add: arg_value_def hex_digit_def is_digit_def digit_val_def)
  ultimately have "splitArgs (str ''SET  k'' @ [34, 92, 120, 52, 49, 92, 110, 34]) = Some (Some [str ''SET'', str ''kA'' @ [10]])"
    using split_args_exact [THEN conjunct1, THEN iffD2, of _ "[str ''SET'', str ''kA'' @ [10]]"] by fastforce
  moreover have "written [] [((str ''GET'', NoQuote), [32])] [39, 107] (str ''GET '' @ [39, 107])" "refused_quote [39, 107]"
    using refused_quote.open_single [of "[]" "[SChar 107]" "[]"]
    by (simp_all add: written_def arg_text_def arg_ok_def bare_def ends_at_def is_space_def)
  then have "splitArgs (str ''GET '' @ [39, 107]) = Some None"
    using split_args_exact [THEN conjunct2, THEN conjunct1] by (fastforce simp: is_space_def)
  moreover have "written [] [((str ''GET'', NoQuote), [])] [0] (str ''GET'' @ [0])"
    by (simp add: written_def arg_text_def arg_ok_def bare_def ends_at_def is_space_def)
  then have "splitArgs (str ''GET'' @ [0]) = None"
    using split_args_exact [THEN conjunct2, THEN conjunct2, THEN conjunct1] by fast
  moreover have "\<exists>r. splitArgs (str ''GET'') = Some r"
    using split_args_exact [of "str ''GET''" "[]", THEN conjunct2, THEN conjunct2, THEN conjunct2] by simp
  ultimately show ?thesis by blast
qed

end
