(* ===== verification/Resp_Request.thy ===== *)
theory Resp_Request
  imports Resp_Inline
begin

text \<open>
  Model of the request side of \<open>src/net/resp.h\<close> and \<open>resp.cpp\<close>: the incremental parser for
  inbound commands with the state it keeps between calls, and the client's \<open>encodeCommand\<close>. A
  position is an index into the buffer, as in the source; a call returns the status with the new
  position and parser state. The splitter for inline commands may fail to return, so a call of the
  parser has an \<open>option\<close> result whose \<open>None\<close> means that it never comes back.
\<close>

section \<open>Lines and numbers\<close>

definition kMaxMultibulkLength :: int where
  "kMaxMultibulkLength = 1024 * 1024"

definition kMaxBulkLength :: int where
  "kMaxBulkLength = 512 * 1024 * 1024"

definition kMaxInlineRequest :: nat where
  "kMaxInlineRequest = 64 * 1024"

text \<open>\<open>std::from_chars\<close> for \<open>long\<close>: an optional minus sign and digits; the value and the number of
  bytes read, or an error for no digits and for a value out of range.\<close>

definition from_chars :: "bytes \<Rightarrow> (int \<times> nat) option" where
  "from_chars s =
     (let neg = (s \<noteq> [] \<and> hd s = 45);
          ds = takeWhile is_digit (if neg then tl s else s);
          v = (if neg then - int (dec_value 0 ds) else int (dec_value 0 ds))
      in if ds = [] then None
         else if is_int64 v then Some (v, length ds + (if neg then 1 else 0))
         else None)"

definition parseLong :: "bytes \<Rightarrow> int option" where
  "parseLong s =
     (if s = [] then None
      else case from_chars s of
             None \<Rightarrow> None
           | Some (v, n) \<Rightarrow> if n = length s then Some v else None)"

text \<open>\<open>std::string_view::find\<close> of one character and \<open>substr\<close>.\<close>

definition find_from :: "byte \<Rightarrow> bytes \<Rightarrow> nat \<Rightarrow> nat option" where
  "find_from c buf pos =
     (let r = takeWhile (\<lambda>b. b \<noteq> c) (drop pos buf)
      in if pos + length r < length buf then Some (pos + length r) else None)"

definition substr :: "bytes \<Rightarrow> nat \<Rightarrow> nat \<Rightarrow> bytes" where
  "substr buf pos n = take n (drop pos buf)"

definition findCrlf :: "bytes \<Rightarrow> nat \<Rightarrow> nat option" where
  "findCrlf buf pos =
     (case find_from 10 buf pos of
        None \<Rightarrow> None
      | Some nl \<Rightarrow> if nl = pos \<or> buf ! (nl - 1) \<noteq> 13 then None else Some (nl - 1))"

section \<open>The incremental parser\<close>

record RequestParser =
  rp_argv :: "bytes list"
  rp_multibulk_len :: int
  rp_bulk_len :: int

datatype Status = Incomplete | Complete "bytes list" | Error bytes

definition rp_new :: RequestParser where
  "rp_new = \<lparr>rp_argv = [], rp_multibulk_len = 0, rp_bulk_len = -1\<rparr>"

definition rp_reset :: "RequestParser \<Rightarrow> RequestParser" where
  "rp_reset p = p\<lparr>rp_argv := [], rp_multibulk_len := 0, rp_bulk_len := -1\<rparr>"

definition parseInline :: "bytes \<Rightarrow> nat \<Rightarrow> RequestParser \<Rightarrow> (Status \<times> nat \<times> RequestParser) option" where
  "parseInline buf pos p =
     (case find_from 10 buf pos of
        None \<Rightarrow>
          Some (if length buf - pos > kMaxInlineRequest
                then (Error (str ''Protocol error: too big inline request''), pos, p)
                else (Incomplete, pos, p))
      | Some nl \<Rightarrow>
          let line_end = (if nl > pos \<and> buf ! (nl - 1) = 13 then nl - 1 else nl);
              line = substr buf pos (line_end - pos)
          in case splitArgs line of
               None \<Rightarrow> None
             | Some None \<Rightarrow> Some (Error (str ''Protocol error: unbalanced quotes in request''), nl + 1, p)
             | Some (Some parts) \<Rightarrow> Some (Complete parts, nl + 1, rp_reset p))"

text \<open>The two headers; \<open>Inl\<close> is a return from the surrounding function.\<close>

definition multibulkHeader ::
  "bytes \<Rightarrow> nat \<Rightarrow> RequestParser \<Rightarrow> (Status \<times> nat \<times> RequestParser) + (nat \<times> RequestParser)" where
  "multibulkHeader buf pos p =
     (case findCrlf buf pos of
        None \<Rightarrow>
          Inl (if length buf - pos > kMaxInlineRequest
               then (Error (str ''Protocol error: too big mbulk count string''), pos, p)
               else (Incomplete, pos, p))
      | Some cr \<Rightarrow>
          (case parseLong (substr buf (pos + 1) (cr - pos - 1)) of
             None \<Rightarrow> Inl (Error (str ''Protocol error: invalid multibulk length''), pos, p)
           | Some cnt \<Rightarrow>
               if cnt > kMaxMultibulkLength
               then Inl (Error (str ''Protocol error: invalid multibulk length''), pos, p)
               else if cnt \<le> 0 then Inl (Complete [], cr + 2, rp_reset p)
               else Inr (cr + 2, p\<lparr>rp_multibulk_len := cnt, rp_argv := []\<rparr>)))"

definition bulkHeader ::
  "bytes \<Rightarrow> nat \<Rightarrow> RequestParser \<Rightarrow> (Status \<times> nat \<times> RequestParser) + (nat \<times> RequestParser)" where
  "bulkHeader buf pos p =
     (if rp_bulk_len p \<noteq> -1 then Inr (pos, p)
      else case findCrlf buf pos of
        None \<Rightarrow>
          Inl (if length buf - pos > kMaxInlineRequest
               then (Error (str ''Protocol error: too big bulk count string''), pos, p)
               else (Incomplete, pos, p))
      | Some cr \<Rightarrow>
          if buf ! pos \<noteq> 36
          then Inl (Error (str ''Protocol error: expected '' @ [39, 36, 39] @ str '', got '' @ [39, buf ! pos, 39]), pos, p)
          else
            (case parseLong (substr buf (pos + 1) (cr - pos - 1)) of
               None \<Rightarrow> Inl (Error (str ''Protocol error: invalid bulk length''), pos, p)
             | Some len \<Rightarrow>
                 if len < 0 \<or> len > kMaxBulkLength
                 then Inl (Error (str ''Protocol error: invalid bulk length''), pos, p)
                 else Inr (cr + 2, p\<lparr>rp_bulk_len := len\<rparr>)))"

lemma bulkHeader_len: "bulkHeader buf pos p = Inr (pos', p') \<Longrightarrow> rp_multibulk_len p' = rp_multibulk_len p"
  by (auto simp: bulkHeader_def split: if_splits option.splits)

function bulkLoop :: "bytes \<Rightarrow> nat \<Rightarrow> RequestParser \<Rightarrow> Status \<times> nat \<times> RequestParser" where
  "bulkLoop buf pos p =
     (if rp_multibulk_len p \<le> 0 then (Complete (rp_argv p), pos, rp_reset p)
      else case bulkHeader buf pos p of
        Inl r \<Rightarrow> r
      | Inr (pos', p') \<Rightarrow>
          if length buf - pos' < nat (rp_bulk_len p') + 2 then (Incomplete, pos', p')
          else
            bulkLoop buf (pos' + (nat (rp_bulk_len p') + 2))
              (p'\<lparr>rp_argv := rp_argv p' @ [substr buf pos' (nat (rp_bulk_len p'))],
                  rp_bulk_len := -1, rp_multibulk_len := rp_multibulk_len p' - 1\<rparr>))"
  by pat_completeness auto
termination
  by (relation "measure (\<lambda>(buf, pos, p). nat (rp_multibulk_len p))") (auto dest: bulkHeader_len)

declare bulkLoop.simps [simp del]

definition parseMultibulk :: "bytes \<Rightarrow> nat \<Rightarrow> RequestParser \<Rightarrow> Status \<times> nat \<times> RequestParser" where
  "parseMultibulk buf pos p =
     (case if rp_multibulk_len p = 0 then multibulkHeader buf pos p else Inr (pos, p) of
        Inl r \<Rightarrow> r
      | Inr (pos', p') \<Rightarrow> bulkLoop buf pos' p')"

definition rp_parse :: "bytes \<Rightarrow> nat \<Rightarrow> RequestParser \<Rightarrow> (Status \<times> nat \<times> RequestParser) option" where
  "rp_parse buf pos p =
     (if pos \<ge> length buf \<and> rp_multibulk_len p = 0 then Some (Incomplete, pos, p)
      else if rp_multibulk_len p = 0 \<and> buf ! pos \<noteq> 42 then parseInline buf pos p
      else Some (parseMultibulk buf pos p))"

definition encodeCommand :: "bytes list \<Rightarrow> bytes" where
  "encodeCommand argv =
     42 # to_string (int (length argv)) @ [13, 10] @
     concat (map (\<lambda>a. 36 # to_string (int (length a)) @ [13, 10] @ a @ [13, 10]) argv)"

section \<open>Lines\<close>

lemma find_from_bounds: "find_from c buf pos = Some i \<Longrightarrow> pos \<le> i \<and> i < length buf \<and> buf ! i = c"
proof -
  assume a: "find_from c buf pos = Some i"
  let ?r = "takeWhile (\<lambda>b. b \<noteq> c) (drop pos buf)"
  from a have i: "i = pos + length ?r" "i < length buf" by (auto simp: find_from_def Let_def split: if_splits)
  then have "length ?r < length (drop pos buf)" by simp
  then have "drop pos buf ! length ?r = c" using nth_length_takeWhile [of "\<lambda>b. b \<noteq> c" "drop pos buf"] by simp
  with i show ?thesis by simp
qed

lemma find_from_append: "find_from c a pos = Some i \<Longrightarrow> find_from c (a @ b) pos = Some i"
proof -
  assume a: "find_from c a pos = Some i"
  let ?r = "takeWhile (\<lambda>b. b \<noteq> c) (drop pos a)"
  from a have i: "i = pos + length ?r" "i < length a" by (auto simp: find_from_def Let_def split: if_splits)
  then have "length ?r < length (drop pos a)" by simp
  then have "\<exists>x \<in> set (drop pos a). x = c" by (metis (mono_tags, lifting) nat_less_le takeWhile_eq_all_conv)
  then have "takeWhile (\<lambda>b. b \<noteq> c) (drop pos a @ drop (pos - length a) b) = ?r" by auto
  with i show ?thesis by (simp add: find_from_def Let_def)
qed

lemma find_from_line: "c \<notin> set line \<Longrightarrow> find_from c (pre @ line @ c # rest) (length pre) = Some (length pre + length line)"
proof -
  assume "c \<notin> set line"
  then have "takeWhile (\<lambda>b. b \<noteq> c) (line @ c # rest) = line" by (subst takeWhile_append2) auto
  then show ?thesis by (simp add: find_from_def Let_def)
qed

lemma find_from_none: "c \<notin> set (drop pos buf) \<Longrightarrow> find_from c buf pos = None"
proof -
  assume "c \<notin> set (drop pos buf)"
  then have r: "takeWhile (\<lambda>b. b \<noteq> c) (drop pos buf) = drop pos buf" by (auto simp: takeWhile_eq_all_conv)
  show ?thesis unfolding find_from_def r by (simp add: Let_def)
qed

lemma findCrlf_Some:
  "findCrlf buf pos = Some cr \<longleftrightarrow> find_from 10 buf pos = Some (cr + 1) \<and> pos \<noteq> cr + 1 \<and> buf ! cr = 13"
proof (cases "find_from 10 buf pos")
  case (Some nl)
  with find_from_bounds [OF Some] show ?thesis by (cases nl) (auto simp: findCrlf_def)
qed (simp add: findCrlf_def)

lemma findCrlf_bounds:
  "findCrlf buf pos = Some cr \<Longrightarrow> pos \<le> cr \<and> cr + 2 \<le> length buf"
  using find_from_bounds [of 10 buf pos "cr + 1"] by (simp add: findCrlf_Some)

lemma findCrlf_append: "findCrlf a pos = Some cr \<Longrightarrow> findCrlf (a @ b) pos = Some cr"
  using find_from_bounds [of 10 a pos "cr + 1"] find_from_append [of 10 a pos "cr + 1" b]
  by (simp add: findCrlf_Some nth_append)

lemma findCrlf_line:
  assumes "10 \<notin> set line"
  shows "findCrlf (pre @ line @ 13 # 10 # rest) (length pre) = Some (length pre + length line)"
  using find_from_line [of 10 "line @ [13]" pre rest] assms by (simp add: findCrlf_def nth_append)

lemma findCrlf_none: "10 \<notin> set (drop pos buf) \<Longrightarrow> findCrlf buf pos = None"
  by (simp add: findCrlf_def find_from_none)

lemma substr_append: "pos + n \<le> length a \<Longrightarrow> substr (a @ b) pos n = substr a pos n"
  by (simp add: substr_def)

lemma substr_mid: "substr (pre @ mid @ post) (length pre) (length mid) = mid"
  by (simp add: substr_def)

text \<open>A count written by \<open>to_string\<close> is read back and holds no line feed.\<close>

lemma digit_no_lf: "list_all is_digit ds \<Longrightarrow> 10 \<notin> set ds \<and> 45 \<notin> set ds"
  by (auto simp: list_all_iff is_digit_def)

lemma to_string_no_lf: "10 \<notin> set (to_string n)"
  using digit_no_lf [OF nat_digits_digits] by (auto simp: to_string_def)

lemma parseLong_to_string: "is_int64 n \<Longrightarrow> parseLong (to_string n) = Some n"
proof -
  assume n: "is_int64 n"
  have d: "takeWhile is_digit (nat_digits k) = nat_digits k" for k
    by (rule digits_takeWhile [OF nat_digits_digits])
  have h: "hd (nat_digits k) \<noteq> 45" for k using digit_no_lf [OF nat_digits_digits] hd_in_set [OF nat_digits_nonempty] by metis
  show ?thesis
  proof (cases "n < 0")
    case True
    with n show ?thesis by (simp add: parseLong_def from_chars_def to_string_def Let_def d)
  next
    case False
    with n h show ?thesis by (simp add: parseLong_def from_chars_def to_string_def Let_def d)
  qed
qed

section \<open>Parsing in pieces\<close>

lemma bulkHeader_Inr:
  assumes "bulkHeader buf pos p = Inr (pos', p')"
  shows "rp_bulk_len p' \<noteq> -1" "pos \<le> pos'" "pos \<le> length buf \<Longrightarrow> pos' \<le> length buf" "rp_argv p' = rp_argv p"
    "rp_multibulk_len p' = rp_multibulk_len p" "rp_bulk_len p' \<noteq> rp_bulk_len p \<Longrightarrow> 0 \<le> rp_bulk_len p' \<and> rp_bulk_len p' \<le> kMaxBulkLength"
    "p' = p\<lparr>rp_bulk_len := rp_bulk_len p'\<rparr>"
  using assms findCrlf_bounds [of buf pos]
  by (force simp: bulkHeader_def split: if_splits option.splits)+

lemma bulkHeader_Inl:
  assumes "bulkHeader buf pos p = Inl (st, pos', p')"
  shows "pos' = pos" "p' = p" "st \<noteq> Complete argv" "st = Incomplete \<Longrightarrow> length buf - pos' \<le> kMaxInlineRequest"
  using assms by (auto simp: bulkHeader_def split: if_splits option.splits)

lemma bulkHeader_append:
  assumes "bulkHeader a pos p = Inr r" and "pos \<le> length a"
  shows "bulkHeader (a @ b) pos p = Inr r"
proof (cases "rp_bulk_len p = -1")
  case True
  with assms obtain cr where cr: "findCrlf a pos = Some cr" by (auto simp: bulkHeader_def split: option.splits)
  note bnd = findCrlf_bounds [OF cr]
  then have "substr (a @ b) (pos + 1) (cr - pos - 1) = substr a (pos + 1) (cr - pos - 1)" by (intro substr_append) linarith
  moreover have "(a @ b) ! pos = a ! pos" using bnd by (simp add: nth_append)
  ultimately have "bulkHeader (a @ b) pos p = bulkHeader a pos p"
    using cr findCrlf_append [OF cr] by (simp add: bulkHeader_def)
  with assms(1) show ?thesis by simp
qed (use assms in \<open>simp add: bulkHeader_def\<close>)

lemma bulkLoop_pieces:
  "bulkLoop a pos p = (Incomplete, pos1, p1) \<Longrightarrow> pos \<le> length a \<Longrightarrow>
   bulkLoop (a @ b) pos1 p1 = bulkLoop (a @ b) pos p \<and> 0 < rp_multibulk_len p1"
proof (induction a pos p rule: bulkLoop.induct)
  case (1 a pos p)
  show ?case
  proof (cases "rp_multibulk_len p \<le> 0")
    case True
    with 1(2) show ?thesis by (subst (asm) bulkLoop.simps) simp
  next
    case False
    show ?thesis
    proof (cases "bulkHeader a pos p")
      case (Inl r)
      with 1(2) False have "r = (Incomplete, pos1, p1)" by (subst (asm) bulkLoop.simps) simp
      with Inl bulkHeader_Inl [of a pos p Incomplete pos1 p1] False show ?thesis by simp
    next
      case (Inr r)
      obtain pos' p' where r: "r = (pos', p')" by force
      note h = bulkHeader_Inr [OF Inr [unfolded r]]
      have app: "bulkHeader (a @ b) pos p = Inr (pos', p')" using bulkHeader_append Inr 1(3) r by blast
      show ?thesis
      proof (cases "length a - pos' < nat (rp_bulk_len p') + 2")
        case True
        with 1(2) False Inr r have "(pos1, p1) = (pos', p')" by (subst (asm) bulkLoop.simps) simp
        then have e: "pos1 = pos'" "p1 = p'" by simp_all
        have "bulkHeader (a @ b) pos' p' = Inr (pos', p')" using h(1) by (simp add: bulkHeader_def)
        with app False h(5) show ?thesis unfolding e by (subst (1 2) bulkLoop.simps) simp
      next
        case c: False
        let ?q = "p'\<lparr>rp_argv := rp_argv p' @ [substr a pos' (nat (rp_bulk_len p'))],
          rp_bulk_len := -1, rp_multibulk_len := rp_multibulk_len p' - 1\<rparr>"
        let ?pos = "pos' + (nat (rp_bulk_len p') + 2)"
        have s: "bulkLoop a pos p = bulkLoop a ?pos ?q" using False Inr r c by (subst bulkLoop.simps) simp
        have le: "?pos \<le> length a" using c by simp
        have sub: "substr (a @ b) pos' (nat (rp_bulk_len p')) = substr a pos' (nat (rp_bulk_len p'))"
          using le by (intro substr_append) simp
        have "\<not> length (a @ b) - pos' < nat (rp_bulk_len p') + 2" using c unfolding length_append by linarith
        then have "bulkLoop (a @ b) pos p = bulkLoop (a @ b) ?pos ?q"
          using False app sub by (subst bulkLoop.simps) simp
        moreover have "bulkLoop (a @ b) pos1 p1 = bulkLoop (a @ b) ?pos ?q \<and> 0 < rp_multibulk_len p1"
          using 1(1) [OF False Inr r [symmetric] c] 1(2) s le by simp
        ultimately show ?thesis by simp
      qed
    qed
  qed
qed

lemma multibulkHeader_append:
  assumes "multibulkHeader a pos p = Inr (pos', p')" and "pos \<le> length a"
  shows "multibulkHeader (a @ b) pos p = Inr (pos', p')" "pos \<le> pos'" "pos' \<le> length a"
    "0 < rp_multibulk_len p'" "rp_multibulk_len p' \<le> kMaxMultibulkLength" "rp_argv p' = []" "rp_bulk_len p' = rp_bulk_len p"
proof -
  from assms obtain cr where cr: "findCrlf a pos = Some cr" by (auto simp: multibulkHeader_def split: option.splits if_splits)
  note bnd = findCrlf_bounds [OF cr]
  then have "substr (a @ b) (pos + 1) (cr - pos - 1) = substr a (pos + 1) (cr - pos - 1)" by (intro substr_append) linarith
  then show "multibulkHeader (a @ b) pos p = Inr (pos', p')"
    using assms(1) cr findCrlf_append [OF cr] by (simp add: multibulkHeader_def)
  show "pos \<le> pos'" "pos' \<le> length a" "0 < rp_multibulk_len p'" "rp_multibulk_len p' \<le> kMaxMultibulkLength" "rp_argv p' = []"
    "rp_bulk_len p' = rp_bulk_len p"
    using assms cr bnd by (auto simp: multibulkHeader_def split: option.splits if_splits)
qed

lemma multibulkHeader_Inl:
  assumes "multibulkHeader buf pos p = Inl (st, pos', p')"
  shows "pos \<le> pos'" "pos \<le> length buf \<Longrightarrow> pos' \<le> length buf" "st = Incomplete \<Longrightarrow> pos' = pos \<and> p' = p"
    "p' = p \<or> p' = rp_reset p" "st = Complete argv \<Longrightarrow> argv = [] \<and> p' = rp_reset p"
    "st = Incomplete \<Longrightarrow> length buf - pos' \<le> kMaxInlineRequest"
  using assms findCrlf_bounds [of buf pos] by (force simp: multibulkHeader_def split: if_splits option.splits)+

lemma rp_parse_pieces:
  assumes "rp_parse a pos p = Some (Incomplete, pos1, p1)" and "pos \<le> length a"
  shows "rp_parse (a @ b) pos1 p1 = rp_parse (a @ b) pos p"
proof (cases "rp_multibulk_len p = 0 \<and> (pos \<ge> length a \<or> a ! pos \<noteq> 42)")
  case True
  then have "pos1 = pos" "p1 = p" using assms(1)
    by (auto simp: rp_parse_def parseInline_def Let_def split: if_splits option.splits)
  then show ?thesis by simp
next
  case False
  then have m: "parseMultibulk a pos p = (Incomplete, pos1, p1)"
    using assms(1) by (auto simp: rp_parse_def split: if_splits)
  have go: "rp_parse (a @ b) pos' q = Some (parseMultibulk (a @ b) pos' q)"
    if "rp_multibulk_len q \<noteq> 0 \<or> pos' < length a \<and> a ! pos' = 42" for pos' q
    using that by (auto simp: rp_parse_def nth_append)
  have g: "rp_parse (a @ b) pos p = Some (parseMultibulk (a @ b) pos p)" by (rule go) (use False in auto)
  show ?thesis
  proof (cases "rp_multibulk_len p = 0")
    case z: True
    show ?thesis
    proof (cases "multibulkHeader a pos p")
      case (Inl r)
      with m z have "pos1 = pos" "p1 = p" using multibulkHeader_Inl(3) [of a pos p Incomplete pos1 p1]
        by (auto simp: parseMultibulk_def)
      then show ?thesis by simp
    next
      case (Inr r)
      obtain pos' p' where r: "r = (pos', p')" by force
      note h = multibulkHeader_append [OF Inr [unfolded r] assms(2)]
      have "bulkLoop a pos' p' = (Incomplete, pos1, p1)" using m z Inr r by (simp add: parseMultibulk_def)
      then have l: "bulkLoop (a @ b) pos1 p1 = bulkLoop (a @ b) pos' p'" "0 < rp_multibulk_len p1"
        using bulkLoop_pieces h(3) by blast+
      have "parseMultibulk (a @ b) pos1 p1 = parseMultibulk (a @ b) pos p"
        using l z h(1) [of b] by (simp add: parseMultibulk_def)
      with g go [of p1 pos1] l(2) show ?thesis by simp
    qed
  next
    case nz: False
    then have "bulkLoop a pos p = (Incomplete, pos1, p1)" using m by (simp add: parseMultibulk_def)
    then have l: "bulkLoop (a @ b) pos1 p1 = bulkLoop (a @ b) pos p" "0 < rp_multibulk_len p1"
      using bulkLoop_pieces assms(2) by blast+
    then show ?thesis using g go [of p1 pos1] nz by (simp add: parseMultibulk_def)
  qed
qed

section \<open>Bounds\<close>

text \<open>What a connection's parser can hold, whatever bytes arrive: inside a command the arguments read and
  announced, and nothing between commands.\<close>

definition rp_held :: "RequestParser \<Rightarrow> bool" where
  "rp_held p \<longleftrightarrow> 0 \<le> rp_multibulk_len p \<and> int (length (rp_argv p)) + rp_multibulk_len p \<le> kMaxMultibulkLength \<and>
     -1 \<le> rp_bulk_len p \<and> rp_bulk_len p \<le> kMaxBulkLength \<and> (\<forall>a \<in> set (rp_argv p). int (length a) \<le> kMaxBulkLength)"

definition rp_ok :: "RequestParser \<Rightarrow> bool" where
  "rp_ok p \<longleftrightarrow> rp_held p \<and> (rp_multibulk_len p = 0 \<longrightarrow> p = rp_new)"

text \<open>The unread bytes that a waiting call may leave: less than the argument it waits for with its line
  end, or a header line that is not complete.\<close>

definition waits :: "nat \<Rightarrow> RequestParser \<Rightarrow> bool" where
  "waits unread p \<longleftrightarrow> (if rp_bulk_len p = -1 then unread \<le> kMaxInlineRequest else int unread < rp_bulk_len p + 2)"

definition argv_ok :: "bytes list \<Rightarrow> bool" where
  "argv_ok argv \<longleftrightarrow> int (length argv) \<le> kMaxMultibulkLength \<and> (\<forall>a \<in> set argv. int (length a) \<le> kMaxBulkLength)"

lemma rp_reset_new [simp]: "rp_reset p = rp_new"
  by (simp add: rp_reset_def rp_new_def)

lemma rp_ok_new [simp]: "rp_ok rp_new"
  by (simp add: rp_ok_def rp_held_def rp_new_def kMaxMultibulkLength_def kMaxBulkLength_def)

lemma rp_new_bulk: "rp_bulk_len rp_new = -1" "argv_ok []"
  by (simp_all add: rp_new_def argv_ok_def kMaxMultibulkLength_def)

lemma bulkHeader_ok:
  assumes "rp_held p" and "bulkHeader buf pos p = Inr (pos', p')"
  shows "rp_held p'" "0 \<le> rp_bulk_len p'" "rp_bulk_len p' \<le> kMaxBulkLength"
proof -
  note h = bulkHeader_Inr [OF assms(2)]
  have b: "0 \<le> rp_bulk_len p' \<and> rp_bulk_len p' \<le> kMaxBulkLength"
    using h(1,6) assms(1) by (cases "rp_bulk_len p' = rp_bulk_len p") (auto simp: rp_held_def)
  then show "0 \<le> rp_bulk_len p'" "rp_bulk_len p' \<le> kMaxBulkLength" by simp_all
  from b h(4,5) assms(1) show "rp_held p'" by (simp add: rp_held_def)
qed

lemma bulkLoop_ok:
  "bulkLoop buf pos p = (st, pos', p') \<Longrightarrow> rp_held p \<Longrightarrow> pos \<le> length buf \<Longrightarrow>
   rp_ok p' \<and> pos \<le> pos' \<and> pos' \<le> length buf \<and> (st = Incomplete \<longrightarrow> waits (length buf - pos') p') \<and>
   (\<forall>argv. st = Complete argv \<longrightarrow> p' = rp_new \<and> argv_ok argv)"
proof (induction buf pos p rule: bulkLoop.induct)
  case (1 buf pos p)
  show ?case
  proof (cases "rp_multibulk_len p \<le> 0")
    case True
    with 1(2) have "(st, pos', p') = (Complete (rp_argv p), pos, rp_reset p)" by (subst (asm) bulkLoop.simps) simp
    with True 1(3,4) show ?thesis by (simp add: rp_held_def argv_ok_def)
  next
    case False
    show ?thesis
    proof (cases "bulkHeader buf pos p")
      case (Inl r)
      with 1(2) False have r: "bulkHeader buf pos p = Inl (st, pos', p')" by (subst (asm) bulkLoop.simps) simp
      then have "rp_bulk_len p = -1" by (auto simp: bulkHeader_def split: if_splits)
      with bulkHeader_Inl [OF r] 1(3,4) False show ?thesis by (simp add: rp_ok_def waits_def)
    next
      case (Inr r)
      obtain pos1 p1 where r: "r = (pos1, p1)" by force
      note h = bulkHeader_Inr [OF Inr [unfolded r]] and o = bulkHeader_ok [OF 1(3) Inr [unfolded r]]
      show ?thesis
      proof (cases "length buf - pos1 < nat (rp_bulk_len p1) + 2")
        case True
        with 1(2) False Inr r have "(st, pos', p') = (Incomplete, pos1, p1)" by (subst (asm) bulkLoop.simps) simp
        with h(2,3,5) o 1(4) True False show ?thesis by (simp add: rp_ok_def waits_def)
      next
        case c: False
        let ?q = "p1\<lparr>rp_argv := rp_argv p1 @ [substr buf pos1 (nat (rp_bulk_len p1))],
          rp_bulk_len := -1, rp_multibulk_len := rp_multibulk_len p1 - 1\<rparr>"
        let ?pos = "pos1 + (nat (rp_bulk_len p1) + 2)"
        have s: "bulkLoop buf pos p = bulkLoop buf ?pos ?q" using False Inr r c by (subst bulkLoop.simps) simp
        have q: "rp_held ?q" using o h(4,5) False by (auto simp: rp_held_def substr_def kMaxBulkLength_def)
        have "?pos \<le> length buf" using c by simp
        with 1(1) [OF False Inr r [symmetric] c] 1(2) s q h(2) show ?thesis by fastforce
      qed
    qed
  qed
qed

lemma parseMultibulk_ok:
  assumes "rp_ok p" and "pos \<le> length buf" and "parseMultibulk buf pos p = (st, pos', p')"
  shows "rp_ok p' \<and> pos \<le> pos' \<and> pos' \<le> length buf \<and> (st = Incomplete \<longrightarrow> waits (length buf - pos') p') \<and>
   (\<forall>argv. st = Complete argv \<longrightarrow> p' = rp_new \<and> argv_ok argv)"
proof (cases "rp_multibulk_len p = 0")
  case z: True
  then have p: "p = rp_new" using assms(1) by (simp add: rp_ok_def)
  show ?thesis
  proof (cases "multibulkHeader buf pos p")
    case (Inl r)
    with assms(3) z have "multibulkHeader buf pos p = Inl (st, pos', p')" by (simp add: parseMultibulk_def)
    note h = multibulkHeader_Inl [OF this]
    have p': "p' = rp_new" using h(4) p by auto
    have "waits (length buf - pos') p'" if "st = Incomplete" using h(6) [OF that] by (simp add: p' waits_def rp_new_bulk)
    moreover have "argv_ok argv" if "st = Complete argv" for argv using h(5) [OF that] by (simp add: rp_new_bulk)
    ultimately show ?thesis using h(1,2) assms(2) p' by simp
  next
    case (Inr r)
    obtain pos1 p1 where r: "r = (pos1, p1)" by force
    note h = multibulkHeader_append [OF Inr [unfolded r] assms(2)]
    have "rp_held p1" using h assms(1) by (simp add: rp_ok_def rp_held_def)
    moreover have "bulkLoop buf pos1 p1 = (st, pos', p')" using assms(3) z Inr r by (simp add: parseMultibulk_def)
    ultimately show ?thesis using bulkLoop_ok [of buf pos1 p1 st pos' p'] h(2,3) by fastforce
  qed
next
  case False
  with assms have "bulkLoop buf pos p = (st, pos', p')" "rp_held p" by (simp_all add: parseMultibulk_def rp_ok_def)
  then show ?thesis using bulkLoop_ok assms(2) by blast
qed

section \<open>Encoded commands\<close>

abbreviation enc1 :: "bytes \<Rightarrow> bytes" where
  "enc1 a \<equiv> 36 # to_string (int (length a)) @ [13, 10] @ a @ [13, 10]"

lemma small_int64: "n \<le> 1073741824 \<Longrightarrow> is_int64 (int n)"
  by (simp add: is_int64_def)

lemma bulkHeader_enc:
  assumes "rp_bulk_len p = -1" and "int n \<le> kMaxBulkLength"
  shows "bulkHeader (pre @ 36 # to_string (int n) @ 13 # 10 # rest) (length pre) p =
    Inr (length pre + length (to_string (int n)) + 3, p\<lparr>rp_bulk_len := int n\<rparr>)"
proof -
  have "10 \<notin> set (36 # to_string (int n))" using to_string_no_lf by simp
  then have f: "findCrlf (pre @ 36 # to_string (int n) @ 13 # 10 # rest) (length pre) = Some (Suc (length pre + length (to_string (int n))))"
    using findCrlf_line [of "36 # to_string (int n)" pre rest] by simp
  have s: "substr (pre @ 36 # to_string (int n) @ 13 # 10 # rest) (Suc (length pre)) (length (to_string (int n))) = to_string (int n)"
    by (simp add: substr_def)
  have "parseLong (to_string (int n)) = Some (int n)"
    using assms(2) by (intro parseLong_to_string small_int64) (simp add: kMaxBulkLength_def)
  with f s assms show ?thesis by (simp add: bulkHeader_def)
qed

lemma bulkLoop_step:
  assumes "rp_bulk_len p = -1" and "0 < rp_multibulk_len p" and "int (length a) \<le> kMaxBulkLength"
  shows "bulkLoop (pre @ enc1 a @ rest) (length pre) p = bulkLoop (pre @ enc1 a @ rest) (length (pre @ enc1 a))
    (p\<lparr>rp_argv := rp_argv p @ [a], rp_bulk_len := -1, rp_multibulk_len := rp_multibulk_len p - 1\<rparr>)"
proof -
  let ?d = "to_string (int (length a))"
  let ?buf = "pre @ 36 # ?d @ 13 # 10 # a @ 13 # 10 # rest"
  have h: "bulkHeader ?buf (length pre) p = Inr (length pre + length ?d + 3, p\<lparr>rp_bulk_len := int (length a)\<rparr>)"
    using bulkHeader_enc [of p "length a" pre "a @ 13 # 10 # rest"] assms by simp
  have sub: "substr ?buf (length pre + length ?d + 3) (length a) = a"
    using substr_mid [of "pre @ 36 # ?d @ [13, 10]" a "13 # 10 # rest"] by (simp add: eval_nat_numeral)
  have st: "bulkLoop ?buf (length pre) p = bulkLoop ?buf (length pre + length ?d + 3 + (length a + 2))
      (p\<lparr>rp_argv := rp_argv p @ [a], rp_bulk_len := -1, rp_multibulk_len := rp_multibulk_len p - 1\<rparr>)"
    using h sub assms(2) by (subst bulkLoop.simps) simp
  have e: "length pre + length ?d + 3 + (length a + 2) = length (pre @ enc1 a)" "pre @ enc1 a @ rest = ?buf" by simp_all
  show ?thesis unfolding e(2) by (rule st [unfolded e(1)])
qed

lemma bulkLoop_enc:
  "rp_bulk_len p = -1 \<Longrightarrow> rp_multibulk_len p = int (length args) \<Longrightarrow> \<forall>a \<in> set args. int (length a) \<le> kMaxBulkLength \<Longrightarrow>
   bulkLoop (pre @ concat (map enc1 args) @ rest) (length pre) p =
     (Complete (rp_argv p @ args), length pre + length (concat (map enc1 args)), rp_new)"
proof (induction args arbitrary: pre p)
  case Nil
  then show ?case by (subst bulkLoop.simps) simp
next
  case (Cons a args)
  let ?q = "p\<lparr>rp_argv := rp_argv p @ [a], rp_bulk_len := -1, rp_multibulk_len := rp_multibulk_len p - 1\<rparr>"
  have "bulkLoop (pre @ enc1 a @ concat (map enc1 args) @ rest) (length pre) p =
      bulkLoop ((pre @ enc1 a) @ concat (map enc1 args) @ rest) (length (pre @ enc1 a)) ?q"
    using bulkLoop_step [of p a pre "concat (map enc1 args) @ rest"] Cons.prems by simp
  also have "\<dots> = (Complete (rp_argv ?q @ args), length (pre @ enc1 a) + length (concat (map enc1 args)), rp_new)"
    using Cons.prems by (intro Cons.IH) simp_all
  finally show ?case by simp
qed

lemma append_cover:
  assumes "\<not> length x < length l" and "x @ y = l @ r"
  obtains x2 where "x = l @ x2" "x2 @ y = r"
proof -
  have "x = take (length l) x @ drop (length l) x" "take (length l) x = l"
    using assms by (simp, metis append_eq_conv_conj append_take_drop_id linorder_not_less take_all_iff take_append)
  then show thesis using that [of "drop (length l) x"] assms(2) by (metis append.assoc same_append_eq)
qed

text \<open>A proper prefix of a header line has no line feed and is short.\<close>

lemma header_prefix:
  assumes "length x < length (c # to_string (int n) @ [13, 10])" and "x @ y = (c # to_string (int n) @ [13, 10]) @ z"
    and "c \<noteq> 10" and "n \<le> 1073741824"
  shows "10 \<notin> set x" "length x \<le> kMaxInlineRequest"
proof -
  let ?l = "c # to_string (int n) @ [13]"
  have "x @ y = ?l @ 10 # z" using assms(2) by simp
  moreover have "length x \<le> length ?l" using assms(1) by simp
  ultimately have "x = take (length x) ?l" by (metis append_eq_append_conv_if append_take_drop_id)
  then have "set x \<subseteq> set ?l" by (metis set_take_subset)
  then show "10 \<notin> set x" using to_string_no_lf assms(3) by auto
  have "n < 10 ^ 10" using assms(4) by simp
  then have "length (to_string (int n)) \<le> 10" using nat_digits_length [of 10 n] by (simp add: to_string_def)
  then show "length x \<le> kMaxInlineRequest" using assms(1) by (simp add: kMaxInlineRequest_def)
qed

lemma bulkLoop_prefix:
  "rp_bulk_len p = -1 \<Longrightarrow> rp_multibulk_len p = int (length args) \<Longrightarrow> \<forall>a \<in> set args. int (length a) \<le> kMaxBulkLength \<Longrightarrow>
   x @ y = concat (map enc1 args) \<Longrightarrow> y \<noteq> [] \<Longrightarrow> \<exists>pos1 p1. bulkLoop (pre @ x) (length pre) p = (Incomplete, pos1, p1)"
proof (induction args arbitrary: pre p x)
  case (Cons a args)
  let ?l = "36 # to_string (int (length a)) @ [13, 10]" and ?rest = "concat (map enc1 args)"
  have n: "length a \<le> 1073741824" using Cons.prems(3) by (simp add: kMaxBulkLength_def)
  have xy: "x @ y = ?l @ (a @ [13, 10]) @ ?rest" using Cons.prems(4) by simp
  show ?case
  proof (cases "length x < length ?l")
    case True
    note h = header_prefix [OF True xy _ n]
    have "findCrlf (pre @ x) (length pre) = None" using h(1) by (intro findCrlf_none) simp
    then show ?thesis using Cons.prems(1,2) h(2) by (subst bulkLoop.simps) (simp add: bulkHeader_def)
  next
    case False
    then obtain x2 where x2: "x = ?l @ x2" "x2 @ y = (a @ [13, 10]) @ ?rest"
      using xy by (rule append_cover)
    have h: "bulkHeader (pre @ x) (length pre) p =
        Inr (length pre + length (to_string (int (length a))) + 3, p\<lparr>rp_bulk_len := int (length a)\<rparr>)"
      using bulkHeader_enc [of p "length a" pre x2] Cons.prems by (simp add: x2(1))
    show ?thesis
    proof (cases "length x2 < length (a @ [13, 10])")
      case True
      then show ?thesis using h Cons.prems(2) by (subst bulkLoop.simps) (simp add: x2(1))
    next
      case False
      then obtain x3 where x3: "x2 = (a @ [13, 10]) @ x3" "x3 @ y = ?rest" using x2(2) by (rule append_cover)
      let ?q = "p\<lparr>rp_argv := rp_argv p @ [a], rp_bulk_len := -1, rp_multibulk_len := rp_multibulk_len p - 1\<rparr>"
      have "bulkLoop (pre @ x) (length pre) p = bulkLoop ((pre @ enc1 a) @ x3) (length (pre @ enc1 a)) ?q"
        using bulkLoop_step [of p a pre x3] Cons.prems by (simp add: x2(1) x3(1))
      then show ?thesis using Cons.IH [of ?q x3 "pre @ enc1 a"] Cons.prems x3(2) by simp
    qed
  qed
qed simp

lemma multibulkHeader_enc:
  assumes "rp_bulk_len p = -1" and "0 < n" and "int n \<le> kMaxMultibulkLength"
  shows "multibulkHeader (42 # to_string (int n) @ 13 # 10 # rest) 0 p =
    Inr (length (to_string (int n)) + 3, p\<lparr>rp_multibulk_len := int n, rp_argv := []\<rparr>)"
proof -
  have "10 \<notin> set (42 # to_string (int n))" using to_string_no_lf by simp
  then have f: "findCrlf (42 # to_string (int n) @ 13 # 10 # rest) 0 = Some (Suc (length (to_string (int n))))"
    using findCrlf_line [of "42 # to_string (int n)" "[]" rest] by simp
  have s: "substr (42 # to_string (int n) @ 13 # 10 # rest) (Suc 0) (length (to_string (int n))) = to_string (int n)"
    by (simp add: substr_def)
  have "parseLong (to_string (int n)) = Some (int n)"
    using assms(3) by (intro parseLong_to_string small_int64) (simp add: kMaxMultibulkLength_def)
  with f s assms show ?thesis by (simp add: multibulkHeader_def)
qed

text \<open>The whole command at once, and every proper prefix of it.\<close>

lemma rp_parse_enc:
  assumes "argv \<noteq> []" and "int (length argv) \<le> kMaxMultibulkLength" and "\<forall>a \<in> set argv. int (length a) \<le> kMaxBulkLength"
  shows "rp_parse (encodeCommand argv @ rest) 0 rp_new = Some (Complete argv, length (encodeCommand argv), rp_new)"
    and "x @ y = encodeCommand argv \<Longrightarrow> y \<noteq> [] \<Longrightarrow> \<exists>pos1 p1. rp_parse x 0 rp_new = Some (Incomplete, pos1, p1)"
proof -
  let ?d = "to_string (int (length argv))" and ?l = "42 # to_string (int (length argv)) @ [13, 10]"
  let ?p = "rp_new\<lparr>rp_multibulk_len := int (length argv), rp_argv := []\<rparr>"
  have new: "rp_bulk_len rp_new = -1" "rp_multibulk_len rp_new = 0" by (simp_all add: rp_new_def)
  have start: "rp_parse (?l @ r) 0 rp_new = Some (bulkLoop (?l @ r) (length ?l) ?p)" for r
    using multibulkHeader_enc [OF new(1) _ assms(2), of r] assms(1) new
    by (simp add: rp_parse_def parseMultibulk_def eval_nat_numeral)
  have enc: "encodeCommand argv = ?l @ concat (map enc1 argv)" by (simp add: encodeCommand_def)
  have "bulkLoop (?l @ concat (map enc1 argv) @ rest) (length ?l) ?p =
      (Complete (rp_argv ?p @ argv), length ?l + length (concat (map enc1 argv)), rp_new)"
    using assms(3) by (intro bulkLoop_enc) (simp_all add: rp_new_def)
  then show "rp_parse (encodeCommand argv @ rest) 0 rp_new = Some (Complete argv, length (encodeCommand argv), rp_new)"
    using start [of "concat (map enc1 argv) @ rest"] unfolding enc by (simp add: rp_new_def)
  assume xy: "x @ y = encodeCommand argv" "y \<noteq> []"
  show "\<exists>pos1 p1. rp_parse x 0 rp_new = Some (Incomplete, pos1, p1)"
  proof (cases "length x < length ?l")
    case True
    have "length argv \<le> 1073741824" using assms(2) by (simp add: kMaxMultibulkLength_def)
    then have h: "10 \<notin> set x" "length x \<le> kMaxInlineRequest"
      using header_prefix [OF True xy(1) [unfolded enc]] by simp_all
    then have f: "findCrlf x 0 = None" "find_from 10 x 0 = None" by (simp_all add: findCrlf_none find_from_none)
    then show ?thesis using h(2) new
      by (simp add: rp_parse_def parseMultibulk_def multibulkHeader_def parseInline_def)
  next
    case False
    then obtain x2 where x2: "x = ?l @ x2" "x2 @ y = concat (map enc1 argv)"
      using xy(1) [unfolded enc] by (rule append_cover)
    have "\<exists>pos1 p1. bulkLoop (?l @ x2) (length ?l) ?p = (Incomplete, pos1, p1)"
      using assms(3) x2(2) xy(2) by (intro bulkLoop_prefix [where args = argv and y = y]) (simp_all add: rp_new_def)
    then show ?thesis using start [of x2] x2(1) by auto
  qed
qed

text \<open>Inline commands: a call that does not return has met a NUL byte on the line.\<close>

lemma parseInline_ok:
  assumes "pos \<le> length buf"
  shows "parseInline buf pos rp_new = None \<Longrightarrow> \<exists>nl. find_from 10 buf pos = Some nl \<and> 0 \<in> set (substr buf pos (nl - pos))"
    and "parseInline buf pos rp_new = Some (st, pos', p') \<Longrightarrow>
      p' = rp_new \<and> pos \<le> pos' \<and> pos' \<le> length buf \<and> (st = Incomplete \<longrightarrow> waits (length buf - pos') p') \<and>
      (\<forall>argv. st = Complete argv \<longrightarrow> (\<Sum>a\<leftarrow>argv. length a + 1) \<le> pos' - pos)"
proof -
  show "\<exists>nl. find_from 10 buf pos = Some nl \<and> 0 \<in> set (substr buf pos (nl - pos))" if n: "parseInline buf pos rp_new = None"
  proof -
    obtain nl where nl: "find_from 10 buf pos = Some nl" using n by (auto simp: parseInline_def split: option.splits)
    define e where "e = (if nl > pos \<and> buf ! (nl - 1) = 13 then nl - 1 else nl)"
    have "splitArgs (substr buf pos (e - pos)) = None"
      using n nl by (auto simp: parseInline_def Let_def e_def split: option.splits)
    then have "0 \<in> set (substr buf pos (e - pos))" by (rule splitArgs_nul)
    moreover have "set (substr buf pos (e - pos)) \<subseteq> set (substr buf pos (nl - pos))"
      unfolding substr_def by (rule set_take_subset_set_take) (auto simp: e_def)
    ultimately show ?thesis using nl by blast
  qed
  assume s: "parseInline buf pos rp_new = Some (st, pos', p')"
  show "p' = rp_new \<and> pos \<le> pos' \<and> pos' \<le> length buf \<and> (st = Incomplete \<longrightarrow> waits (length buf - pos') p') \<and>
      (\<forall>argv. st = Complete argv \<longrightarrow> (\<Sum>a\<leftarrow>argv. length a + 1) \<le> pos' - pos)"
  proof (cases "find_from 10 buf pos")
    case None
    with s assms show ?thesis by (auto simp: parseInline_def waits_def rp_new_def split: if_splits)
  next
    case (Some nl)
    note b = find_from_bounds [OF Some]
    define line where "line = substr buf pos ((if nl > pos \<and> buf ! (nl - 1) = 13 then nl - 1 else nl) - pos)"
    have "length line \<le> nl - pos" by (auto simp: line_def substr_def)
    moreover have "parseInline buf pos rp_new = (case splitArgs line of
        None \<Rightarrow> None
      | Some None \<Rightarrow> Some (Error (str ''Protocol error: unbalanced quotes in request''), nl + 1, rp_new)
      | Some (Some parts) \<Rightarrow> Some (Complete parts, nl + 1, rp_new))"
      by (simp add: parseInline_def Some Let_def line_def cong: option.case_cong)
    ultimately show ?thesis using s b splitArgs_size [of line] by (auto split: option.splits)
  qed
qed

lemmas rp_eval = rp_parse_def parseMultibulk_def multibulkHeader_def bulkLoop.simps bulkHeader_def findCrlf_def find_from_def
  substr_def parseLong_def from_chars_def is_digit_def digit_val_def is_int64_def rp_new_def kMaxMultibulkLength_def
  kMaxBulkLength_def kMaxInlineRequest_def Let_def

section \<open>Properties\<close>

text \<open>C20: A command encoded by \<open>encodeCommand\<close> within the protocol limits is parsed back to its arguments,
  however the bytes are cut: at every proper prefix the parser waits for more, and the call with the
  complete bytes, at the position and in the state the first call left, returns the arguments,
  consumes exactly the command and leaves the parser as new.\<close>

theorem command_roundtrip:
  assumes "argv \<noteq> []" and "int (length argv) \<le> kMaxMultibulkLength" and "\<forall>a \<in> set argv. int (length a) \<le> kMaxBulkLength"
    and "x @ y = encodeCommand argv" and "y \<noteq> []"
  shows "\<exists>pos p. rp_parse x 0 rp_new = Some (Incomplete, pos, p) \<and>
    rp_parse (x @ y @ rest) pos p = Some (Complete argv, length (encodeCommand argv), rp_new)"
proof -
  obtain pos p where i: "rp_parse x 0 rp_new = Some (Incomplete, pos, p)" using rp_parse_enc(2) [OF assms] by blast
  have "rp_parse (x @ y @ rest) pos p = rp_parse (x @ y @ rest) 0 rp_new"
    using rp_parse_pieces [OF i, of "y @ rest"] by simp
  also have "\<dots> = Some (Complete argv, length (encodeCommand argv), rp_new)"
    using rp_parse_enc(1) [OF assms(1-3), of rest] assms(4) by (metis append.assoc)
  finally show ?thesis using i by blast
qed

theorem command_roundtrip_witness:
  "\<exists>pos p. rp_parse (str ''*1'' @ [13, 10] @ str ''$4'') 0 rp_new = Some (Incomplete, pos, p) \<and>
     rp_parse (str ''*1'' @ [13, 10] @ str ''$4'' @ [13, 10] @ str ''PING'' @ [13, 10]) pos p =
       Some (Complete [str ''PING''], 14, rp_new)"
proof -
  have "(str ''*1'' @ [13, 10] @ str ''$4'') @ [13, 10] @ str ''PING'' @ [13, 10] = encodeCommand [str ''PING'']"
    by (simp add: encodeCommand_def to_string_def nat_digits.simps)
  from command_roundtrip [OF _ _ _ this, of "[]"] show ?thesis
    by (simp add: kMaxMultibulkLength_def kMaxBulkLength_def encodeCommand_def to_string_def nat_digits.simps eval_nat_numeral)
qed

text \<open>C21: Parsing in pieces is parsing at once: when a call on a buffer waits for more bytes, the call on
  the longer buffer from the state and position it left gives exactly what a call on the longer
  buffer from the start gives, result, consumed bytes, state, error and failure to return
  alike. This holds for every input, well formed or not.\<close>

theorem parse_resumes:
  assumes "rp_parse a pos p = Some (Incomplete, pos1, p1)" and "pos \<le> length a"
  shows "rp_parse (a @ b) pos1 p1 = rp_parse (a @ b) pos p"
  using assms by (rule rp_parse_pieces)

theorem parse_resumes_witness:
  "rp_parse (str ''*2'' @ [13, 10]) 4 (rp_new\<lparr>rp_multibulk_len := 2\<rparr>) = rp_parse (str ''*2'' @ [13, 10]) 0 rp_new \<and>
   rp_parse (str ''*2'') 0 rp_new = Some (Incomplete, 0, rp_new)"
proof -
  have 1: "rp_parse (str ''*2'' @ [13, 10]) 0 rp_new = Some (Incomplete, 4, rp_new\<lparr>rp_multibulk_len := 2\<rparr>)"
    by (simp add: rp_eval)
  have "rp_parse (str ''*2'') 0 rp_new = Some (Incomplete, 0, rp_new)" by (simp add: rp_eval)
  with parse_resumes [OF 1, of "[]"] show ?thesis by simp
qed

text \<open>C22: Whatever bytes a peer sends, a parser within its limits stays within them. A call returns unless
  it is at the start of an inline command whose line has a NUL byte; there it may never return, which
  breaks the bound that the protocol ceilings are meant to give. When it returns, the position
  moves forward and never leaves the buffer; at most \<open>kMaxMultibulkLength\<close> arguments of at most
  \<open>kMaxBulkLength\<close> bytes each are held or announced, and nothing between commands; a call that waits
  leaves unread at most \<open>kMaxInlineRequest\<close> bytes of a header or inline line, or less than the argument
  it waits for; a completed command leaves the parser as new, its arguments are within the two
  ceilings, or, for an inline command, together no longer than the bytes consumed.\<close>

theorem parser_stays_bounded:
  assumes "rp_ok p" and "pos \<le> length buf"
  shows "case rp_parse buf pos p of
      None \<Rightarrow> rp_multibulk_len p = 0 \<and> pos < length buf \<and> buf ! pos \<noteq> 42 \<and>
        (\<exists>nl. find_from 10 buf pos = Some nl \<and> 0 \<in> set (substr buf pos (nl - pos)))
    | Some (st, pos', p') \<Rightarrow>
        rp_ok p' \<and> pos \<le> pos' \<and> pos' \<le> length buf \<and>
        (case st of
           Incomplete \<Rightarrow>
             if rp_bulk_len p' = -1 then length buf - pos' \<le> kMaxInlineRequest else int (length buf - pos') < rp_bulk_len p' + 2
         | Complete argv \<Rightarrow>
             p' = rp_new \<and>
             (if rp_multibulk_len p \<noteq> 0 \<or> buf ! pos = 42
              then int (length argv) \<le> kMaxMultibulkLength \<and> (\<forall>a \<in> set argv. int (length a) \<le> kMaxBulkLength)
              else (\<Sum>a\<leftarrow>argv. length a + 1) \<le> pos' - pos)
         | Error message \<Rightarrow> True)"
proof -
  consider (idle) "pos \<ge> length buf" "rp_multibulk_len p = 0"
    | (inl) "pos < length buf" "rp_multibulk_len p = 0" "buf ! pos \<noteq> 42" | (multi) "rp_multibulk_len p \<noteq> 0 \<or> pos < length buf \<and> buf ! pos = 42"
    by fastforce
  then show ?thesis
  proof cases
    case idle
    with assms show ?thesis by (auto simp: rp_parse_def rp_ok_def rp_new_def)
  next
    case inl
    then have p: "p = rp_new" using assms(1) by (simp add: rp_ok_def)
    show ?thesis
    proof (cases "parseInline buf pos rp_new")
      case None
      with inl p parseInline_ok(1) [OF assms(2) None] show ?thesis by (simp add: rp_parse_def)
    next
      case (Some r)
      obtain st pos' p' where r: "r = (st, pos', p')" by (metis prod_cases3)
      with inl p Some parseInline_ok(2) [OF assms(2) Some [unfolded r]] show ?thesis
        by (cases st) (simp_all add: rp_parse_def waits_def rp_new_bulk)
    qed
  next
    case multi
    obtain st pos' p' where m: "parseMultibulk buf pos p = (st, pos', p')" by (metis prod_cases3)
    have "rp_parse buf pos p = Some (st, pos', p')" using multi m by (auto simp: rp_parse_def)
    with multi parseMultibulk_ok [OF assms m] show ?thesis by (cases st) (auto simp: waits_def argv_ok_def split: if_splits)
  qed
qed

theorem parser_stays_bounded_witness:
  "rp_ok (rp_new\<lparr>rp_multibulk_len := 2\<rparr>)"
proof -
  have "rp_parse (str ''*2'' @ [13, 10]) 0 rp_new = Some (Incomplete, 4, rp_new\<lparr>rp_multibulk_len := 2\<rparr>)"
    by (simp add: rp_eval)
  then show ?thesis using parser_stays_bounded [OF rp_ok_new, of 0 "str ''*2'' @ [13, 10]"] by simp
qed

end
