(* ===== verification/Resp_Reply.thy ===== *)
theory Resp_Reply
  imports Resp_Request Dtoa
begin

text \<open>
  Model of the reply side of \<open>src/net/resp.h\<close> and \<open>resp.cpp\<close>: what each call of \<open>ReplyWriter\<close>
  appends to the output in either protocol version, and the reply parser of the client. The
  nesting depth of the parser's recursion is fuel; \<open>parseReply\<close> supplies more than any
  buffer can use up, which is proved below. A reply is parsed into a fresh \<open>Reply\<close>, as all callers
  do, and memory is taken to suffice.
\<close>

section \<open>Writing\<close>

definition appendLine :: "byte \<Rightarrow> bytes \<Rightarrow> bytes" where
  "appendLine c body = c # body @ [13, 10]"

definition appendCount :: "byte \<Rightarrow> int \<Rightarrow> bytes" where
  "appendCount c n = c # to_string n @ [13, 10]"

definition rw_simpleString :: "bytes \<Rightarrow> bytes" where
  "rw_simpleString s = appendLine 43 s"

definition rw_error :: "bytes \<Rightarrow> bytes" where
  "rw_error msg = appendLine 45 msg"

definition rw_integer :: "int \<Rightarrow> bytes" where
  "rw_integer n = appendCount 58 n"

definition rw_bulk :: "bytes \<Rightarrow> bytes" where
  "rw_bulk s = appendCount 36 (int (length s)) @ s @ [13, 10]"

definition rw_verbatim :: "int \<Rightarrow> bytes \<Rightarrow> bytes \<Rightarrow> bytes" where
  "rw_verbatim protover s format =
     (if protover < 3 then rw_bulk s
      else appendCount 61 (int (length s + 4)) @ take 3 format @ [58] @ s @ [13, 10])"

definition rw_nullBulk :: "int \<Rightarrow> bytes" where
  "rw_nullBulk protover = (if protover \<ge> 3 then str ''_'' @ [13, 10] else str ''$-1'' @ [13, 10])"

definition rw_nullArray :: "int \<Rightarrow> bytes" where
  "rw_nullArray protover = (if protover \<ge> 3 then str ''_'' @ [13, 10] else str ''*-1'' @ [13, 10])"

definition rw_arrayHeader :: "int \<Rightarrow> bytes" where
  "rw_arrayHeader n = appendCount 42 n"

definition rw_mapHeader :: "int \<Rightarrow> int \<Rightarrow> bytes" where
  "rw_mapHeader protover pairs = (if protover \<ge> 3 then appendCount 37 pairs else appendCount 42 (pairs * 2))"

definition rw_setHeader :: "int \<Rightarrow> int \<Rightarrow> bytes" where
  "rw_setHeader protover n = (if protover \<ge> 3 then appendCount 126 n else appendCount 42 n)"

definition rw_pushHeader :: "int \<Rightarrow> int \<Rightarrow> bytes" where
  "rw_pushHeader protover n = (if protover \<ge> 3 then appendCount 62 n else appendCount 42 n)"

definition rw_boolean :: "int \<Rightarrow> bool \<Rightarrow> bytes" where
  "rw_boolean protover b =
     (if protover \<ge> 3 then (if b then str ''#t'' else str ''#f'') @ [13, 10]
      else (if b then str '':1'' else str '':0'') @ [13, 10])"

definition formatDouble :: "double \<Rightarrow> bytes" where
  "formatDouble d = (if dbl_eq d 0 \<and> dbl_neg d then str ''-0'' else d2string d)"

definition rw_doubleValue :: "int \<Rightarrow> double \<Rightarrow> bytes" where
  "rw_doubleValue protover d = (if protover \<ge> 3 then appendLine 44 (formatDouble d) else rw_bulk (formatDouble d))"

definition rw_bigNumber :: "int \<Rightarrow> bytes \<Rightarrow> bytes" where
  "rw_bigNumber protover digits = (if protover \<ge> 3 then appendLine 40 digits else rw_bulk digits)"

definition rw_bulkArray :: "bytes list \<Rightarrow> bytes" where
  "rw_bulkArray items = rw_arrayHeader (int (length items)) @ concat (map rw_bulk items)"

section \<open>Reading\<close>

datatype ReplyType =
  TSimpleString | TError | TInteger | TBulk | TArray | TNull | TBoolean | TDouble | TMap | TSet | TPush | TBigNumber | TVerbatim

datatype Reply = Reply (r_type: ReplyType) (r_str: bytes) (r_integer: int) (r_dbl: double) (r_boolean: bool)
  (r_elements: "Reply list")

text \<open>The parser's outcome: a value and the new position, more bytes needed, or \<open>error\<close> set.\<close>

datatype 'a parsed = Parsed 'a nat | NeedMore | Violation bytes

definition replyLine :: "ReplyType \<Rightarrow> bytes \<Rightarrow> nat \<Rightarrow> Reply parsed" where
  "replyLine t buf pos =
     (case findCrlf buf pos of
        None \<Rightarrow> NeedMore
      | Some cr \<Rightarrow> Parsed (Reply t (substr buf (pos + 1) (cr - pos - 1)) 0 0 False []) (cr + 2))"

definition replyInteger :: "bytes \<Rightarrow> nat \<Rightarrow> Reply parsed" where
  "replyInteger buf pos =
     (case findCrlf buf pos of
        None \<Rightarrow> NeedMore
      | Some cr \<Rightarrow>
          (case parseLong (substr buf (pos + 1) (cr - pos - 1)) of
             None \<Rightarrow> Violation (str ''Protocol error: invalid integer'')
           | Some v \<Rightarrow> Parsed (Reply TInteger [] v 0 False []) (cr + 2)))"

definition readDouble :: "bytes \<Rightarrow> double" where
  "readDouble s =
     (if s = str ''inf'' then 0x7FF0000000000000
      else if s = str ''-inf'' then 0xFFF0000000000000
      else if s = str ''nan'' then 0x7FF8000000000000
      else fst (strtod (takeWhile (\<lambda>c. c \<noteq> 0) s)))"

definition replyDouble :: "bytes \<Rightarrow> nat \<Rightarrow> Reply parsed" where
  "replyDouble buf pos =
     (case findCrlf buf pos of
        None \<Rightarrow> NeedMore
      | Some cr \<Rightarrow> Parsed (Reply TDouble [] 0 (readDouble (substr buf (pos + 1) (cr - pos - 1))) False []) (cr + 2))"

definition replyBoolean :: "bytes \<Rightarrow> nat \<Rightarrow> Reply parsed" where
  "replyBoolean buf pos =
     (case findCrlf buf pos of
        None \<Rightarrow> NeedMore
      | Some cr \<Rightarrow> Parsed (Reply TBoolean [] 0 0 (cr > pos + 1 \<and> buf ! (pos + 1) = 116) []) (cr + 2))"

definition replyNull :: "bytes \<Rightarrow> nat \<Rightarrow> Reply parsed" where
  "replyNull buf pos =
     (case findCrlf buf pos of
        None \<Rightarrow> NeedMore
      | Some cr \<Rightarrow> Parsed (Reply TNull [] 0 0 False []) (cr + 2))"

definition replyBulk :: "ReplyType \<Rightarrow> bytes \<Rightarrow> nat \<Rightarrow> Reply parsed" where
  "replyBulk t buf pos =
     (case findCrlf buf pos of
        None \<Rightarrow> NeedMore
      | Some cr \<Rightarrow>
          (case parseLong (substr buf (pos + 1) (cr - pos - 1)) of
             None \<Rightarrow> Violation (str ''Protocol error: invalid bulk length'')
           | Some len \<Rightarrow>
               if len < 0 then Parsed (Reply TNull [] 0 0 False []) (cr + 2)
               else let start = cr + 2 in
                 if length buf - start < nat len + 2 then NeedMore
                 else Parsed (Reply t (substr buf start (nat len)) 0 0 False []) (start + nat len + 2)))"

text \<open>The switch over the type byte: the types without children, and the aggregates with the number of
  children per counted element.\<close>

definition parseScalar :: "byte \<Rightarrow> bytes \<Rightarrow> nat \<Rightarrow> Reply parsed" where
  "parseScalar type buf pos =
     (if type = 43 then replyLine TSimpleString buf pos
      else if type = 45 then replyLine TError buf pos
      else if type = 40 then replyLine TBigNumber buf pos
      else if type = 58 then replyInteger buf pos
      else if type = 44 then replyDouble buf pos
      else if type = 35 then replyBoolean buf pos
      else if type = 95 then replyNull buf pos
      else if type = 36 then replyBulk TBulk buf pos
      else if type = 33 then replyBulk TError buf pos
      else if type = 61 then replyBulk TVerbatim buf pos
      else Violation (str ''Protocol error: unknown reply type byte '' @ [39, type, 39]))"

definition aggregateType :: "byte \<Rightarrow> (ReplyType \<times> int) option" where
  "aggregateType type =
     (if type = 42 then Some (TArray, 1)
      else if type = 126 then Some (TSet, 1)
      else if type = 62 then Some (TPush, 1)
      else if type = 37 then Some (TMap, 2)
      else None)"

function (sequential) parseReplyInner :: "nat \<Rightarrow> bytes \<Rightarrow> nat \<Rightarrow> Reply parsed"
  and parseAggregate :: "nat \<Rightarrow> ReplyType \<Rightarrow> bytes \<Rightarrow> nat \<Rightarrow> int \<Rightarrow> Reply parsed"
  and parseElements :: "nat \<Rightarrow> nat \<Rightarrow> bytes \<Rightarrow> nat \<Rightarrow> Reply list \<Rightarrow> Reply list parsed" where
  "parseReplyInner 0 buf pos = NeedMore"
| "parseReplyInner (Suc fuel) buf pos =
     (if pos \<ge> length buf then NeedMore
      else case aggregateType (buf ! pos) of
             Some (t, multiplier) \<Rightarrow> parseAggregate fuel t buf pos multiplier
           | None \<Rightarrow> parseScalar (buf ! pos) buf pos)"
| "parseAggregate fuel t buf pos multiplier =
     (case findCrlf buf pos of
        None \<Rightarrow> NeedMore
      | Some cr \<Rightarrow>
          (case parseLong (substr buf (pos + 1) (cr - pos - 1)) of
             None \<Rightarrow> Violation (str ''Protocol error: invalid aggregate length'')
           | Some cnt \<Rightarrow>
               if cnt < 0 then Parsed (Reply TNull [] 0 0 False []) (cr + 2)
               else (case parseElements fuel (nat (cnt * multiplier)) buf (cr + 2) [] of
                       Parsed es cursor \<Rightarrow> Parsed (Reply t [] 0 0 False es) cursor
                     | NeedMore \<Rightarrow> NeedMore
                     | Violation e \<Rightarrow> Violation e)))"
| "parseElements fuel 0 buf cursor acc = Parsed acc cursor"
| "parseElements fuel (Suc n) buf cursor acc =
     (case parseReplyInner fuel buf cursor of
        Parsed child cursor' \<Rightarrow> parseElements fuel n buf cursor' (acc @ [child])
      | NeedMore \<Rightarrow> NeedMore
      | Violation e \<Rightarrow> Violation e)"
  by pat_completeness auto
termination
  by (relation "inv_image (less_than <*lex*> less_than) (\<lambda>x. case x of
        Inl (fuel, _) \<Rightarrow> (2 * fuel, 0)
      | Inr (Inl (fuel, _)) \<Rightarrow> (2 * fuel + 1, 0)
      | Inr (Inr (fuel, n, _)) \<Rightarrow> (2 * fuel, Suc n))") auto

declare parseReplyInner.simps [simp del] parseAggregate.simps [simp del]

definition parseReply :: "bytes \<Rightarrow> nat \<Rightarrow> Reply parsed" where
  "parseReply buf pos = parseReplyInner (length buf - pos + 1) buf pos"

section \<open>The fuel is enough\<close>

lemma scalar_progress:
  assumes "parseScalar c buf pos = Parsed r pos'"
  shows "pos < pos' \<and> pos' \<le> length buf"
proof -
  have cr: "findCrlf buf pos = Some cr \<Longrightarrow> pos < cr + 2 \<and> cr + 2 \<le> length buf" for cr using findCrlf_bounds by fastforce
  from assms show ?thesis using cr
    by (auto simp: parseScalar_def replyLine_def replyInteger_def replyDouble_def replyBoolean_def replyNull_def replyBulk_def Let_def
        split: if_splits option.splits)
qed

lemma reply_progress:
  "parseReplyInner fuel buf pos = Parsed r pos' \<Longrightarrow> pos < pos' \<and> pos' \<le> length buf"
  "parseAggregate fuel t buf pos m = Parsed r pos' \<Longrightarrow> pos < pos' \<and> pos' \<le> length buf"
  "parseElements fuel n buf cursor acc = Parsed es cursor' \<Longrightarrow> cursor \<le> length buf \<Longrightarrow> cursor \<le> cursor' \<and> cursor' \<le> length buf"
proof (induction fuel buf pos and fuel t buf pos m and fuel n buf cursor acc
    arbitrary: r pos' and r pos' and es cursor' rule: parseReplyInner_parseAggregate_parseElements.induct)
  case (2 fuel buf pos)
  show ?case
  proof (cases "aggregateType (buf ! pos)")
    case None
    with 2(2) show ?thesis by (auto simp: parseReplyInner.simps dest: scalar_progress split: if_splits)
  next
    case (Some tm)
    with 2(2) show ?thesis by (cases tm) (auto simp: parseReplyInner.simps dest: 2(1) split: if_splits)
  qed
next
  case (3 fuel t buf pos m)
  from 3(2) obtain cr cnt where c: "findCrlf buf pos = Some cr" "parseLong (substr buf (pos + 1) (cr - pos - 1)) = Some cnt"
    by (auto simp: parseAggregate.simps split: option.splits)
  note b = findCrlf_bounds [OF c(1)]
  show ?case
  proof (cases "cnt < 0")
    case True
    with 3(2) c b show ?thesis by (auto simp: parseAggregate.simps)
  next
    case False
    with 3(2) c obtain es where e: "parseElements fuel (nat (cnt * m)) buf (cr + 2) [] = Parsed es pos'"
      by (auto simp: parseAggregate.simps split: parsed.splits)
    from 3(1) [OF c False e] b show ?thesis by simp
  qed
next
  case (5 fuel n buf cursor acc)
  from 5(3) obtain child c' where c: "parseReplyInner fuel buf cursor = Parsed child c'"
    "parseElements fuel n buf c' (acc @ [child]) = Parsed es cursor'"
    by (auto simp: parseAggregate.simps split: parsed.splits)
  from 5(1) [OF c(1)] 5(2) [OF c] show ?case by simp
qed (simp_all add: parseReplyInner.simps)

lemma reply_fuel:
  "length buf - pos < fuel \<Longrightarrow> parseReplyInner (Suc fuel) buf pos = parseReplyInner fuel buf pos"
  "pos < length buf \<Longrightarrow> length buf - pos \<le> fuel \<Longrightarrow> parseAggregate (Suc fuel) t buf pos m = parseAggregate fuel t buf pos m"
  "cursor \<le> length buf \<Longrightarrow> length buf - cursor < fuel \<Longrightarrow> parseElements (Suc fuel) n buf cursor acc = parseElements fuel n buf cursor acc"
proof (induction fuel buf pos and fuel t buf pos m and fuel n buf cursor acc
    rule: parseReplyInner_parseAggregate_parseElements.induct)
  case (2 fuel buf pos)
  show ?case
  proof (cases "aggregateType (buf ! pos)")
    case (Some tm)
    with 2 show ?thesis by (cases tm) (simp add: parseReplyInner.simps(2))
  qed (simp add: parseReplyInner.simps(2))
next
  case (3 fuel t buf pos m)
  show ?case
  proof (cases "findCrlf buf pos")
    case (Some cr)
    note b = findCrlf_bounds [OF Some]
    show ?thesis
    proof (cases "parseLong (substr buf (pos + 1) (cr - pos - 1))")
      case c: (Some cnt)
      show ?thesis
      proof (cases "cnt < 0")
        case False
        have "parseElements (Suc fuel) (nat (cnt * m)) buf (cr + 2) [] = parseElements fuel (nat (cnt * m)) buf (cr + 2) []"
          using b 3(2,3) by (intro 3(1) [OF Some c False]) auto
        with Some c False show ?thesis by (simp add: parseAggregate.simps)
      qed (use Some c in \<open>simp add: parseAggregate.simps\<close>)
    qed (use Some in \<open>simp add: parseAggregate.simps\<close>)
  qed (simp add: parseAggregate.simps)
next
  case (5 fuel n buf cursor acc)
  show ?case
  proof (cases "parseReplyInner fuel buf cursor")
    case (Parsed child c')
    have c: "cursor < c' \<and> c' \<le> length buf" using reply_progress(1) [OF Parsed] .
    then have "length buf - c' < fuel" using 5(4) by linarith
    with 5 Parsed c show ?thesis by simp
  qed (use 5 in \<open>simp_all add: parseElements.simps\<close>)
qed (simp_all add: parseReplyInner.simps)

lemma parseReply_fuel: "length buf - pos < fuel \<Longrightarrow> parseReplyInner fuel buf pos = parseReply buf pos"
proof (induction fuel)
  case (Suc fuel)
  then show ?case
    by (cases "length buf - pos = fuel") (simp_all add: parseReply_def reply_fuel(1))
qed simp

section \<open>Reply trees\<close>

text \<open>
  A reply as a tree, written with the calls of \<open>ReplyWriter\<close>; a map lists its keys and values in turn.
  \<open>as_read\<close> is what the protocol version leaves of it: the types of the third version degrade to those
  of the second.
\<close>

fun rw_emit :: "int \<Rightarrow> Reply \<Rightarrow> bytes" where
  "rw_emit v (Reply t s n d b es) =
     (case t of
        TSimpleString \<Rightarrow> rw_simpleString s
      | TError \<Rightarrow> rw_error s
      | TInteger \<Rightarrow> rw_integer n
      | TBulk \<Rightarrow> rw_bulk s
      | TNull \<Rightarrow> if b then rw_nullArray v else rw_nullBulk v
      | TBoolean \<Rightarrow> rw_boolean v b
      | TDouble \<Rightarrow> rw_doubleValue v d
      | TBigNumber \<Rightarrow> rw_bigNumber v s
      | TVerbatim \<Rightarrow> rw_verbatim v s (str ''txt'')
      | TArray \<Rightarrow> rw_arrayHeader (int (length es)) @ concat (map (rw_emit v) es)
      | TSet \<Rightarrow> rw_setHeader v (int (length es)) @ concat (map (rw_emit v) es)
      | TPush \<Rightarrow> rw_pushHeader v (int (length es)) @ concat (map (rw_emit v) es)
      | TMap \<Rightarrow> rw_mapHeader v (int (length es) div 2) @ concat (map (rw_emit v) es))"

fun as_read :: "int \<Rightarrow> Reply \<Rightarrow> Reply" where
  "as_read v (Reply t s n d b es) =
     (case t of
        TInteger \<Rightarrow> Reply TInteger [] n 0 False []
      | TNull \<Rightarrow> Reply TNull [] 0 0 False []
      | TBoolean \<Rightarrow> if v \<ge> 3 then Reply TBoolean [] 0 0 b [] else Reply TInteger [] (if b then 1 else 0) 0 False []
      | TDouble \<Rightarrow> if v \<ge> 3 then Reply TDouble [] 0 d False [] else Reply TBulk (formatDouble d) 0 0 False []
      | TBigNumber \<Rightarrow> Reply (if v \<ge> 3 then TBigNumber else TBulk) s 0 0 False []
      | TVerbatim \<Rightarrow> if v \<ge> 3 then Reply TVerbatim (str ''txt:'' @ s) 0 0 False [] else Reply TBulk s 0 0 False []
      | TArray \<Rightarrow> Reply TArray [] 0 0 False (map (as_read v) es)
      | TSet \<Rightarrow> Reply (if v \<ge> 3 then TSet else TArray) [] 0 0 False (map (as_read v) es)
      | TPush \<Rightarrow> Reply (if v \<ge> 3 then TPush else TArray) [] 0 0 False (map (as_read v) es)
      | TMap \<Rightarrow> Reply (if v \<ge> 3 then TMap else TArray) [] 0 0 False (map (as_read v) es)
      | _ \<Rightarrow> Reply t s 0 0 False [])"

text \<open>The doubles considered: the two infinities, the NaN that \<open>std::numeric_limits\<close> names, and the
  integers up to \<open>2 ^ 62\<close> in size with both zeros, which are the values that \<open>double2ll\<close> accepts.\<close>

definition plain_double :: "double \<Rightarrow> bool" where
  "plain_double d \<longleftrightarrow> dbl_isinf d \<or> d = 0x7FF8000000000000 \<or> double2ll d \<noteq> None"

text \<open>Lines hold no line feed, sizes fit into 64 bits and maps have as many values as keys.\<close>

fun emit_ok :: "int \<Rightarrow> Reply \<Rightarrow> bool" where
  "emit_ok v (Reply t s n d b es) =
     (case t of
        TSimpleString \<Rightarrow> 10 \<notin> set s
      | TError \<Rightarrow> 10 \<notin> set s
      | TInteger \<Rightarrow> is_int64 n
      | TBulk \<Rightarrow> is_int64 (int (length s))
      | TDouble \<Rightarrow> plain_double d
      | TBigNumber \<Rightarrow> 10 \<notin> set s \<and> is_int64 (int (length s))
      | TVerbatim \<Rightarrow> is_int64 (int (length s + 4))
      | TArray \<Rightarrow> is_int64 (int (length es)) \<and> list_all (emit_ok v) es
      | TSet \<Rightarrow> is_int64 (int (length es)) \<and> list_all (emit_ok v) es
      | TPush \<Rightarrow> is_int64 (int (length es)) \<and> list_all (emit_ok v) es
      | TMap \<Rightarrow> is_int64 (int (length es)) \<and> even (length es) \<and> list_all (emit_ok v) es
      | _ \<Rightarrow> True)"

subsection \<open>Doubles\<close>

lemma to_string_bytes: "c \<in> set (to_string n) \<Longrightarrow> c = 45 \<or> is_digit c"
  using nat_digits_digits by (auto simp: to_string_def list_all_iff split: if_splits)

lemma plain_double_text:
  assumes "plain_double d"
  shows "10 \<notin> set (formatDouble d)" "readDouble (formatDouble d) = d" "length (formatDouble d) \<le> 20"
proof -
  have z: "dbl_key 0 = 0" "\<not> dbl_isnan 0" by (simp_all add: dbl_key_def dbl_mag_def dbl_isnan_def kExpMask_def)
  have "10 \<notin> set (formatDouble d) \<and> readDouble (formatDouble d) = d \<and> length (formatDouble d) \<le> 20"
  proof (cases "dbl_isinf d")
    case True
    then have n: "\<not> dbl_isnan d" by (simp add: dbl_isinf_def dbl_isnan_def)
    have k: "dbl_key d = (if dbl_neg d then - 0x7FF0000000000000 else 0x7FF0000000000000)"
      using dbl_isinf_mag [OF True] by (simp add: dbl_key_def)
    have i: "dbl_key 0x7FF0000000000000 = 0x7FF0000000000000" "dbl_key 0xFFF0000000000000 = - 0x7FF0000000000000"
      by (simp_all add: dbl_key_def dbl_neg_def dbl_mag_def)
    have "d = (if dbl_neg d then 0xFFF0000000000000 else 0x7FF0000000000000)"
      by (rule dbl_key_nonzero_eq) (simp_all add: k i)
    moreover have "formatDouble d = (if dbl_neg d then str ''-inf'' else str ''inf'')"
      using True n k z by (simp add: formatDouble_def d2string_def dbl_eq_def dbl_lt_def)
    ultimately show ?thesis by (simp add: readDouble_def split: if_splits)
  next
    case False
    show ?thesis
    proof (cases "double2ll d")
      case None
      with False assms have "d = 0x7FF8000000000000" by (simp add: plain_double_def)
      then show ?thesis
        by (simp add: formatDouble_def d2string_def dbl_eq_def dbl_isnan_def kExpMask_def kFracMask_def readDouble_def)
    next
      case (Some n)
      then have e: "dbl_eq (dbl_of_int n) d" by (auto simp: double2ll_def Let_def split: if_splits)
      show ?thesis
      proof (cases "dbl_eq d 0 \<and> dbl_neg d")
        case True
        then have "d = 0x8000000000000000"
          by (intro dbl_mag_neg_eq) (auto simp: dbl_eq_def dbl_key_def z dbl_neg_def dbl_mag_def [of "0x8000000000000000"])
        then show ?thesis using True strtod_unsigned(2) [of "[48]"]
          by (simp add: formatDouble_def readDouble_def is_digit_def digit_val_def round_ratio_def dbl_make_def kSignMask_def)
      next
        case nz: False
        have "dbl_of_int n = d"
        proof (cases "dbl_key d = 0")
          case True
          with e nz have "\<not> dbl_neg d" by (auto simp: dbl_eq_def z)
          with True have "d = 0" by (intro dbl_mag_neg_eq) (simp_all add: dbl_key_def dbl_neg_def dbl_mag_def [of 0])
          then have "n = 0" using Some by (auto simp: double2ll_def dbl_trunc_def dbl_sig_def dbl_mag_def Let_def split: if_splits)
          with \<open>d = 0\<close> show ?thesis by (simp add: dbl_of_int_def round_ratio_def dbl_make_def)
        qed (use e in \<open>auto simp: dbl_eq_def intro: dbl_key_nonzero_eq\<close>)
        moreover have f: "formatDouble d = to_string n" using nz d2string_double2ll(1) [OF Some] by (auto simp: formatDouble_def)
        moreover have tw: "takeWhile (\<lambda>c. c \<noteq> 0) (to_string n) = to_string n"
          using to_string_bytes [of 0 n] by (auto simp: takeWhile_eq_all_conv is_digit_def)
        moreover have "length (to_string n) \<le> 20"
          using Some by (rule double2ll_text)
        moreover have "to_string n \<noteq> str ''inf''" "to_string n \<noteq> str ''-inf''" "to_string n \<noteq> str ''nan''"
          using to_string_bytes [of 110 n] by (auto simp: is_digit_def)
        ultimately show ?thesis using to_string_no_lf by (simp add: readDouble_def tw strtod_to_string)
      qed
    qed
  qed
  then show "10 \<notin> set (formatDouble d)" "readDouble (formatDouble d) = d" "length (formatDouble d) \<le> 20" by simp_all
qed

lemma plain_double_fits: "plain_double d \<Longrightarrow> is_int64 (int (length (formatDouble d)))"
  using plain_double_text(3) [of d] by (simp add: is_int64_def)

subsection \<open>Lines\<close>

lemma line_parts:
  assumes "c \<noteq> 10" and "10 \<notin> set body"
  shows "findCrlf (pre @ c # body @ 13 # 10 # rest) (length pre) = Some (Suc (length pre + length body))"
    and "substr (pre @ c # body @ 13 # 10 # rest) (Suc (length pre)) (length body) = body"
    and "(pre @ c # body @ 13 # 10 # rest) ! length pre = c"
proof -
  have "10 \<notin> set (c # body)" using assms by auto
  from findCrlf_line [OF this, of pre rest]
  show "findCrlf (pre @ c # body @ 13 # 10 # rest) (length pre) = Some (Suc (length pre + length body))" by simp
qed (simp_all add: substr_def)

lemma line_prefix:
  assumes "c \<noteq> 10" and "10 \<notin> set body" and "x @ y = (c # body @ [13, 10]) @ z" and "length x < length (c # body @ [13, 10])"
  shows "findCrlf (pre @ x) (length pre) = None"
proof -
  have "x @ y = (c # body @ [13]) @ 10 # z" using assms(3) by simp
  moreover have "length x \<le> length (c # body @ [13])" using assms(4) by simp
  ultimately have "x = take (length x) (c # body @ [13])" by (metis append_eq_append_conv_if append_take_drop_id)
  then have "set x \<subseteq> set (c # body @ [13])" by (metis set_take_subset)
  then have "10 \<notin> set x" using assms(1,2) by auto
  then show ?thesis by (intro findCrlf_none) simp
qed

lemma replyBulk_parts:
  assumes "c \<noteq> 10" and "is_int64 (int (length s))"
  shows "replyBulk t (pre @ (appendCount c (int (length s)) @ s @ [13, 10]) @ rest) (length pre) =
      Parsed (Reply t s 0 0 False []) (length pre + length (appendCount c (int (length s)) @ s @ [13, 10]))"
    and "x @ y = appendCount c (int (length s)) @ s @ [13, 10] \<Longrightarrow> y \<noteq> [] \<Longrightarrow> replyBulk t (pre @ x) (length pre) = NeedMore"
proof -
  let ?d = "to_string (int (length s))"
  note lf = line_parts [OF assms(1) to_string_no_lf, of pre "int (length s)"] and pl = parseLong_to_string [OF assms(2)]
  have "substr (pre @ c # ?d @ 13 # 10 # s @ 13 # 10 # rest) (length pre + length ?d + 3) (length s) = s"
    using substr_mid [of "pre @ c # ?d @ [13, 10]" s "13 # 10 # rest"] by (simp add: eval_nat_numeral)
  then show "replyBulk t (pre @ (appendCount c (int (length s)) @ s @ [13, 10]) @ rest) (length pre) =
      Parsed (Reply t s 0 0 False []) (length pre + length (appendCount c (int (length s)) @ s @ [13, 10]))"
    using lf [of "s @ 13 # 10 # rest"] pl by (simp add: replyBulk_def appendCount_def Let_def eval_nat_numeral)
  assume xy: "x @ y = appendCount c (int (length s)) @ s @ [13, 10]" "y \<noteq> []"
  show "replyBulk t (pre @ x) (length pre) = NeedMore"
  proof (cases "length x < length (c # ?d @ [13, 10])")
    case True
    have "findCrlf (pre @ x) (length pre) = None"
      by (rule line_prefix [OF assms(1) to_string_no_lf _ True]) (use xy(1) in \<open>simp add: appendCount_def\<close>)
    then show ?thesis by (simp add: replyBulk_def)
  next
    case False
    then obtain x2 where x2: "x = (c # ?d @ [13, 10]) @ x2" "x2 @ y = s @ [13, 10]"
      using xy(1) unfolding appendCount_def by (rule append_cover [where r = "s @ [13, 10]"]) simp
    have "length x2 + length y = length s + 2" using arg_cong [OF x2(2), of length] by simp
    then have "length x2 < length s + 2" using xy(2) by (cases y) auto
    then show ?thesis using lf [of x2] pl by (simp add: replyBulk_def x2(1) Let_def)
  qed
qed

subsection \<open>Trees\<close>

text \<open>\<open>e\<close> is read as \<open>r\<close> wherever it stands, and every proper prefix of it needs more bytes.\<close>

definition reads :: "bytes \<Rightarrow> Reply \<Rightarrow> bool" where
  "reads e r \<longleftrightarrow> e \<noteq> [] \<and>
     (\<forall>fuel pre rest. length e \<le> fuel \<longrightarrow> parseReplyInner fuel (pre @ e @ rest) (length pre) = Parsed r (length pre + length e)) \<and>
     (\<forall>fuel pre x y. x @ y = e \<longrightarrow> y \<noteq> [] \<longrightarrow> length x < fuel \<longrightarrow> parseReplyInner fuel (pre @ x) (length pre) = NeedMore)"

lemma readsD:
  assumes "reads e r"
  shows "length e \<le> fuel \<Longrightarrow> parseReplyInner fuel (pre @ e @ rest) (length pre) = Parsed r (length pre + length e)"
    and "x @ y = e \<Longrightarrow> y \<noteq> [] \<Longrightarrow> length x < fuel \<Longrightarrow> parseReplyInner fuel (pre @ x) (length pre) = NeedMore"
  using assms by (auto simp: reads_def)

lemma reads_scalar:
  assumes "aggregateType c = None"
    and p: "\<And>pre rest. parseScalar c (pre @ (c # e) @ rest) (length pre) = Parsed r (length pre + length (c # e))"
    and n: "\<And>pre x y. x @ y = c # e \<Longrightarrow> y \<noteq> [] \<Longrightarrow> x \<noteq> [] \<Longrightarrow> parseScalar c (pre @ x) (length pre) = NeedMore"
  shows "reads (c # e) r"
proof -
  have "parseReplyInner fuel (pre @ (c # e) @ rest) (length pre) = Parsed r (length pre + length (c # e))"
    if "length (c # e) \<le> fuel" for fuel pre rest
    using that p [of pre rest] assms(1) by (cases fuel) (simp_all add: parseReplyInner.simps)
  moreover have "parseReplyInner fuel (pre @ x) (length pre) = NeedMore" if "x @ y = c # e" "y \<noteq> []" for fuel pre x y
  proof (cases fuel)
    case (Suc f)
    show ?thesis
    proof (cases x)
      case (Cons b bs)
      with that(1) have "b = c" by simp
      with n [OF that, of pre] assms(1) Suc Cons show ?thesis by (simp add: parseReplyInner.simps)
    qed (simp add: Suc parseReplyInner.simps)
  qed (simp add: parseReplyInner.simps)
  ultimately show ?thesis unfolding reads_def by blast
qed

lemma reads_line:
  assumes "aggregateType c = None" and "c \<noteq> 10" and "10 \<notin> set body"
    and "\<And>buf pos. findCrlf buf pos = None \<Longrightarrow> parseScalar c buf pos = NeedMore"
    and "\<And>pre rest. parseScalar c (pre @ c # body @ 13 # 10 # rest) (length pre) = Parsed r (Suc (Suc (Suc (length pre + length body))))"
  shows "reads (c # body @ [13, 10]) r"
proof (rule reads_scalar [OF assms(1)])
  show "parseScalar c (pre @ (c # body @ [13, 10]) @ rest) (length pre) = Parsed r (length pre + length (c # body @ [13, 10]))"
    for pre rest using assms(5) [of pre rest] by simp
next
  fix pre x y
  assume xy: "x @ y = c # body @ [13, 10]" "y \<noteq> []"
  have "length x < length (c # body @ [13, 10])" using arg_cong [OF xy(1), of length] xy(2) by (cases y) auto
  then have "findCrlf (pre @ x) (length pre) = None"
    using line_prefix [OF assms(2,3), of x y "[]" pre] xy(1) by simp
  then show "parseScalar c (pre @ x) (length pre) = NeedMore" by (rule assms(4))
qed

lemmas scalar_defs = parseScalar_def replyLine_def replyInteger_def replyDouble_def replyBoolean_def replyNull_def

lemma reads_lines:
  shows "10 \<notin> set s \<Longrightarrow> reads (rw_simpleString s) (Reply TSimpleString s 0 0 False [])"
    and "10 \<notin> set s \<Longrightarrow> reads (rw_error s) (Reply TError s 0 0 False [])"
    and "10 \<notin> set s \<Longrightarrow> reads (appendLine 40 s) (Reply TBigNumber s 0 0 False [])"
    and "is_int64 n \<Longrightarrow> reads (rw_integer n) (Reply TInteger [] n 0 False [])"
    and "10 \<notin> set (formatDouble d) \<Longrightarrow> readDouble (formatDouble d) = d \<Longrightarrow>
      reads (appendLine 44 (formatDouble d)) (Reply TDouble [] 0 d False [])"
    and "reads (str ''#t'' @ [13, 10]) (Reply TBoolean [] 0 0 True [])"
    and "reads (str ''#f'' @ [13, 10]) (Reply TBoolean [] 0 0 False [])"
    and "reads (str ''_'' @ [13, 10]) (Reply TNull [] 0 0 False [])"
proof -
  show "10 \<notin> set s \<Longrightarrow> reads (rw_simpleString s) (Reply TSimpleString s 0 0 False [])"
    unfolding rw_simpleString_def appendLine_def
    by (rule reads_line) (simp_all add: aggregateType_def scalar_defs line_parts)
  show "10 \<notin> set s \<Longrightarrow> reads (rw_error s) (Reply TError s 0 0 False [])"
    unfolding rw_error_def appendLine_def
    by (rule reads_line) (simp_all add: aggregateType_def scalar_defs line_parts)
  show "10 \<notin> set s \<Longrightarrow> reads (appendLine 40 s) (Reply TBigNumber s 0 0 False [])"
    unfolding appendLine_def
    by (rule reads_line) (simp_all add: aggregateType_def scalar_defs line_parts)
  show "is_int64 n \<Longrightarrow> reads (rw_integer n) (Reply TInteger [] n 0 False [])"
    unfolding rw_integer_def appendCount_def
    by (rule reads_line)
       (simp_all add: aggregateType_def scalar_defs line_parts to_string_no_lf parseLong_to_string)
  show "10 \<notin> set (formatDouble d) \<Longrightarrow> readDouble (formatDouble d) = d \<Longrightarrow>
      reads (appendLine 44 (formatDouble d)) (Reply TDouble [] 0 d False [])"
    unfolding appendLine_def
    by (rule reads_line) (simp_all add: aggregateType_def scalar_defs line_parts)
  have l: "findCrlf (pre @ 35 # c # 13 # 10 # rest) (length pre) = Some (Suc (Suc (length pre)))" if "c \<noteq> 10" for pre rest c
    using line_parts(1) [of 35 "[c]" pre rest] that by simp
  show "reads (str ''#t'' @ [13, 10]) (Reply TBoolean [] 0 0 True [])"
    using reads_line [of 35 "[116]" "Reply TBoolean [] 0 0 True []"]
    by (simp add: aggregateType_def scalar_defs l nth_append)
  show "reads (str ''#f'' @ [13, 10]) (Reply TBoolean [] 0 0 False [])"
    using reads_line [of 35 "[102]" "Reply TBoolean [] 0 0 False []"]
    by (simp add: aggregateType_def scalar_defs l nth_append)
  have "findCrlf (pre @ 95 # 13 # 10 # rest) (length pre) = Some (Suc (length pre))" for pre rest
    using line_parts(1) [of 95 "[]" pre rest] by simp
  then show "reads (str ''_'' @ [13, 10]) (Reply TNull [] 0 0 False [])"
    using reads_line [of 95 "[]" "Reply TNull [] 0 0 False []"]
    by (simp add: aggregateType_def scalar_defs)
qed

lemma reads_bulks:
  shows "is_int64 (int (length s)) \<Longrightarrow> reads (rw_bulk s) (Reply TBulk s 0 0 False [])"
    and "is_int64 (int (length s)) \<Longrightarrow> reads (appendCount 61 (int (length s)) @ s @ [13, 10]) (Reply TVerbatim s 0 0 False [])"
    and "reads (str ''$-1'' @ [13, 10]) (Reply TNull [] 0 0 False [])"
proof -
  show "is_int64 (int (length s)) \<Longrightarrow> reads (rw_bulk s) (Reply TBulk s 0 0 False [])"
    using replyBulk_parts [where c = 36 and s = s and t = TBulk] unfolding rw_bulk_def appendCount_def append_Cons
    by (intro reads_scalar) (simp_all add: aggregateType_def parseScalar_def)
  show "is_int64 (int (length s)) \<Longrightarrow> reads (appendCount 61 (int (length s)) @ s @ [13, 10]) (Reply TVerbatim s 0 0 False [])"
    using replyBulk_parts [where c = 61 and s = s and t = TVerbatim] unfolding appendCount_def append_Cons
    by (intro reads_scalar) (simp_all add: aggregateType_def parseScalar_def)
  have t: "to_string (-1) = [45, 49]" by (simp add: to_string_def nat_digits.simps)
  have pl: "parseLong [45, 49] = Some (-1)" using parseLong_to_string [of "-1"] by (simp add: t is_int64_def)
  have sub: "substr (pre @ c # 45 # 49 # 13 # 10 # rest) (Suc (length pre)) 2 = [45, 49]" for pre c rest by (simp add: substr_def)
  have "replyBulk TBulk (pre @ 36 # 45 # 49 # 13 # 10 # rest) (length pre) =
      Parsed (Reply TNull [] 0 0 False []) (Suc (Suc (Suc (Suc (Suc (length pre))))))" for pre rest
    using line_parts [of 36 "[45, 49]" pre rest] pl sub by (simp add: replyBulk_def)
  then show "reads (str ''$-1'' @ [13, 10]) (Reply TNull [] 0 0 False [])"
    using reads_line [of 36 "[45, 49]" "Reply TNull [] 0 0 False []"]
    by (simp add: aggregateType_def parseScalar_def replyBulk_def)
qed

lemma elements_read:
  "list_all2 reads es rs \<Longrightarrow> length (concat es) \<le> fuel \<Longrightarrow>
   parseElements fuel (length es) (pre @ concat es @ rest) (length pre) acc = Parsed (acc @ rs) (length pre + length (concat es))"
proof (induction es rs arbitrary: pre acc rule: list_all2_induct)
  case (Cons e es r rs)
  have "parseReplyInner fuel (pre @ e @ concat es @ rest) (length pre) = Parsed r (length pre + length e)"
    using readsD(1) [OF Cons.hyps(1), of fuel pre "concat es @ rest"] Cons.prems by simp
  moreover have "parseElements fuel (length es) ((pre @ e) @ concat es @ rest) (length (pre @ e)) (acc @ [r]) =
      Parsed ((acc @ [r]) @ rs) (length (pre @ e) + length (concat es))"
    by (rule Cons.IH) (use Cons.prems in simp)
  ultimately show ?case by simp
qed simp

lemma elements_prefix:
  "list_all2 reads es rs \<Longrightarrow> x @ y = concat es \<Longrightarrow> y \<noteq> [] \<Longrightarrow> length x < fuel \<Longrightarrow>
   parseElements fuel (length es) (pre @ x) (length pre) acc = NeedMore"
proof (induction es rs arbitrary: pre acc x rule: list_all2_induct)
  case (Cons e es r rs)
  have xy: "x @ y = e @ concat es" using Cons.prems(1) by simp
  show ?case
  proof (cases "length x < length e")
    case True
    then have "x = take (length x) e" using xy by (metis append_eq_append_conv_if append_take_drop_id less_imp_le_nat)
    then have "x @ drop (length x) e = e" "drop (length x) e \<noteq> []" using True by (metis append_take_drop_id, simp)
    from readsD(2) [OF Cons.hyps(1) this Cons.prems(3)] show ?thesis by simp
  next
    case False
    then obtain x2 where x2: "x = e @ x2" "x2 @ y = concat es" using xy by (rule append_cover)
    have "parseReplyInner fuel (pre @ e @ x2) (length pre) = Parsed r (length pre + length e)"
      using readsD(1) [OF Cons.hyps(1), of fuel pre x2] Cons.prems(3) x2(1) by simp
    moreover have "parseElements fuel (length es) ((pre @ e) @ x2) (length (pre @ e)) (acc @ [r]) = NeedMore"
      by (rule Cons.IH) (use Cons.prems x2 in simp_all)
    ultimately show ?thesis by (simp add: x2(1))
  qed
qed simp

lemma reads_aggregate:
  assumes "aggregateType c = Some (t, m)" and "c \<noteq> 10" and "is_int64 n" and "0 \<le> n" and "nat (n * m) = length es"
    and es: "list_all2 reads es rs"
  shows "reads (appendCount c n @ concat es) (Reply t [] 0 0 False rs)"
proof -
  let ?l = "c # to_string n @ [13, 10]"
  note lf = line_parts [OF assms(2) to_string_no_lf, of _ n] and pl = parseLong_to_string [OF assms(3)]
  have st: "parseReplyInner (Suc f) (pre @ ?l @ z) (length pre) =
      (case parseElements f (length es) ((pre @ ?l) @ z) (length (pre @ ?l)) [] of
         Parsed es cursor \<Rightarrow> Parsed (Reply t [] 0 0 False es) cursor | NeedMore \<Rightarrow> NeedMore | Violation e \<Rightarrow> Violation e)" for f pre z
    using lf [of pre z] pl assms(1,4,5) by (simp add: parseReplyInner.simps parseAggregate.simps)
  have "parseReplyInner fuel (pre @ (?l @ concat es) @ rest) (length pre) =
      Parsed (Reply t [] 0 0 False rs) (length pre + length (?l @ concat es))" if le: "length (?l @ concat es) \<le> fuel" for fuel pre rest
  proof -
    obtain f where f: "fuel = Suc f" "length (concat es) \<le> f" using le by (cases fuel) auto
    show ?thesis using st [of f pre "concat es @ rest"] elements_read [OF es f(2), of "pre @ ?l" rest "[]"] by (simp add: f(1))
  qed
  moreover have "parseReplyInner fuel (pre @ x) (length pre) = NeedMore"
    if xy: "x @ y = ?l @ concat es" "y \<noteq> []" "length x < fuel" for fuel pre x y
  proof -
    obtain f where f: "fuel = Suc f" "length x \<le> f" using xy(3) by (cases fuel) auto
    show ?thesis
    proof (cases "length x < length ?l")
      case True
      have fc: "findCrlf (pre @ x) (length pre) = None" using line_prefix [OF assms(2) to_string_no_lf xy(1) True] .
      show ?thesis
      proof (cases x)
        case (Cons b bs)
        with xy(1) have "b = c" by simp
        with Cons fc assms(1) show ?thesis by (simp add: f(1) parseReplyInner.simps parseAggregate.simps)
      qed (simp add: f(1) parseReplyInner.simps)
    next
      case False
      then obtain x2 where x2: "x = ?l @ x2" "x2 @ y = concat es" using xy(1) by (rule append_cover)
      have "length x2 < f" using f(2) x2(1) by simp
      from st [of f pre x2] elements_prefix [OF es x2(2) xy(2) this, of "pre @ ?l" "[]"] show ?thesis by (simp add: f(1) x2(1))
    qed
  qed
  ultimately show ?thesis unfolding reads_def appendCount_def by simp
qed

lemma reads_minus_array: "reads (str ''*-1'' @ [13, 10]) (Reply TNull [] 0 0 False [])"
proof -
  have t: "to_string (-1) = [45, 49]" by (simp add: to_string_def nat_digits.simps)
  have pl: "parseLong [45, 49] = Some (-1)" using parseLong_to_string [of "-1"] by (simp add: t is_int64_def)
  have sub: "substr (pre @ c # 45 # 49 # 13 # 10 # rest) (Suc (length pre)) 2 = [45, 49]" for pre c rest by (simp add: substr_def)
  have "parseReplyInner fuel (pre @ 42 # 45 # 49 # 13 # 10 # rest) (length pre) =
      Parsed (Reply TNull [] 0 0 False []) (length pre + 5)" if "5 \<le> fuel" for fuel pre rest
    using line_parts [of 42 "[45, 49]" pre rest] pl sub that
    by (cases fuel) (simp_all add: parseReplyInner.simps parseAggregate.simps aggregateType_def)
  moreover have "parseReplyInner fuel (pre @ x) (length pre) = NeedMore" if xy: "x @ y = [42, 45, 49, 13, 10]" "y \<noteq> []" for fuel pre x y
  proof -
    have "length x < length (42 # [45, 49] @ [13, 10])" using arg_cong [OF xy(1), of length] xy(2) by (cases y) auto
    then have fc: "findCrlf (pre @ x) (length pre) = None" using line_prefix [of 42 "[45, 49]" x y "[]" pre] xy(1) by simp
    show ?thesis
    proof (cases fuel)
      case (Suc f)
      show ?thesis
      proof (cases x)
        case (Cons b bs)
        with xy(1) have "b = 42" by simp
        with Cons fc Suc show ?thesis by (simp add: parseReplyInner.simps parseAggregate.simps aggregateType_def)
      qed (simp add: Suc parseReplyInner.simps)
    qed (simp add: parseReplyInner.simps)
  qed
  ultimately show ?thesis by (simp add: reads_def)
qed

lemma emit_reads: "emit_ok v r \<Longrightarrow> reads (rw_emit v r) (as_read v r)"
proof (induction r)
  case (Reply t s n d b es)
  have kids: "list_all2 reads (map (rw_emit v) es) (map (as_read v) es)" if "list_all (emit_ok v) es"
    using that Reply.IH by (auto simp: list_all2_conv_all_nth list_all_length)
  have agg: "reads (appendCount c k @ concat (map (rw_emit v) es)) (Reply t' [] 0 0 False (map (as_read v) es))"
    if "aggregateType c = Some (t', m)" "c \<noteq> 10" "0 \<le> k" "k * m = int (length es)" "0 < m" "is_int64 (int (length es))" "list_all (emit_ok v) es"
    for c k t' m
  proof (rule reads_aggregate [OF that(1,2) _ that(3) _ kids [OF that(7)]])
    have "k \<le> k * m" using that(3,5) by (simp add: mult_le_cancel_left1)
    then show "is_int64 k" using that(3,4,6) by (simp add: is_int64_def)
  qed (use that(4) in simp)
  have "reads (str '':1'' @ [13, 10]) (Reply TInteger [] 1 0 False [])" "reads (str '':0'' @ [13, 10]) (Reply TInteger [] 0 0 False [])"
    using reads_lines(4) [of 1] reads_lines(4) [of 0]
    by (simp_all add: is_int64_def rw_integer_def appendCount_def to_string_def nat_digits.simps)
  note atoms = this [simplified] reads_lines(6,7,8) [simplified] reads_bulks(3) [simplified] reads_minus_array [simplified]
  note [simp] = aggregateType_def
  show ?case
  proof (cases t)
    case TMap
    then have "int (length es) div 2 * 2 = int (length es)" using Reply.prems by (simp add: even_iff_mod_2_eq_zero flip: minus_mod_eq_div_mult) presburger
    with TMap Reply.prems agg [of 37 TMap 2 "int (length es) div 2"] agg [of 42 TArray 1 "int (length es)"] show ?thesis
      by (simp add: rw_mapHeader_def)
  next
    case TVerbatim
    with Reply.prems reads_bulks(1) [of s] reads_bulks(2) [of "str ''txt:'' @ s"] show ?thesis
      by (simp add: rw_verbatim_def is_int64_def add.commute [of 4])
  qed (use Reply.prems in \<open>simp_all add: reads_lines reads_bulks atoms rw_nullArray_def rw_nullBulk_def rw_boolean_def
      rw_doubleValue_def rw_bigNumber_def rw_arrayHeader_def rw_setHeader_def rw_pushHeader_def plain_double_text plain_double_fits agg [where m = 1] split: if_splits\<close>)
qed

section \<open>Properties\<close>

text \<open>C24: What the server writes, the client reads: a reply tree written with the calls of \<open>ReplyWriter\<close> in
  either protocol version is parsed back, from any position and with any bytes behind it, to the tree
  as the protocol version presents it, consuming exactly its bytes; on every proper prefix
  of them the parser asks for more and reports no error. The doubles of the tree are integers up to
  \<open>2 ^ 62\<close> in size, zeros of either sign, infinities and NaN.\<close>

theorem reply_roundtrip:
  assumes "emit_ok v r"
  shows "parseReply (pre @ rw_emit v r @ rest) (length pre) = Parsed (as_read v r) (length pre + length (rw_emit v r)) \<and>
    (\<forall>x y. x @ y = rw_emit v r \<and> y \<noteq> [] \<longrightarrow> parseReply (pre @ x) (length pre) = NeedMore)"
  using readsD [OF emit_reads [OF assms]] by (auto simp: parseReply_def)

theorem reply_roundtrip_witness:
  "parseReply (str ''*2'' @ [13, 10] @ str ''$1'' @ [13, 10] @ str ''a'' @ [13, 10] @ str '':5'' @ [13, 10]) 0 =
     Parsed (Reply TArray [] 0 0 False [Reply TBulk (str ''a'') 0 0 False [], Reply TInteger [] 5 0 False []]) 15"
proof -
  let ?r = "Reply TArray [] 0 0 False [Reply TBulk (str ''a'') 0 0 False [], Reply TInteger [] 5 0 False []]"
  have ok: "emit_ok 3 ?r" by (simp add: is_int64_def)
  have e: "rw_emit 3 ?r = str ''*2'' @ [13, 10] @ str ''$1'' @ [13, 10] @ str ''a'' @ [13, 10] @ str '':5'' @ [13, 10]"
    by (simp add: rw_arrayHeader_def rw_bulk_def rw_integer_def appendCount_def to_string_def nat_digits.simps)
  have l: "length (rw_emit 3 ?r) = 15" unfolding e by simp
  from reply_roundtrip [OF ok, of "[]" "[]"] show ?thesis unfolding l unfolding e by simp
qed

end
