(* ===== verification/Kafka_Wire.thy ===== *)
theory Kafka_Wire
  imports Prelude
begin

text \<open>
  Model of \<open>src/kafka/wire.h\<close> and \<open>wire.cpp\<close>: the bounds-checked reader with its sticky failure
  flag, and the writer. Signed fields are integers, cut to their width when written and
  sign-extended when read; the accumulator of the variable-length integers is a 64-bit word, whose
  shifts drop the bits that do not fit. A reader call returns the value and the reader; a
  writer call is the bytes it appends.
\<close>

section \<open>Constants\<close>

datatype ApiKey = Produce | Fetch | ListOffsets | Metadata | ApiVersions

fun apiKeyValue :: "ApiKey \<Rightarrow> int" where
  "apiKeyValue Produce = 0"
| "apiKeyValue Fetch = 1"
| "apiKeyValue ListOffsets = 2"
| "apiKeyValue Metadata = 3"
| "apiKeyValue ApiVersions = 18"

datatype ErrorCode =
  NoError | OffsetOutOfRange | UnknownTopicOrPartition | UnsupportedVersion | InvalidRequest | KafkaStorageError
  | UnsupportedCompression

fun errorCodeValue :: "ErrorCode \<Rightarrow> int" where
  "errorCodeValue NoError = 0"
| "errorCodeValue OffsetOutOfRange = 1"
| "errorCodeValue UnknownTopicOrPartition = 3"
| "errorCodeValue UnsupportedVersion = 35"
| "errorCodeValue InvalidRequest = 42"
| "errorCodeValue KafkaStorageError = 56"
| "errorCodeValue UnsupportedCompression = 76"

section \<open>Reader\<close>

record Reader =
  rd_buf :: bytes
  rd_pos :: nat
  rd_ok :: bool

definition rd_new :: "bytes \<Rightarrow> Reader" where
  "rd_new buf = \<lparr>rd_buf = buf, rd_pos = 0, rd_ok = True\<rparr>"

definition rd_remaining :: "Reader \<Rightarrow> nat" where
  "rd_remaining r = (if rd_ok r then length (rd_buf r) - rd_pos r else 0)"

definition rd_need :: "nat \<Rightarrow> Reader \<Rightarrow> bool \<times> Reader" where
  "rd_need n r =
     (if \<not> rd_ok r then (False, r)
      else if length (rd_buf r) - rd_pos r < n then (False, r\<lparr>rd_ok := False\<rparr>)
      else (True, r))"

text \<open>The big-endian value of the bytes \<open>p[0], p[1], \<dots>\<close>, and the next \<open>n\<close> bytes read so; zero when
  they are not there.\<close>

definition be_value :: "bytes \<Rightarrow> int" where
  "be_value bs = le_value (rev bs)"

definition rd_big :: "nat \<Rightarrow> Reader \<Rightarrow> int \<times> Reader" where
  "rd_big n r =
     (case rd_need n r of
        (False, r') \<Rightarrow> (0, r')
      | (True, r') \<Rightarrow> (be_value (take n (drop (rd_pos r') (rd_buf r'))), r'\<lparr>rd_pos := rd_pos r' + n\<rparr>))"

definition rd_int8 :: "Reader \<Rightarrow> int \<times> Reader" where
  "rd_int8 r = apfst (signed_take_bit 7) (rd_big 1 r)"

definition rd_int16 :: "Reader \<Rightarrow> int \<times> Reader" where
  "rd_int16 r = apfst (signed_take_bit 15) (rd_big 2 r)"

definition rd_uint32 :: "Reader \<Rightarrow> int \<times> Reader" where
  "rd_uint32 r = rd_big 4 r"

definition rd_int32 :: "Reader \<Rightarrow> int \<times> Reader" where
  "rd_int32 r = apfst (signed_take_bit 31) (rd_uint32 r)"

definition rd_int64 :: "Reader \<Rightarrow> int \<times> Reader" where
  "rd_int64 r = apfst (signed_take_bit 63) (rd_big 8 r)"

definition rd_boolean :: "Reader \<Rightarrow> bool \<times> Reader" where
  "rd_boolean r = apfst (\<lambda>v. v \<noteq> 0) (rd_int8 r)"

definition unzigzag :: "64 word \<Rightarrow> 64 word" where
  "unzigzag raw = drop_bit 1 raw XOR - (raw AND 1)"

function rdVarlongLoop :: "64 word \<Rightarrow> nat \<Rightarrow> Reader \<Rightarrow> int \<times> Reader" where
  "rdVarlongLoop raw shift r =
     (case rd_need 1 r of
        (False, r') \<Rightarrow> (0, r')
      | (True, r') \<Rightarrow>
          let b = rd_buf r' ! rd_pos r';
              r2 = r'\<lparr>rd_pos := rd_pos r' + 1\<rparr>;
              raw' = raw OR push_bit shift (ucast (b AND 0x7f))
          in if b AND 0x80 = 0 then (sint (unzigzag raw'), r2)
             else if shift + 7 > 63 then (0, r2\<lparr>rd_ok := False\<rparr>)
             else rdVarlongLoop raw' (shift + 7) r2)"
  by pat_completeness auto
termination
  by (relation "measure (\<lambda>(raw, shift, r). 64 - shift)") auto

declare rdVarlongLoop.simps [simp del]

definition rd_varlong :: "Reader \<Rightarrow> int \<times> Reader" where
  "rd_varlong r = rdVarlongLoop 0 0 r"

definition rd_varint :: "Reader \<Rightarrow> int \<times> Reader" where
  "rd_varint r =
     (case rd_varlong r of
        (v, r') \<Rightarrow> if v < - 2147483648 \<or> v > 2147483647 then (0, r'\<lparr>rd_ok := False\<rparr>) else (v, r'))"

text \<open>\<open>None\<close> is the result \<open>false\<close>, for null and for a failed read.\<close>

definition rd_nullableString :: "Reader \<Rightarrow> bytes option \<times> Reader" where
  "rd_nullableString r =
     (case rd_int16 r of
        (len, r1) \<Rightarrow>
          if \<not> rd_ok r1 \<or> len < 0 then (None, r1)
          else (case rd_need (nat len) r1 of
                  (False, r2) \<Rightarrow> (None, r2)
                | (True, r2) \<Rightarrow>
                    (Some (take (nat len) (drop (rd_pos r2) (rd_buf r2))), r2\<lparr>rd_pos := rd_pos r2 + nat len\<rparr>)))"

definition rd_string :: "Reader \<Rightarrow> bytes \<times> Reader" where
  "rd_string r = apfst (\<lambda>s. case s of None \<Rightarrow> [] | Some v \<Rightarrow> v) (rd_nullableString r)"

definition rd_nullableBytes :: "Reader \<Rightarrow> bytes option \<times> Reader" where
  "rd_nullableBytes r =
     (case rd_int32 r of
        (len, r1) \<Rightarrow>
          if \<not> rd_ok r1 \<or> len < 0 then (None, r1)
          else (case rd_need (nat len) r1 of
                  (False, r2) \<Rightarrow> (None, r2)
                | (True, r2) \<Rightarrow>
                    (Some (take (nat len) (drop (rd_pos r2) (rd_buf r2))), r2\<lparr>rd_pos := rd_pos r2 + nat len\<rparr>)))"

text \<open>The count, whether it was negative, and the reader.\<close>

definition rd_arrayLen :: "Reader \<Rightarrow> int \<times> bool \<times> Reader" where
  "rd_arrayLen r =
     (case rd_int32 r of
        (n, r1) \<Rightarrow>
          if n < 0 then (0, True, r1)
          else if nat n > rd_remaining r1 then (0, False, r1\<lparr>rd_ok := False\<rparr>)
          else (n, False, r1))"

definition rd_skip :: "nat \<Rightarrow> Reader \<Rightarrow> Reader" where
  "rd_skip n r = (case rd_need n r of (False, r') \<Rightarrow> r' | (True, r') \<Rightarrow> r'\<lparr>rd_pos := rd_pos r' + n\<rparr>)"

definition rd_takeView :: "nat \<Rightarrow> Reader \<Rightarrow> bytes option \<times> Reader" where
  "rd_takeView n r =
     (case rd_need n r of
        (False, r') \<Rightarrow> (None, r')
      | (True, r') \<Rightarrow> (Some (take n (drop (rd_pos r') (rd_buf r'))), r'\<lparr>rd_pos := rd_pos r' + n\<rparr>))"

text \<open>\<open>Some (view, is_null)\<close> when the call returns true.\<close>

definition rd_varintBytes :: "Reader \<Rightarrow> (bytes \<times> bool) option \<times> Reader" where
  "rd_varintBytes r =
     (case rd_varint r of
        (len, r1) \<Rightarrow>
          if \<not> rd_ok r1 then (None, r1)
          else if len < 0 then (Some ([], True), r1)
          else apfst (map_option (\<lambda>v. (v, False))) (rd_takeView (nat len) r1))"

section \<open>Writer\<close>

definition be_bytes :: "nat \<Rightarrow> int \<Rightarrow> bytes" where
  "be_bytes n v = rev (le_bytes n v)"

definition wr_int8 :: "int \<Rightarrow> bytes" where
  "wr_int8 v = be_bytes 1 v"

definition wr_int16 :: "int \<Rightarrow> bytes" where
  "wr_int16 v = be_bytes 2 v"

definition wr_uint32 :: "int \<Rightarrow> bytes" where
  "wr_uint32 v = be_bytes 4 v"

definition wr_int32 :: "int \<Rightarrow> bytes" where
  "wr_int32 v = wr_uint32 (take_bit 32 v)"

definition wr_int64 :: "int \<Rightarrow> bytes" where
  "wr_int64 v = be_bytes 8 v"

definition wr_boolean :: "bool \<Rightarrow> bytes" where
  "wr_boolean v = wr_int8 (if v then 1 else 0)"

definition zigzag :: "64 word \<Rightarrow> 64 word" where
  "zigzag v = push_bit 1 v XOR signed_drop_bit 63 v"

function wrVarlongLoop :: "64 word \<Rightarrow> bytes" where
  "wrVarlongLoop raw =
     (if raw \<ge> 0x80 then ucast ((raw AND 0x7f) OR 0x80) # wrVarlongLoop (drop_bit 7 raw) else [ucast raw])"
  by pat_completeness auto
termination
  by (relation "measure unat") (auto simp: word_le_nat_alt drop_bit_eq_div unat_div)

declare wrVarlongLoop.simps [simp del]

definition wr_varlong :: "int \<Rightarrow> bytes" where
  "wr_varlong v = wrVarlongLoop (zigzag (word_of_int v))"

definition wr_varint :: "int \<Rightarrow> bytes" where
  "wr_varint v = wr_varlong v"

definition wr_string :: "bytes \<Rightarrow> bytes" where
  "wr_string v = wr_int16 (int (length v)) @ v"

definition wr_nullString :: bytes where
  "wr_nullString = wr_int16 (- 1)"

definition wr_nullableString :: "bytes \<Rightarrow> bool \<Rightarrow> bytes" where
  "wr_nullableString v is_null = (if is_null then wr_nullString else wr_string v)"

definition wr_bytes :: "bytes \<Rightarrow> bytes" where
  "wr_bytes v = wr_int32 (int (length v)) @ v"

definition wr_nullBytes :: bytes where
  "wr_nullBytes = wr_int32 (- 1)"

definition wr_arrayLen :: "int \<Rightarrow> bytes" where
  "wr_arrayLen n = wr_int32 n"

definition wr_errorCode :: "ErrorCode \<Rightarrow> bytes" where
  "wr_errorCode e = wr_int16 (errorCodeValue e)"

definition wr_patchUint32 :: "nat \<Rightarrow> int \<Rightarrow> bytes \<Rightarrow> bytes" where
  "wr_patchUint32 at u buf = take at buf @ be_bytes 4 u @ drop (at + 4) buf"

definition wr_patchInt32 :: "nat \<Rightarrow> int \<Rightarrow> bytes \<Rightarrow> bytes" where
  "wr_patchInt32 at v buf = wr_patchUint32 at (take_bit 32 v) buf"

section \<open>Request header\<close>

record RequestHeader =
  rh_api_key :: int
  rh_api_version :: int
  rh_correlation_id :: int
  rh_client_id :: bytes

definition parseRequestHeader :: "Reader \<Rightarrow> (bool \<times> RequestHeader) \<times> Reader" where
  "parseRequestHeader r =
     (let (key, r1) = rd_int16 r;
          (version, r2) = rd_int16 r1;
          (corr, r3) = rd_int32 r2;
          (client, r4) = rd_nullableString r3
      in ((rd_ok r4,
           \<lparr>rh_api_key = key, rh_api_version = version, rh_correlation_id = corr,
            rh_client_id = (case client of None \<Rightarrow> [] | Some s \<Rightarrow> s)\<rparr>), r4))"

section \<open>Reading what was written\<close>

text \<open>A reader with the bytes \<open>pre\<close> behind it and \<open>rest\<close> in front of it.\<close>

definition rd_at :: "bytes \<Rightarrow> bytes \<Rightarrow> Reader" where
  "rd_at pre rest = \<lparr>rd_buf = pre @ rest, rd_pos = length pre, rd_ok = True\<rparr>"

lemma rd_new_at: "rd_new buf = rd_at [] buf"
  by (simp add: rd_new_def rd_at_def)

lemma rd_at_simps [simp]: "rd_ok (rd_at pre rest)" "rd_pos (rd_at pre rest) = length pre" "rd_remaining (rd_at pre rest) = length rest"
  by (simp_all add: rd_at_def rd_remaining_def)

lemma length_be_bytes [simp]: "length (be_bytes n v) = n"
  by (simp add: be_bytes_def)

lemma length_wr [simp]:
  "length (wr_int8 v) = 1" "length (wr_int16 v) = 2" "length (wr_uint32 v) = 4" "length (wr_int32 v) = 4" "length (wr_int64 v) = 8"
  by (simp_all add: wr_int8_def wr_int16_def wr_uint32_def wr_int32_def wr_int64_def)

lemma rd_need_at: "rd_need n (rd_at pre rest) = (if length rest < n then (False, (rd_at pre rest)\<lparr>rd_ok := False\<rparr>) else (True, rd_at pre rest))"
  by (simp add: rd_need_def rd_at_def)

lemma rd_at_advance: "(rd_at pre (x @ rest))\<lparr>rd_pos := length pre + length x\<rparr> = rd_at (pre @ x) rest"
  by (simp add: rd_at_def)

lemma rd_big_at: "rd_big n (rd_at pre (be_bytes n v @ rest)) = (take_bit (8 * n) v, rd_at (pre @ be_bytes n v) rest)"
  using rd_at_advance [of pre "be_bytes n v" rest]
  by (simp add: rd_big_def rd_need_at) (simp add: rd_at_def be_value_def be_bytes_def le_value_le_bytes)

lemma rd_fixed:
  "- 128 \<le> v \<Longrightarrow> v < 128 \<Longrightarrow> rd_int8 (rd_at pre (wr_int8 v @ rest)) = (v, rd_at (pre @ wr_int8 v) rest)"
  "- 32768 \<le> v \<Longrightarrow> v < 32768 \<Longrightarrow> rd_int16 (rd_at pre (wr_int16 v @ rest)) = (v, rd_at (pre @ wr_int16 v) rest)"
  "0 \<le> v \<Longrightarrow> v < 4294967296 \<Longrightarrow> rd_uint32 (rd_at pre (wr_uint32 v @ rest)) = (v, rd_at (pre @ wr_uint32 v) rest)"
  "- 2147483648 \<le> v \<Longrightarrow> v < 2147483648 \<Longrightarrow> rd_int32 (rd_at pre (wr_int32 v @ rest)) = (v, rd_at (pre @ wr_int32 v) rest)"
  "is_int64 v \<Longrightarrow> rd_int64 (rd_at pre (wr_int64 v @ rest)) = (v, rd_at (pre @ wr_int64 v) rest)"
  using signed_take_bit_fits [of 7 v 8] signed_take_bit_fits [of 15 v 16] signed_take_bit_fits [of 31 v 32]
    signed_take_bit_fits [of 63 v 64] take_bit_fits [of v 32]
  by (simp_all add: rd_int8_def rd_int16_def rd_uint32_def rd_int32_def rd_int64_def wr_int8_def wr_int16_def wr_uint32_def
      wr_int32_def wr_int64_def rd_big_at is_int64_def)

lemma bits7: "bit (0x7f :: int) n \<longleftrightarrow> n < 7" "bit (0x80 :: int) n \<longleftrightarrow> n = 7"
proof -
  have "(0x7f :: int) = mask 7" "(0x80 :: int) = 2 ^ 7" by (simp_all add: mask_eq_exp_minus_1)
  then show "bit (0x7f :: int) n \<longleftrightarrow> n < 7" "bit (0x80 :: int) n \<longleftrightarrow> n = 7" by (simp_all only: bit_mask_iff bit_exp_iff) auto
qed

lemma unzigzag_zigzag: "unzigzag (zigzag v) = v"
proof (rule bit_word_eqI)
  fix n assume n: "n < LENGTH(64)"
  have z: "bit (zigzag v) k \<longleftrightarrow> (0 < k \<and> bit v (k - 1)) \<noteq> bit v 63" if "k < 64" for k
    using that by (simp only: zigzag_def bit_xor_iff bit_push_bit_iff bit_signed_drop_bit_iff) (auto simp: not_le less_Suc_eq)
  have one: "zigzag v AND 1 = (if bit v 63 then 1 else 0)"
  proof (rule bit_word_eqI)
    fix k assume "k < LENGTH(64)"
    then show "bit (zigzag v AND 1) k = bit (if bit v 63 then 1 else 0 :: 64 word) k"
      using z [of 0] by (cases "k = 0") (auto simp: bit_simps)
  qed
  show "bit (unzigzag (zigzag v)) n = bit v n"
  proof (cases "bit v 63")
    case True
    then have "unzigzag (zigzag v) = NOT (drop_bit 1 (zigzag v))" by (simp add: unzigzag_def one)
    then show ?thesis using n z [of "Suc n"] True bit_imp_le_length [of "zigzag v" 64] by (cases "n = 63") (auto simp: bit_simps)
  next
    case False
    then have "unzigzag (zigzag v) = drop_bit 1 (zigzag v)" by (simp add: unzigzag_def one)
    then show ?thesis using n z [of "Suc n"] False bit_imp_le_length [of "zigzag v" 64] by (cases "n = 63") (auto simp: bit_simps)
  qed
qed

lemma low7: "ucast ((ucast ((raw AND 0x7f) OR 0x80) :: byte) AND 0x7f) = raw AND 0x7f"
  "(ucast ((raw AND 0x7f) OR 0x80) :: byte) AND 0x80 \<noteq> 0" for raw :: "64 word"
proof -
  show "ucast ((ucast ((raw AND 0x7f) OR 0x80) :: byte) AND 0x7f) = raw AND 0x7f"
    by (rule bit_word_eqI) (auto simp: bit_simps bits7)
  have "bit ((ucast ((raw AND 0x7f) OR 0x80) :: byte) AND 0x80) 7" by (simp add: bit_simps bits7)
  then show "(ucast ((raw AND 0x7f) OR 0x80) :: byte) AND 0x80 \<noteq> 0" by force
qed

lemma small7:
  assumes "raw < (0x80 :: 64 word)"
  shows "ucast ((ucast raw :: byte) AND 0x7f) = raw" "(ucast raw :: byte) AND 0x80 = 0"
proof -
  have "raw AND mask 7 = raw" using assms by (intro less_mask_eq) simp
  then have b: "bit raw k \<Longrightarrow> k < 7" for k by (metis bit_and_iff bit_mask_iff)
  show "ucast ((ucast raw :: byte) AND 0x7f) = raw"
    by (rule bit_word_eqI) (use b in \<open>auto simp: bit_simps bits7 intro: less_trans\<close>)
  show "(ucast raw :: byte) AND 0x80 = 0" by (rule bit_word_eqI) (use b in \<open>auto simp: bit_simps bits7\<close>)
qed

lemma rdVarlongLoop_at:
  "unat raw < 2 ^ (64 - shift) \<Longrightarrow> shift < 64 \<Longrightarrow>
   rdVarlongLoop acc shift (rd_at pre (wrVarlongLoop raw @ rest)) =
     (sint (unzigzag (acc OR push_bit shift raw)), rd_at (pre @ wrVarlongLoop raw) rest)"
proof (induction raw arbitrary: acc shift pre rule: wrVarlongLoop.induct)
  case (1 raw)
  show ?case
  proof (cases "raw \<ge> 0x80")
    case True
    let ?b = "ucast ((raw AND 0x7f) OR 0x80) :: byte"
    have w: "wrVarlongLoop raw = ?b # wrVarlongLoop (drop_bit 7 raw)" using True by (subst wrVarlongLoop.simps) simp
    have "\<not> 64 - shift < 8"
    proof
      assume "64 - shift < 8"
      then have "(2 :: nat) ^ (64 - shift) \<le> 2 ^ 7" by (intro power_increasing) auto
      with 1(2) True show False by (simp add: word_le_nat_alt)
    qed
    then have sh: "\<not> shift + 7 > 63" by simp
    have lt: "unat (drop_bit 7 raw) < 2 ^ (64 - (shift + 7))"
    proof -
      have "(2 :: nat) ^ (64 - shift) = 128 * 2 ^ (64 - (shift + 7))" using sh power_add [of "2 :: nat" 7 "64 - (shift + 7)"] by simp
      with 1(2) show ?thesis by (simp add: drop_bit_eq_div unat_div)
    qed
    have step: "rdVarlongLoop acc shift (rd_at pre (wrVarlongLoop raw @ rest)) =
        rdVarlongLoop (acc OR push_bit shift (raw AND 0x7f)) (shift + 7) (rd_at (pre @ [?b]) (wrVarlongLoop (drop_bit 7 raw) @ rest))"
      using sh low7 [of raw] unfolding w
      by (subst rdVarlongLoop.simps) (simp add: rd_need_at Let_def, simp add: rd_at_def)
    have or: "(acc OR push_bit shift (raw AND 0x7f)) OR push_bit (shift + 7) (drop_bit 7 raw) = acc OR push_bit shift raw"
    proof (rule bit_word_eqI)
      fix n assume "n < LENGTH(64)"
      show "bit ((acc OR push_bit shift (raw AND 0x7f)) OR push_bit (shift + 7) (drop_bit 7 raw)) n = bit (acc OR push_bit shift raw) n"
        by (cases "n < shift + 7") (auto simp: bit_simps bits7)
    qed
    show ?thesis unfolding step using 1(1) [OF True lt, of "acc OR push_bit shift (raw AND 0x7f)" "pre @ [?b]"] sh w or by simp
  next
    case False
    then have w: "wrVarlongLoop raw = [ucast raw]" by (subst wrVarlongLoop.simps) simp
    show ?thesis using small7 [of raw] False unfolding w
      by (subst rdVarlongLoop.simps) (simp add: rd_need_at Let_def not_le, simp add: rd_at_def)
  qed
qed

lemma rd_varlong_at: "is_int64 v \<Longrightarrow> rd_varlong (rd_at pre (wr_varlong v @ rest)) = (v, rd_at (pre @ wr_varlong v) rest)"
proof -
  assume v: "is_int64 v"
  have "unat (zigzag (word_of_int v)) < 2 ^ 64" using unsigned_less [of "zigzag (word_of_int v)", where 'a = nat] by simp
  then have "rd_varlong (rd_at pre (wr_varlong v @ rest)) =
      (sint (unzigzag (zigzag (word_of_int v))), rd_at (pre @ wr_varlong v) rest)"
    using rdVarlongLoop_at [of "zigzag (word_of_int v)" 0 0 pre rest] by (simp add: rd_varlong_def wr_varlong_def)
  moreover have "sint (word_of_int v :: 64 word) = v"
    using v by (simp add: is_int64_def sint_sbintrunc' signed_take_bit_int_eq_self)
  ultimately show ?thesis by (simp add: unzigzag_zigzag)
qed

lemma rd_varint_at:
  "- 2147483648 \<le> v \<Longrightarrow> v \<le> 2147483647 \<Longrightarrow> rd_varint (rd_at pre (wr_varint v @ rest)) = (v, rd_at (pre @ wr_varint v) rest)"
  using rd_varlong_at [of v pre rest] by (simp add: rd_varint_def wr_varint_def is_int64_def)

lemma rd_takeView_at: "rd_takeView (length x) (rd_at pre (x @ rest)) = (Some x, rd_at (pre @ x) rest)"
  using rd_at_advance [of pre x rest] by (simp add: rd_takeView_def rd_need_at) (simp add: rd_at_def)

lemma rd_nullableString_at:
  "length s < 32768 \<Longrightarrow> rd_nullableString (rd_at pre (wr_string s @ rest)) = (Some s, rd_at (pre @ wr_string s) rest)"
  "rd_nullableString (rd_at pre (wr_nullString @ rest)) = (None, rd_at (pre @ wr_nullString) rest)"
  using rd_at_advance [of "pre @ wr_int16 (int (length s))" s rest]
  by (simp_all add: rd_nullableString_def wr_string_def wr_nullString_def rd_fixed rd_need_at) (simp add: rd_at_def)

lemma rd_nullableBytes_at:
  "length s < 2147483648 \<Longrightarrow> rd_nullableBytes (rd_at pre (wr_bytes s @ rest)) = (Some s, rd_at (pre @ wr_bytes s) rest)"
  "rd_nullableBytes (rd_at pre (wr_nullBytes @ rest)) = (None, rd_at (pre @ wr_nullBytes) rest)"
  using rd_at_advance [of "pre @ wr_int32 (int (length s))" s rest]
  by (simp_all add: rd_nullableBytes_def wr_bytes_def wr_nullBytes_def rd_fixed rd_need_at) (simp add: rd_at_def)

lemma rd_varintBytes_at:
  "length x < 2147483648 \<Longrightarrow> rd_varintBytes (rd_at pre (wr_varint (int (length x)) @ x @ rest)) =
     (Some (x, False), rd_at (pre @ wr_varint (int (length x)) @ x) rest)"
  "rd_varintBytes (rd_at pre (wr_varint (- 1) @ rest)) = (Some ([], True), rd_at (pre @ wr_varint (- 1)) rest)"
  using rd_takeView_at [of x "pre @ wr_varint (int (length x))" rest]
  by (simp_all add: rd_varintBytes_def rd_varint_at)

lemma rd_nullable_string_at:
  "length s < 32768 \<Longrightarrow> rd_nullableString (rd_at pre (wr_nullableString s is_null @ rest)) =
     (if is_null then None else Some s, rd_at (pre @ wr_nullableString s is_null) rest)"
  by (simp add: wr_nullableString_def rd_nullableString_at)

section \<open>Reading anything\<close>

text \<open>What a call may do to a reader: the buffer stays, the position moves forward inside it, and a
  failure is never undone.\<close>

definition rd_moves :: "Reader \<Rightarrow> Reader \<Rightarrow> bool" where
  "rd_moves r r' \<longleftrightarrow> rd_buf r' = rd_buf r \<and> rd_pos r \<le> rd_pos r' \<and> rd_pos r' \<le> length (rd_buf r) \<and>
     (\<not> rd_ok r \<longrightarrow> \<not> rd_ok r' \<and> rd_pos r' = rd_pos r)"

named_theorems reader_moves \<open>every reader call moves the reader\<close>

lemma rd_moves_trans: "rd_moves r r' \<Longrightarrow> rd_moves r' r'' \<Longrightarrow> rd_moves r r''"
  by (auto simp: rd_moves_def)

lemma rd_moves_refl: "rd_pos r \<le> length (rd_buf r) \<Longrightarrow> rd_moves r r"
  by (simp add: rd_moves_def)

lemma rd_moves_fail: "rd_moves r r' \<Longrightarrow> rd_moves r (r'\<lparr>rd_ok := False\<rparr>)"
  by (auto simp: rd_moves_def)

lemma rd_moves_in: "rd_moves r r' \<Longrightarrow> rd_pos r' \<le> length (rd_buf r')"
  by (simp add: rd_moves_def)

lemma rd_need_cases:
  assumes "rd_pos r \<le> length (rd_buf r)"
  obtains "rd_need n r = (True, r)" "rd_ok r" "rd_pos r + n \<le> length (rd_buf r)"
    | r' where "rd_need n r = (False, r')" "rd_moves r r'" "\<not> rd_ok r'"
proof (cases "rd_ok r \<and> rd_pos r + n \<le> length (rd_buf r)")
  case True
  then show thesis by (intro that(1)) (auto simp: rd_need_def)
next
  case False
  then have "rd_need n r = (False, r\<lparr>rd_ok := False\<rparr>)" using assms by (auto simp: rd_need_def)
  then show thesis using assms by (intro that(2)) (auto simp: rd_moves_def)
qed

lemma rd_moves_step: "rd_ok r \<Longrightarrow> rd_pos r + n \<le> length (rd_buf r) \<Longrightarrow> rd_moves r (r\<lparr>rd_pos := rd_pos r + n\<rparr>)"
  by (simp add: rd_moves_def)

lemma rd_big_moves [reader_moves]:
  assumes "rd_pos r \<le> length (rd_buf r)"
  shows "rd_moves r (snd (rd_big n r))"
  using assms by (rule rd_need_cases [where n = n]) (simp_all add: rd_big_def rd_moves_step)

lemma rd_fixed_moves [reader_moves]:
  assumes "rd_pos r \<le> length (rd_buf r)"
  shows "rd_moves r (snd (rd_int8 r))" "rd_moves r (snd (rd_int16 r))" "rd_moves r (snd (rd_uint32 r))"
    "rd_moves r (snd (rd_int32 r))" "rd_moves r (snd (rd_int64 r))" "rd_moves r (snd (rd_boolean r))"
  using rd_big_moves [OF assms]
  by (simp_all add: rd_int8_def rd_int16_def rd_uint32_def rd_int32_def rd_int64_def rd_boolean_def)

lemma rdVarlongLoop_moves: "rd_pos r \<le> length (rd_buf r) \<Longrightarrow> rd_moves r (snd (rdVarlongLoop raw shift r))"
proof (induction raw shift r rule: rdVarlongLoop.induct)
  case (1 raw shift r)
  from 1(2) show ?case
  proof (cases rule: rd_need_cases [where n = 1])
    case 1
    note step = rd_moves_step [OF 1(2,3)]
    show ?thesis
      using 1(1) step rd_moves_fail [OF step] "1.IH" [OF 1(1) [symmetric] refl refl refl refl] rd_moves_in [OF step]
      by (subst rdVarlongLoop.simps) (auto simp: Let_def intro: rd_moves_trans)
  next
    case (2 r')
    then show ?thesis by (subst rdVarlongLoop.simps) simp
  qed
qed

lemma rd_varint_moves [reader_moves]:
  assumes "rd_pos r \<le> length (rd_buf r)"
  shows "rd_moves r (snd (rd_varlong r))" "rd_moves r (snd (rd_varint r))"
proof -
  show m: "rd_moves r (snd (rd_varlong r))" using rdVarlongLoop_moves [OF assms] by (simp add: rd_varlong_def)
  then show "rd_moves r (snd (rd_varint r))" by (cases "rd_varlong r") (auto simp: rd_varint_def intro: rd_moves_fail)
qed

lemma rd_takeView_moves [reader_moves]:
  assumes "rd_pos r \<le> length (rd_buf r)"
  shows "rd_moves r (snd (rd_takeView n r))"
  using assms by (rule rd_need_cases [where n = n]) (simp_all add: rd_takeView_def rd_moves_step)

lemma rd_framed_moves [reader_moves]:
  assumes "rd_pos r \<le> length (rd_buf r)"
  shows "rd_moves r (snd (rd_nullableString r))" "rd_moves r (snd (rd_nullableBytes r))" "rd_moves r (snd (rd_string r))"
    "rd_moves r (snd (rd_varintBytes r))" "rd_moves r (rd_skip n r)" "rd_moves r (snd (snd (rd_arrayLen r)))"
proof -
  have need: "rd_moves r (snd (case rd_need m r1 of (False, r2) \<Rightarrow> (None, r2)
      | (True, r2) \<Rightarrow> (Some (take m (drop (rd_pos r2) (rd_buf r2))), r2\<lparr>rd_pos := rd_pos r2 + m\<rparr>)))"
    if "rd_moves r r1" for m r1
    using rd_takeView_moves [OF rd_moves_in [OF that], of m] rd_moves_trans [OF that] by (simp add: rd_takeView_def)
  show s: "rd_moves r (snd (rd_nullableString r))"
    using rd_fixed_moves(2) [OF assms] need by (cases "rd_int16 r") (auto simp: rd_nullableString_def)
  then show "rd_moves r (snd (rd_string r))" by (simp add: rd_string_def)
  show "rd_moves r (snd (rd_nullableBytes r))"
    using rd_fixed_moves(4) [OF assms] need by (cases "rd_int32 r") (auto simp: rd_nullableBytes_def)
  show "rd_moves r (snd (rd_varintBytes r))"
    using rd_varint_moves(2) [OF assms] need by (cases "rd_varint r") (auto simp: rd_varintBytes_def rd_takeView_def)
  show "rd_moves r (rd_skip n r)"
    using assms by (rule rd_need_cases [where n = n]) (simp_all add: rd_skip_def rd_moves_step)
  show "rd_moves r (snd (snd (rd_arrayLen r)))"
    using rd_fixed_moves(4) [OF assms] rd_moves_fail by (cases "rd_int32 r") (auto simp: rd_arrayLen_def)
qed

section \<open>Properties\<close>

text \<open>C28: Whatever bytes a request holds, no call of the reader leaves its buffer: the position only moves
  forward and stays inside, a failed reader stays where it failed, and an array count that is
  accepted is at most the number of bytes left.\<close>

theorem reader_safe:
  assumes "rd_pos r \<le> length (rd_buf r)"
  shows "rd_moves r (snd (rd_int8 r)) \<and> rd_moves r (snd (rd_int16 r)) \<and> rd_moves r (snd (rd_int32 r)) \<and>
    rd_moves r (snd (rd_int64 r)) \<and> rd_moves r (snd (rd_varlong r)) \<and> rd_moves r (snd (rd_varint r)) \<and>
    rd_moves r (snd (rd_nullableString r)) \<and> rd_moves r (snd (rd_nullableBytes r)) \<and> rd_moves r (rd_skip n r) \<and>
    rd_moves r (snd (rd_takeView n r)) \<and> rd_moves r (snd (rd_varintBytes r)) \<and> rd_moves r (snd (parseRequestHeader r)) \<and>
    (case rd_arrayLen r of (cnt, _, r') \<Rightarrow> rd_moves r r' \<and> 0 \<le> cnt \<and> nat cnt \<le> rd_remaining r')"
proof -
  obtain k r1 where 1: "rd_int16 r = (k, r1)" by force
  obtain v r2 where 2: "rd_int16 r1 = (v, r2)" by force
  obtain c r3 where 3: "rd_int32 r2 = (c, r3)" by force
  have m1: "rd_moves r r1" using rd_fixed_moves(2) [OF assms] 1 by simp
  have m2: "rd_moves r1 r2" using rd_fixed_moves(2) [OF rd_moves_in [OF m1]] 2 by simp
  have m3: "rd_moves r2 r3" using rd_fixed_moves(4) [OF rd_moves_in [OF m2]] 3 by simp
  have m4: "rd_moves r3 (snd (rd_nullableString r3))" by (rule rd_framed_moves(1) [OF rd_moves_in [OF m3]])
  have "snd (parseRequestHeader r) = snd (rd_nullableString r3)"
    using 1 2 3 by (simp add: parseRequestHeader_def split: prod.split)
  then have "rd_moves r (snd (parseRequestHeader r))" using m1 m2 m3 m4 by (metis rd_moves_trans)
  moreover have "case rd_arrayLen r of (cnt, _, r') \<Rightarrow> rd_moves r r' \<and> 0 \<le> cnt \<and> nat cnt \<le> rd_remaining r'"
    using rd_fixed_moves(4) [OF assms] by (cases "rd_int32 r") (auto simp: rd_arrayLen_def intro: rd_moves_fail)
  ultimately show ?thesis using reader_moves [OF assms] by simp
qed

theorem reader_safe_witness: "rd_moves (rd_new [0x80, 0x80]) (snd (rd_varlong (rd_new [0x80, 0x80])))"
  using reader_safe [of "rd_new [0x80, 0x80]"] by (simp add: rd_new_def)

text \<open>C29: Every 64-bit value survives the zigzag variable-length encoding, and a request header written
  field by field is read back, its null client id as an empty one, with the reader left at the
  payload.\<close>

theorem wire_roundtrip:
  assumes "is_int64 n" and "- 32768 \<le> key" "key < 32768" and "- 32768 \<le> version" "version < 32768"
    and "- 2147483648 \<le> corr" "corr < 2147483648" and "length client < 32768"
  shows "rd_varlong (rd_at pre (wr_varlong n @ rest)) = (n, rd_at (pre @ wr_varlong n) rest) \<and>
    (let w = wr_int16 key @ wr_int16 version @ wr_int32 corr @ wr_nullableString client is_null
     in parseRequestHeader (rd_at pre (w @ rest)) =
       ((True, \<lparr>rh_api_key = key, rh_api_version = version, rh_correlation_id = corr,
                rh_client_id = (if is_null then [] else client)\<rparr>), rd_at (pre @ w) rest))"
  using assms by (simp add: rd_varlong_at parseRequestHeader_def rd_fixed rd_nullable_string_at)

theorem wire_roundtrip_witness: "fst (rd_varlong (rd_at [] (wr_varlong (- 300)))) = - 300"
  using wire_roundtrip [of "- 300" 0 0 0 "[]" "[]" "[]" False] by (simp add: is_int64_def)

end
