(* ===== verification/Kafka_Records.thy ===== *)
theory Kafka_Records
  imports Kafka_Wire
begin

text \<open>
  Model of \<open>src/kafka/records.h\<close> and \<open>records.cpp\<close>: the CRC-32C of a record batch, batches as a
  producer sends them and a fetch returns them, and the stored form of a single record. A decoder
  returns the error code with the records appended so far, as the source leaves them in its output
  vector. The sum of a base timestamp and a delta is exact here; the source leaves its overflow
  undefined.
\<close>

section \<open>Checksum\<close>

definition crcBit :: "32 word \<Rightarrow> 32 word" where
  "crcBit crc = (if crc AND 1 \<noteq> 0 then drop_bit 1 crc XOR 0x82f63b78 else drop_bit 1 crc)"

definition makeCrc32cTable :: "32 word list" where
  "makeCrc32cTable = map (\<lambda>i. (crcBit ^^ 8) (of_nat i)) [0..<256]"

definition crc32c :: "32 word \<Rightarrow> bytes \<Rightarrow> 32 word" where
  "crc32c crc data =
     NOT (foldl (\<lambda>c b. makeCrc32cTable ! unat ((c XOR ucast b) AND 0xff) XOR drop_bit 8 c) (NOT crc) data)"

section \<open>Records\<close>

definition kMagicV2 :: int where
  "kMagicV2 = 2"

definition kCompressionMask :: int where
  "kCompressionMask = 7"

definition kBatchHeaderSize :: nat where
  "kBatchHeaderSize = 61"

definition kCrcCoverageStart :: nat where
  "kCrcCoverageStart = 21"

record RecordHeader =
  hdr_key :: bytes
  hdr_value :: bytes
  hdr_value_null :: bool

record Record =
  rec_offset :: int
  rec_timestamp :: int
  rec_key :: bytes
  rec_key_null :: bool
  rec_value :: bytes
  rec_value_null :: bool
  rec_headers :: "RecordHeader list"

section \<open>Decoding batches\<close>

fun decodeHeaderLoop :: "nat \<Rightarrow> Reader \<Rightarrow> RecordHeader list \<Rightarrow> (RecordHeader list \<times> Reader) option" where
  "decodeHeaderLoop 0 rec hs = Some (hs, rec)"
| "decodeHeaderLoop (Suc n) rec hs =
     (case rd_varintBytes rec of
        (None, _) \<Rightarrow> None
      | (Some (key, key_null), rec1) \<Rightarrow>
          if key_null then None
          else (case rd_varintBytes rec1 of
                  (None, _) \<Rightarrow> None
                | (Some (v, v_null), rec2) \<Rightarrow>
                    decodeHeaderLoop n rec2 (hs @ [\<lparr>hdr_key = key, hdr_value = v, hdr_value_null = v_null\<rparr>])))"

text \<open>One record from its bytes; \<open>None\<close> is the return of \<open>InvalidRequest\<close>.\<close>

definition decodeRecord :: "int \<Rightarrow> bytes \<Rightarrow> Record option" where
  "decodeRecord base_timestamp rec_bytes =
     (let (_, r1) = rd_int8 (rd_new rec_bytes);
          (delta, r2) = rd_varlong r1;
          (_, r3) = rd_varint r2
      in case rd_varintBytes r3 of
           (None, _) \<Rightarrow> None
         | (Some (key, key_null), r4) \<Rightarrow>
             (case rd_varintBytes r4 of
                (None, _) \<Rightarrow> None
              | (Some (v, v_null), r5) \<Rightarrow>
                  (case rd_varint r5 of
                     (header_count, r6) \<Rightarrow>
                       if \<not> rd_ok r6 \<or> header_count < 0 \<or> nat header_count > rd_remaining r6 then None
                       else (case decodeHeaderLoop (nat header_count) r6 [] of
                               None \<Rightarrow> None
                             | Some (hs, r7) \<Rightarrow>
                                 if \<not> rd_ok r7 then None
                                 else Some \<lparr>rec_offset = 0, rec_timestamp = base_timestamp + delta, rec_key = key,
                                            rec_key_null = key_null, rec_value = v, rec_value_null = v_null,
                                            rec_headers = hs\<rparr>))))"

text \<open>The loop over the records of a batch: whether it ran through, the reader and the output.\<close>

fun decodeRecordLoop :: "nat \<Rightarrow> int \<Rightarrow> Reader \<Rightarrow> Record list \<Rightarrow> bool \<times> Reader \<times> Record list" where
  "decodeRecordLoop 0 base_timestamp area out = (True, area, out)"
| "decodeRecordLoop (Suc n) base_timestamp area out =
     (case rd_varint area of
        (rec_len, area1) \<Rightarrow>
          if \<not> rd_ok area1 \<or> rec_len < 0 then (False, area1, out)
          else (case rd_takeView (nat rec_len) area1 of
                  (None, area2) \<Rightarrow> (False, area2, out)
                | (Some rec_bytes, area2) \<Rightarrow>
                    (case decodeRecord base_timestamp rec_bytes of
                       None \<Rightarrow> (False, area2, out)
                     | Some r_out \<Rightarrow> decodeRecordLoop n base_timestamp area2 (out @ [r_out]))))"

text \<open>One turn of the batch loop: \<open>Inl\<close> is a return, \<open>Inr\<close> the end of the batch and the output.\<close>

definition decodeBatch :: "bytes \<Rightarrow> nat \<Rightarrow> Record list \<Rightarrow> (ErrorCode \<times> Record list) + (nat \<times> Record list)" where
  "decodeBatch blob pos out =
     (if length blob - pos < kBatchHeaderSize then Inl (InvalidRequest, out)
      else
        let (_, r1) = rd_int64 (rd_new (drop pos blob));
            (batch_len, r2) = rd_int32 r1;
            body_start = pos + rd_pos r2;
            batch_end = body_start + nat batch_len
        in if \<not> rd_ok r2 \<or> batch_len < 0 then Inl (InvalidRequest, out)
           else if length blob - body_start < nat batch_len then Inl (InvalidRequest, out)
           else
             let (_, r3) = rd_int32 r2;
                 (magic, r4) = rd_int8 r3;
                 (stated_crc, r5) = rd_uint32 r4;
                 crc_from = pos + kCrcCoverageStart
             in if magic \<noteq> kMagicV2 then Inl (InvalidRequest, out)
                else if \<not> rd_ok r5 \<or> crc_from > batch_end then Inl (InvalidRequest, out)
                else if uint (crc32c 0 (take (batch_end - crc_from) (drop crc_from blob))) \<noteq> stated_crc
                then Inl (KafkaStorageError, out)
                else
                  let (attributes, r6) = rd_int16 r5 in
                  if attributes AND kCompressionMask \<noteq> 0 then Inl (UnsupportedCompression, out)
                  else
                    let (_, r7) = rd_int32 r6;
                        (base_timestamp, r8) = rd_int64 r7;
                        (_, r9) = rd_int64 r8;
                        (_, r10) = rd_int64 r9;
                        (_, r11) = rd_int16 r10;
                        (_, r12) = rd_int32 r11;
                        (cnt, r13) = rd_int32 r12;
                        records_at = pos + rd_pos r13
                    in if \<not> rd_ok r13 \<or> cnt < 0 then Inl (InvalidRequest, out)
                       else if records_at > batch_end then Inl (InvalidRequest, out)
                       else
                         (case decodeRecordLoop (nat cnt) base_timestamp
                                 (rd_new (take (batch_end - records_at) (drop records_at blob))) out of
                            (False, _, out') \<Rightarrow> Inl (InvalidRequest, out')
                          | (True, area, out') \<Rightarrow>
                              if \<not> rd_ok area then Inl (InvalidRequest, out') else Inr (batch_end, out')))"

lemma decodeBatch_progress:
  assumes "decodeBatch blob pos out = Inr (batch_end, out')"
  shows "pos < batch_end"
proof -
  obtain b r1 where 1: "rd_int64 (rd_new (drop pos blob)) = (b, r1)" by force
  obtain l r2 where 2: "rd_int32 r1 = (l, r2)" by force
  have "61 \<le> length blob - pos" using assms by (auto simp: decodeBatch_def kBatchHeaderSize_def split: if_splits)
  then have r1: "r1 = \<lparr>rd_buf = drop pos blob, rd_pos = 8, rd_ok = True\<rparr>"
    using 1 by (auto simp: rd_int64_def rd_big_def rd_need_def rd_new_def)
  have "\<not> length blob - (pos + 8) < 4" using \<open>61 \<le> length blob - pos\<close> by linarith
  then have "rd_pos r2 = 12" using 2 by (auto simp: rd_int32_def rd_uint32_def rd_big_def rd_need_def r1)
  then show ?thesis using assms 1 2
    by (auto simp: decodeBatch_def Let_def split: if_splits prod.splits bool.splits)
qed

function decodeBatchLoop :: "bytes \<Rightarrow> nat \<Rightarrow> Record list \<Rightarrow> ErrorCode \<times> Record list" where
  "decodeBatchLoop blob pos out =
     (if pos < length blob
      then (case decodeBatch blob pos out of
              Inl result \<Rightarrow> result
            | Inr (batch_end, out') \<Rightarrow> decodeBatchLoop blob batch_end out')
      else (NoError, out))"
  by pat_completeness auto
termination
  by (relation "measure (\<lambda>(blob, pos, out). length blob - pos)") (auto dest: decodeBatch_progress intro: diff_less_mono2)

declare decodeBatchLoop.simps [simp del]

definition decodeRecordBatches :: "bytes \<Rightarrow> Record list \<Rightarrow> ErrorCode \<times> Record list" where
  "decodeRecordBatches blob out = decodeBatchLoop blob 0 out"

section \<open>Encoding a batch\<close>

definition wr_varintField :: "bool \<Rightarrow> bytes \<Rightarrow> bytes" where
  "wr_varintField is_null v = (if is_null then wr_varint (- 1) else wr_varint (int (length v)) @ v)"

definition encodeRecordBody :: "int \<Rightarrow> nat \<Rightarrow> Record \<Rightarrow> bytes" where
  "encodeRecordBody base_ts i r =
     wr_int8 0 @ wr_varlong (rec_timestamp r - base_ts) @ wr_varint (int i) @
     wr_varintField (rec_key_null r) (rec_key r) @ wr_varintField (rec_value_null r) (rec_value r) @
     wr_varint (int (length (rec_headers r))) @
     concat (map (\<lambda>h. wr_varint (int (length (hdr_key h))) @ hdr_key h @ wr_varintField (hdr_value_null h) (hdr_value h))
       (rec_headers r))"

fun encodeRecordLoop :: "int \<Rightarrow> nat \<Rightarrow> Record list \<Rightarrow> bytes" where
  "encodeRecordLoop base_ts i [] = []"
| "encodeRecordLoop base_ts i (r # rs) =
     (let body = encodeRecordBody base_ts i r
      in wr_varint (int (length body)) @ body @ encodeRecordLoop base_ts (i + 1) rs)"

definition encodeRecordBatch :: "int \<Rightarrow> Record list \<Rightarrow> bytes" where
  "encodeRecordBatch base_offset records =
     (let w0 = wr_int64 base_offset;
          len_at = length w0;
          w1 = w0 @ wr_int32 0;
          body_start = length w1;
          w2 = w1 @ wr_int32 0 @ wr_int8 kMagicV2;
          crc_at = length w2;
          w3 = w2 @ wr_int32 0;
          crc_start = length w3;
          base_ts = (if records = [] then - 1 else rec_timestamp (hd records));
          max_ts = foldl (\<lambda>m r. if rec_timestamp r > m then rec_timestamp r else m) base_ts records;
          w4 = w3 @ wr_int16 0 @ wr_int32 (if records = [] then 0 else int (length records - 1)) @ wr_int64 base_ts @
               wr_int64 max_ts @ wr_int64 (- 1) @ wr_int16 (- 1) @ wr_int32 (- 1) @ wr_int32 (int (length records)) @
               encodeRecordLoop base_ts 0 records;
          w5 = wr_patchInt32 len_at (int (length w4 - body_start)) w4
      in wr_patchUint32 crc_at (uint (crc32c 0 (drop crc_start w5))) w5)"

section \<open>The stored form\<close>

definition wr_nullable :: "bool \<Rightarrow> bytes \<Rightarrow> bytes" where
  "wr_nullable is_null v = (if is_null then wr_nullBytes else wr_bytes v)"

definition encodeStoredRecord :: "Record \<Rightarrow> bytes" where
  "encodeStoredRecord rec =
     wr_int8 1 @ wr_int64 (rec_timestamp rec) @ wr_nullable (rec_key_null rec) (rec_key rec) @
     wr_nullable (rec_value_null rec) (rec_value rec) @ wr_int32 (int (length (rec_headers rec))) @
     concat (map (\<lambda>h. wr_bytes (hdr_key h) @ wr_nullable (hdr_value_null h) (hdr_value h)) (rec_headers rec))"

definition viewOr :: "bytes option \<Rightarrow> bytes" where
  "viewOr v = (case v of None \<Rightarrow> [] | Some x \<Rightarrow> x)"

fun decodeStoredHeaders :: "nat \<Rightarrow> Reader \<Rightarrow> RecordHeader list \<Rightarrow> (RecordHeader list \<times> Reader) option" where
  "decodeStoredHeaders 0 r hs = Some (hs, r)"
| "decodeStoredHeaders (Suc n) r hs =
     (case rd_nullableBytes r of
        (None, _) \<Rightarrow> None
      | (Some key, r1) \<Rightarrow>
          (case rd_nullableBytes r1 of
             (v, r2) \<Rightarrow>
               decodeStoredHeaders n r2 (hs @ [\<lparr>hdr_key = key, hdr_value = viewOr v, hdr_value_null = (v = None)\<rparr>])))"

text \<open>\<open>None\<close> is the return of false; the offset of the output record is not touched.\<close>

definition decodeStoredRecord :: "bytes \<Rightarrow> Record option" where
  "decodeStoredRecord blob =
     (let (version, r1) = rd_int8 (rd_new blob) in
      if version \<noteq> 1 then None
      else
        let (ts, r2) = rd_int64 r1;
            (key, r3) = rd_nullableBytes r2;
            (v, r4) = rd_nullableBytes r3;
            (headers, r5) = rd_int32 r4
        in if \<not> rd_ok r5 \<or> headers < 0 \<or> nat headers > rd_remaining r5 then None
           else (case decodeStoredHeaders (nat headers) r5 [] of
                   None \<Rightarrow> None
                 | Some (hs, r6) \<Rightarrow>
                     if rd_ok r6
                     then Some \<lparr>rec_offset = 0, rec_timestamp = ts, rec_key = viewOr key, rec_key_null = (key = None),
                                rec_value = viewOr v, rec_value_null = (v = None), rec_headers = hs\<rparr>
                     else None))"

section \<open>Round trips\<close>

text \<open>A record in the form the decoders produce, with sizes that 32-bit lengths can hold.\<close>

definition header_ok :: "RecordHeader \<Rightarrow> bool" where
  "header_ok h \<longleftrightarrow> length (hdr_key h) < 2147483648 \<and> length (hdr_value h) < 2147483648 \<and> (hdr_value_null h \<longrightarrow> hdr_value h = [])"

definition record_ok :: "Record \<Rightarrow> bool" where
  "record_ok r \<longleftrightarrow> is_int64 (rec_timestamp r) \<and> length (rec_key r) < 2147483648 \<and> length (rec_value r) < 2147483648 \<and>
     (rec_key_null r \<longrightarrow> rec_key r = []) \<and> (rec_value_null r \<longrightarrow> rec_value r = []) \<and>
     length (rec_headers r) < 2147483648 \<and> list_all header_ok (rec_headers r)"

lemma rd_nullable_at:
  "length v < 2147483648 \<Longrightarrow> rd_nullableBytes (rd_at pre (wr_nullable is_null v @ rest)) =
     (if is_null then None else Some v, rd_at (pre @ wr_nullable is_null v) rest)"
  by (simp add: wr_nullable_def rd_nullableBytes_at)

lemma rd_varintField_at:
  "length v < 2147483648 \<Longrightarrow> (is_null \<longrightarrow> v = []) \<Longrightarrow> rd_varintBytes (rd_at pre (wr_varintField is_null v @ rest)) =
     (Some (v, is_null), rd_at (pre @ wr_varintField is_null v) rest)"
  by (simp add: wr_varintField_def rd_varintBytes_at)

lemma stored_headers:
  "list_all header_ok hs \<Longrightarrow>
   decodeStoredHeaders (length hs)
     (rd_at pre (concat (map (\<lambda>h. wr_bytes (hdr_key h) @ wr_nullable (hdr_value_null h) (hdr_value h)) hs) @ rest)) acc =
   Some (acc @ hs, rd_at (pre @ concat (map (\<lambda>h. wr_bytes (hdr_key h) @ wr_nullable (hdr_value_null h) (hdr_value h)) hs)) rest)"
proof (induction hs arbitrary: pre acc)
  case (Cons h hs)
  then show ?case by (cases h) (simp add: header_ok_def rd_nullableBytes_at(1) rd_nullable_at viewOr_def)
qed simp

lemma concat_map_length: "(\<And>x. x \<in> set xs \<Longrightarrow> f x \<noteq> []) \<Longrightarrow> length xs \<le> length (concat (map f xs))"
proof (induction xs)
  case (Cons x xs)
  have "1 \<le> length (f x)" using Cons.prems [of x] by (cases "f x") auto
  with Cons show ?case by simp
qed simp

lemma decodeStored_encodeStored:
  assumes "record_ok r"
  shows "decodeStoredRecord (encodeStoredRecord r) = Some (r\<lparr>rec_offset := 0\<rparr>)"
proof -
  let ?hs = "concat (map (\<lambda>h. wr_bytes (hdr_key h) @ wr_nullable (hdr_value_null h) (hdr_value h)) (rec_headers r))"
  note ok = assms [unfolded record_ok_def]
  have n: "length (rec_headers r) \<le> length ?hs"
    by (rule concat_map_length) (simp add: wr_bytes_def length_0_conv [symmetric] del: length_0_conv)
  have "r\<lparr>rec_offset := 0\<rparr> = \<lparr>rec_offset = 0, rec_timestamp = rec_timestamp r,
      rec_key = viewOr (if rec_key_null r then None else Some (rec_key r)), rec_key_null = rec_key_null r,
      rec_value = viewOr (if rec_value_null r then None else Some (rec_value r)), rec_value_null = rec_value_null r,
      rec_headers = rec_headers r\<rparr>"
    using ok by (simp add: viewOr_def)
  moreover have "decodeStoredHeaders (length (rec_headers r)) (rd_at pre ?hs) [] = Some (rec_headers r, rd_at (pre @ ?hs) [])" for pre
    using stored_headers [of "rec_headers r" pre "[]" "[]"] ok by simp
  ultimately show ?thesis
    using ok n rd_fixed(1) [of 1 "[]"] rd_fixed(4) [of "int (length (rec_headers r))" _ ?hs]
    by (simp add: decodeStoredRecord_def encodeStoredRecord_def rd_new_at rd_fixed rd_nullable_at Let_def)
qed

lemma record_headers:
  "list_all header_ok hs \<Longrightarrow>
   decodeHeaderLoop (length hs) (rd_at pre (concat (map (\<lambda>h. wr_varint (int (length (hdr_key h))) @ hdr_key h @
       wr_varintField (hdr_value_null h) (hdr_value h)) hs) @ rest)) acc =
   Some (acc @ hs, rd_at (pre @ concat (map (\<lambda>h. wr_varint (int (length (hdr_key h))) @ hdr_key h @
       wr_varintField (hdr_value_null h) (hdr_value h)) hs)) rest)"
proof (induction hs arbitrary: pre acc)
  case (Cons h hs)
  have "\<lparr>hdr_key = hdr_key h, hdr_value = hdr_value h, hdr_value_null = hdr_value_null h\<rparr> = h" by simp
  with Cons show ?case by (simp add: header_ok_def rd_varintBytes_at(1) rd_varintField_at)
qed simp

lemma wrVarlongLoop_nonempty: "wrVarlongLoop raw \<noteq> []"
  by (subst wrVarlongLoop.simps) simp

lemma wr_varint_nonempty: "wr_varint v \<noteq> []"
  by (simp add: wr_varint_def wr_varlong_def wrVarlongLoop_nonempty)

lemma decodeRecord_encode:
  assumes "record_ok r" and "i < 2147483648" and "is_int64 (rec_timestamp r - base)"
  shows "decodeRecord base (encodeRecordBody base i r) = Some (r\<lparr>rec_offset := 0\<rparr>)"
proof -
  let ?hs = "concat (map (\<lambda>h. wr_varint (int (length (hdr_key h))) @ hdr_key h @
       wr_varintField (hdr_value_null h) (hdr_value h)) (rec_headers r))"
  note ok = assms(1) [unfolded record_ok_def]
  have n: "length (rec_headers r) \<le> length ?hs"
    by (rule concat_map_length) (simp add: wr_varint_nonempty)
  have "decodeHeaderLoop (length (rec_headers r)) (rd_at pre ?hs) [] = Some (rec_headers r, rd_at (pre @ ?hs) [])" for pre
    using record_headers [of "rec_headers r" pre "[]" "[]"] ok by simp
  then show ?thesis
    using ok n assms(2,3) rd_varint_at [of "int (length (rec_headers r))" _ ?hs]
    by (simp add: decodeRecord_def encodeRecordBody_def rd_new_at rd_fixed rd_varlong_at rd_varint_at rd_varintField_at Let_def)
qed

lemma record_loop:
  "list_all record_ok rs \<Longrightarrow> i + length rs \<le> 2147483648 \<Longrightarrow> \<forall>r \<in> set rs. is_int64 (rec_timestamp r - base) \<Longrightarrow>
   length (encodeRecordLoop base i rs) < 2147483648 \<Longrightarrow>
   decodeRecordLoop (length rs) base (rd_at pre (encodeRecordLoop base i rs @ rest)) out =
     (True, rd_at (pre @ encodeRecordLoop base i rs) rest, out @ map (\<lambda>r. r\<lparr>rec_offset := 0\<rparr>) rs)"
proof (induction rs arbitrary: i pre out)
  case (Cons r rs)
  let ?b = "encodeRecordBody base i r"
  have len: "length ?b < 2147483648" using Cons.prems(4) by (simp add: Let_def)
  have "decodeRecord base ?b = Some (r\<lparr>rec_offset := 0\<rparr>)" using Cons.prems by (intro decodeRecord_encode) simp_all
  moreover have "rd_varint (rd_at pre (wr_varint (int (length ?b)) @ ?b @ encodeRecordLoop base (i + 1) rs @ rest)) =
      (int (length ?b), rd_at (pre @ wr_varint (int (length ?b))) (?b @ encodeRecordLoop base (i + 1) rs @ rest))"
    using len by (intro rd_varint_at) simp_all
  moreover note rd_takeView_at [of ?b "pre @ wr_varint (int (length ?b))" "encodeRecordLoop base (i + 1) rs @ rest"]
  ultimately show ?case
    using Cons.IH [of "i + 1" "pre @ wr_varint (int (length ?b)) @ ?b" "out @ [r\<lparr>rec_offset := 0\<rparr>]"] Cons.prems
    by (simp add: Let_def)
qed simp

text \<open>A batch without its patches: the length and the checksum in place, \<open>tail\<close> the bytes the checksum covers.\<close>

definition batchTail :: "int \<Rightarrow> int \<Rightarrow> Record list \<Rightarrow> bytes" where
  "batchTail base_ts max_ts records =
     wr_int16 0 @ wr_int32 (if records = [] then 0 else int (length records - 1)) @ wr_int64 base_ts @
     wr_int64 max_ts @ wr_int64 (- 1) @ wr_int16 (- 1) @ wr_int32 (- 1) @ wr_int32 (int (length records)) @
     encodeRecordLoop base_ts 0 records"

definition baseTs :: "Record list \<Rightarrow> int" where
  "baseTs records = (if records = [] then - 1 else rec_timestamp (hd records))"

definition maxTs :: "Record list \<Rightarrow> int" where
  "maxTs records = foldl (\<lambda>m r. if rec_timestamp r > m then rec_timestamp r else m) (baseTs records) records"

lemma patch_mid: "length a = at \<Longrightarrow> length b = 4 \<Longrightarrow> wr_patchUint32 at u (a @ b @ c) = a @ be_bytes 4 u @ c"
  by (simp add: wr_patchUint32_def)

lemma encodeRecordBatch_eq:
  "encodeRecordBatch base_offset records =
     (let tail = batchTail (baseTs records) (maxTs records) records
      in wr_int64 base_offset @ wr_int32 (int (9 + length tail)) @ wr_int32 0 @ wr_int8 kMagicV2 @
         wr_uint32 (uint (crc32c 0 tail)) @ tail)"
proof -
  let ?tail = "batchTail (baseTs records) (maxTs records) records"
  let ?w4 = "wr_int64 base_offset @ wr_int32 0 @ wr_int32 0 @ wr_int8 kMagicV2 @ wr_int32 0 @ ?tail"
  have 1: "wr_patchInt32 8 (int (length ?w4 - 12)) ?w4 =
      wr_int64 base_offset @ wr_int32 (int (9 + length ?tail)) @ wr_int32 0 @ wr_int8 kMagicV2 @ wr_int32 0 @ ?tail"
    unfolding wr_patchInt32_def by (subst patch_mid) (simp_all add: wr_int32_def wr_uint32_def)
  let ?w5 = "wr_int64 base_offset @ wr_int32 (int (9 + length ?tail)) @ wr_int32 0 @ wr_int8 kMagicV2 @ wr_int32 0 @ ?tail"
  have 2: "wr_patchUint32 17 u ?w5 =
      wr_int64 base_offset @ wr_int32 (int (9 + length ?tail)) @ wr_int32 0 @ wr_int8 kMagicV2 @ wr_uint32 u @ ?tail" for u
    using patch_mid [of "wr_int64 base_offset @ wr_int32 (int (9 + length ?tail)) @ wr_int32 0 @ wr_int8 kMagicV2" 17 "wr_int32 0" u ?tail]
    by (simp add: wr_uint32_def)
  have 3: "drop 21 ?w5 = ?tail" by simp
  have "encodeRecordBatch base_offset records = wr_patchUint32 17 (uint (crc32c 0 (drop 21 (wr_patchInt32 8 (int (length ?w4 - 12)) ?w4))))
      (wr_patchInt32 8 (int (length ?w4 - 12)) ?w4)"
    by (simp add: encodeRecordBatch_def batchTail_def baseTs_def maxTs_def Let_def)
  also have "\<dots> = wr_int64 base_offset @ wr_int32 (int (9 + length ?tail)) @ wr_int32 0 @ wr_int8 kMagicV2 @
         wr_uint32 (uint (crc32c 0 ?tail)) @ ?tail"
    unfolding 1 3 2 ..
  finally show ?thesis by (simp add: Let_def)
qed

definition batch_ok :: "int \<times> Record list \<Rightarrow> bool" where
  "batch_ok b \<longleftrightarrow> is_int64 (fst b) \<and> list_all record_ok (snd b) \<and>
     (\<forall>r \<in> set (snd b). is_int64 (rec_timestamp r - baseTs (snd b))) \<and>
     length (encodeRecordBatch (fst b) (snd b)) < 2147483648"

lemma maxTs_int64: "list_all record_ok rs \<Longrightarrow> is_int64 (maxTs rs)"
proof -
  have "is_int64 m \<Longrightarrow> list_all record_ok rs \<Longrightarrow>
      is_int64 (foldl (\<lambda>m r. if rec_timestamp r > m then rec_timestamp r else m) m rs)" for m rs
    by (induction rs arbitrary: m) (auto simp: record_ok_def)
  moreover assume "list_all record_ok rs"
  moreover have "is_int64 (baseTs rs)" using \<open>list_all record_ok rs\<close>
    by (cases rs) (auto simp: baseTs_def record_ok_def is_int64_def)
  ultimately show ?thesis by (simp add: maxTs_def)
qed

lemma baseTs_int64: "list_all record_ok rs \<Longrightarrow> is_int64 (baseTs rs)"
  by (cases rs) (auto simp: baseTs_def record_ok_def is_int64_def)

lemma encodeRecordLoop_length: "length rs \<le> length (encodeRecordLoop base i rs)"
proof (induction rs arbitrary: i)
  case (Cons r rs)
  have "1 \<le> length (wr_varint (int (length (encodeRecordBody base i r))))"
    using wr_varint_nonempty by (simp add: Suc_le_eq)
  with Cons [of "i + 1"] show ?case by (simp add: Let_def)
qed simp

lemma decodeBatch_encode:
  assumes "batch_ok (base, rs)"
  shows "decodeBatch (pre @ encodeRecordBatch base rs @ rest) (length pre) out =
    Inr (length pre + length (encodeRecordBatch base rs), out @ map (\<lambda>r. r\<lparr>rec_offset := 0\<rparr>) rs)"
proof -
  let ?t = "batchTail (baseTs rs) (maxTs rs) rs" and ?loop = "encodeRecordLoop (baseTs rs) 0 rs"
  let ?e = "wr_int64 base @ wr_int32 (int (9 + length ?t)) @ wr_int32 0 @ wr_int8 kMagicV2 @ wr_uint32 (uint (crc32c 0 ?t)) @ ?t"
  have e: "encodeRecordBatch base rs = ?e" by (simp add: encodeRecordBatch_eq Let_def)
  have t: "length ?t = 40 + length ?loop" by (simp add: batchTail_def)
  have le: "length ?e = 61 + length ?loop" by (simp add: t)
  note ok = assms [unfolded batch_ok_def fst_conv snd_conv e le]
  have small: "length ?loop < 2147483587" using ok by simp
  then have n: "length rs < 2147483587" using encodeRecordLoop_length [of rs "baseTs rs" 0] by simp
  have crc: "uint (crc32c 0 ?t) < 4294967296" using uint_lt2p [of "crc32c 0 ?t"] by simp
  have loop: "decodeRecordLoop (length rs) (baseTs rs) (rd_new ?loop) out =
      (True, rd_at ?loop [], out @ map (\<lambda>r. r\<lparr>rec_offset := 0\<rparr>) rs)"
    using record_loop [of rs 0 "baseTs rs" "[]" "[]" out] ok n small by (simp add: rd_new_at)
  define d where "d = (if rs = [] then 0 else int (length rs - 1))"
  then have d: "(if rs = [] then 0 else int (length rs - 1)) = d" "0 \<le> d" "d < 2147483648"
    using less_imp_diff_less [OF n, of 1] by simp_all
  have tl: "?t = wr_int16 0 @ wr_int32 d @ wr_int64 (baseTs rs) @ wr_int64 (maxTs rs) @ wr_int64 (- 1) @ wr_int16 (- 1) @
      wr_int32 (- 1) @ wr_int32 (int (length rs)) @ ?loop"
    by (simp only: batchTail_def d(1))
  have m1: "is_int64 (- 1)" by (simp add: is_int64_def)
  have n49: "nat (49 + int (length ?loop)) = 49 + length ?loop" by simp
  show ?thesis
    using ok n crc loop small d(2,3) m1 maxTs_int64 [of rs] baseTs_int64 [of rs] unfolding e t
    by (simp add: decodeBatch_def kBatchHeaderSize_def kMagicV2_def kCrcCoverageStart_def kCompressionMask_def n49 tl
        rd_new_at rd_fixed Let_def)
qed

abbreviation encodeBatches :: "(int \<times> Record list) list \<Rightarrow> bytes" where
  "encodeBatches bs \<equiv> concat (map (\<lambda>(base, rs). encodeRecordBatch base rs) bs)"

abbreviation batchRecords :: "(int \<times> Record list) list \<Rightarrow> Record list" where
  "batchRecords bs \<equiv> concat (map (\<lambda>(base, rs). map (\<lambda>r. r\<lparr>rec_offset := 0\<rparr>) rs) bs)"

lemma decodeBatchLoop_after:
  "list_all batch_ok bs \<Longrightarrow>
   decodeBatchLoop (pre @ encodeBatches bs @ rest) (length pre) out =
   decodeBatchLoop (pre @ encodeBatches bs @ rest) (length (pre @ encodeBatches bs)) (out @ batchRecords bs)"
proof (induction bs arbitrary: pre out)
  case (Cons b bs)
  obtain base rs where b: "b = (base, rs)" by force
  let ?e = "encodeRecordBatch base rs" and ?rest = "encodeBatches bs @ rest"
  have ne: "?e \<noteq> []" by (simp add: encodeRecordBatch_eq Let_def length_0_conv [symmetric] del: length_0_conv)
  have "decodeBatchLoop (pre @ ?e @ ?rest) (length pre) out =
      decodeBatchLoop ((pre @ ?e) @ ?rest) (length (pre @ ?e)) (out @ map (\<lambda>r. r\<lparr>rec_offset := 0\<rparr>) rs)"
    using decodeBatch_encode [of base rs pre ?rest out] Cons.prems ne by (subst decodeBatchLoop.simps) (simp add: b)
  with Cons.IH [of "pre @ ?e" "out @ map (\<lambda>r. r\<lparr>rec_offset := 0\<rparr>) rs"] Cons.prems show ?case by (simp add: b)
qed simp

lemma decodeBatchLoop_encode:
  "list_all batch_ok bs \<Longrightarrow>
   decodeBatchLoop (pre @ encodeBatches bs) (length pre) out = (NoError, out @ batchRecords bs)"
  using decodeBatchLoop_after [of bs pre "[]" out] by (simp add: decodeBatchLoop.simps)

lemma decodeRecordBatches_fault:
  assumes "list_all batch_ok bs" and "x \<noteq> []"
    and "\<And>out. decodeBatch (encodeBatches bs @ x) (length (encodeBatches bs)) out = Inl (code, out)"
  shows "decodeRecordBatches (encodeBatches bs @ x) out = (code, out @ batchRecords bs)"
  using decodeBatchLoop_after [OF assms(1), of "[]" x out] assms(2,3)
  by (simp add: decodeRecordBatches_def decodeBatchLoop.simps)

section \<open>Batches with a fault\<close>

lemma decodeBatch_header:
  assumes "is_int64 base" and "40 \<le> length tail" "length tail < 2147483639"
    and "- 2147483648 \<le> epoch" "epoch < 2147483648" and "- 128 \<le> magic" "magic < 128" and "0 \<le> crc" "crc < 4294967296"
    and "bad = wr_int64 base @ wr_int32 (int (9 + length tail)) @ wr_int32 epoch @ wr_int8 magic @ wr_uint32 crc @ tail"
  shows "magic \<noteq> kMagicV2 \<Longrightarrow> decodeBatch (pre @ bad @ rest) (length pre) out = Inl (InvalidRequest, out)"
    and "magic = kMagicV2 \<Longrightarrow> crc \<noteq> uint (crc32c 0 tail) \<Longrightarrow>
      decodeBatch (pre @ bad @ rest) (length pre) out = Inl (KafkaStorageError, out)"
    and "magic = kMagicV2 \<Longrightarrow> crc = uint (crc32c 0 tail) \<Longrightarrow> tail = wr_int16 attr @ body \<Longrightarrow> - 32768 \<le> attr \<Longrightarrow> attr < 32768 \<Longrightarrow>
      attr AND kCompressionMask \<noteq> 0 \<Longrightarrow> decodeBatch (pre @ bad @ rest) (length pre) out = Inl (UnsupportedCompression, out)"
proof -
  have n: "nat (9 + int (length tail)) = 9 + length tail" by simp
  show "magic \<noteq> kMagicV2 \<Longrightarrow> decodeBatch (pre @ bad @ rest) (length pre) out = Inl (InvalidRequest, out)"
    using assms(1-9) by (simp add: decodeBatch_def kBatchHeaderSize_def n rd_new_at rd_fixed Let_def assms(10))
  show "magic = kMagicV2 \<Longrightarrow> crc \<noteq> uint (crc32c 0 tail) \<Longrightarrow>
      decodeBatch (pre @ bad @ rest) (length pre) out = Inl (KafkaStorageError, out)"
    using assms(1-9) by (simp add: decodeBatch_def kBatchHeaderSize_def kCrcCoverageStart_def n rd_new_at rd_fixed Let_def assms(10))
  assume a: "magic = kMagicV2" "crc = uint (crc32c 0 tail)" "tail = wr_int16 attr @ body" "- 32768 \<le> attr" "attr < 32768"
    "attr AND kCompressionMask \<noteq> 0"
  have n: "nat (11 + int (length body)) = 11 + length body" by simp
  show "decodeBatch (pre @ bad @ rest) (length pre) out = Inl (UnsupportedCompression, out)"
    using assms(1-9) a(1,2,4-6) rd_fixed(2) [OF a(4,5), of _ "body @ rest"]
    by (simp add: decodeBatch_def kBatchHeaderSize_def kCrcCoverageStart_def n rd_new_at rd_fixed Let_def assms(10) a(3))
qed

lemma decodeBatch_cut:
  assumes "is_int64 base" and "40 \<le> length tail" "length tail < 2147483639"
    and "bad = wr_int64 base @ wr_int32 (int (9 + length tail)) @ wr_int32 epoch @ wr_int8 magic @ wr_uint32 crc @ tail"
    and "x @ y = bad" and "y \<noteq> []"
  shows "decodeBatch (pre @ x) (length pre) out = Inl (InvalidRequest, out)"
proof (cases "length x < 61")
  case False
  let ?h = "wr_int64 base @ wr_int32 (int (9 + length tail))"
  have "length x < length bad" using arg_cong [OF assms(5), of length] assms(6) by (cases y) auto
  then have l: "length x < 21 + length tail" using assms(4) by simp
  have "take 12 x = take 12 (x @ y)" using False by simp
  then have "take 12 x = ?h" unfolding assms(5,4) by simp
  then obtain z where z: "x = ?h @ z" by (metis append_take_drop_id)
  have "nat (9 + int (length tail)) = 9 + length tail" by simp
  then show ?thesis using assms(1-3) l False unfolding z
    by (simp add: decodeBatch_def kBatchHeaderSize_def rd_new_at rd_fixed Let_def)
qed (simp add: decodeBatch_def kBatchHeaderSize_def)

section \<open>The checksum table\<close>

definition crcReference :: "32 word \<Rightarrow> bytes \<Rightarrow> 32 word" where
  "crcReference crc data = NOT (foldl (\<lambda>c b. (crcBit ^^ 8) (c XOR ucast b)) (NOT crc) data)"

lemma crcBits_8: "(crcBit ^^ 8) c = crcBit (crcBit (crcBit (crcBit (crcBit (crcBit (crcBit (crcBit c)))))))"
  by (simp add: eval_nat_numeral)

lemma crcBit_bit0: "crcBit c = (if bit c 0 then drop_bit 1 c XOR 0x82f63b78 else drop_bit 1 c)"
proof -
  have "c AND 1 \<noteq> 0 \<longleftrightarrow> bit c 0" by (simp add: and_one_eq bit_0 odd_iff_mod_2_eq_one)
  then show ?thesis by (simp add: crcBit_def)
qed

lemma crcBit_xor: "crcBit (a XOR b) = crcBit a XOR crcBit b"
  by (simp add: crcBit_bit0 bit_xor_iff drop_bit_xor xor.assoc xor.commute xor.left_commute)

lemma crcBits_xor: "(crcBit ^^ n) (a XOR b) = (crcBit ^^ n) a XOR (crcBit ^^ n) b"
  by (induction n arbitrary: a b) (simp_all add: crcBit_xor)

lemma crcBits_push: "(\<And>k. bit y k \<Longrightarrow> k + n < 32) \<Longrightarrow> (crcBit ^^ n) (push_bit n y) = y"
proof (induction n)
  case (Suc n)
  have "drop_bit 1 (push_bit (Suc n) y) = push_bit n y"
  proof (rule bit_word_eqI)
    fix k assume "k < LENGTH(32)"
    then show "bit (drop_bit 1 (push_bit (Suc n) y)) k = bit (push_bit n y) k"
      using Suc.prems [of "k - n"] by (auto simp only: bit_drop_bit_eq o_def bit_push_bit_iff) auto
  qed
  moreover have "\<not> bit (push_bit (Suc n) y) 0" by (simp only: bit_push_bit_iff) simp
  ultimately have "crcBit (push_bit (Suc n) y) = push_bit n y" by (simp add: crcBit_bit0 del: push_bit_Suc)
  then have "(crcBit ^^ Suc n) (push_bit (Suc n) y) = (crcBit ^^ n) (push_bit n y)"
    by (simp add: funpow_Suc_right del: funpow.simps push_bit_Suc)
  also have "\<dots> = y" using Suc.prems by (intro Suc.IH) fastforce
  finally show ?case .
qed simp

lemma byte_mask: "bit (0xff :: 32 word) n \<longleftrightarrow> n < 8"
proof -
  have "(0xff :: 32 word) = mask 8" by (simp add: mask_eq_exp_minus_1)
  then show ?thesis by (simp only: bit_mask_iff) auto
qed

lemma low_byte_split: "x = (x AND 0xff) XOR push_bit 8 (drop_bit 8 x)" for x :: "32 word"
  by (rule bit_word_eqI) (auto simp only: bit_and_iff bit_xor_iff bit_push_bit_iff bit_drop_bit_eq byte_mask o_def, auto)

lemma crc_step:
  "makeCrc32cTable ! unat ((c XOR ucast b) AND 0xff) XOR drop_bit 8 c = (crcBit ^^ 8) (c XOR ucast (b :: byte))"
proof -
  let ?x = "c XOR ucast b"
  have "?x AND 0xff \<le> 0xff" by (rule word_and_le1)
  then have "unat (?x AND 0xff) < 256" by (simp add: word_le_nat_alt)
  then have t: "makeCrc32cTable ! unat (?x AND 0xff) = (crcBit ^^ 8) (?x AND 0xff)" by (simp add: makeCrc32cTable_def)
  have d: "drop_bit 8 ?x = drop_bit 8 c" by (rule bit_word_eqI) (auto simp: bit_simps dest: bit_imp_le_length)
  have "(crcBit ^^ 8) ?x = (crcBit ^^ 8) (?x AND 0xff) XOR (crcBit ^^ 8) (push_bit 8 (drop_bit 8 ?x))"
    by (metis crcBits_xor low_byte_split)
  also have "(crcBit ^^ 8) (push_bit 8 (drop_bit 8 ?x)) = drop_bit 8 ?x"
    by (rule crcBits_push) (auto simp: bit_simps dest: bit_imp_le_length)
  finally show ?thesis using t d by simp
qed

lemma crc32c_reference: "crc32c crc data = crcReference crc data"
  by (simp add: crc32c_def crcReference_def crc_step)

section \<open>Properties\<close>

text \<open>C27: The table-driven CRC-32C computes what the bitwise division computes, for every initial value
  and every data, and has the check value of the standard.\<close>

theorem crc_table_correct: "crc32c crc data = crcReference crc data \<and> crc32c 0 (str ''123456789'') = 0xe3069283"
proof -
  have "crcReference 0 (str ''123456789'') = 0xe3069283"
    by (simp add: crcReference_def crcBits_8 crcBit_def)
  then show ?thesis by (simp add: crc32c_reference)
qed

text \<open>C25: What \<open>encodeRecordBatch\<close> writes, \<open>decodeRecordBatches\<close> reads: any number of batches one after
  the other decode without an error to their records in order, with their timestamps, keys, values,
  headers and nulls; only the offsets, which the broker assigns, are left at zero.\<close>

theorem batches_roundtrip:
  assumes "list_all batch_ok bs"
  shows "decodeRecordBatches (concat (map (\<lambda>(base, rs). encodeRecordBatch base rs) bs)) out =
    (NoError, out @ concat (map (\<lambda>(base, rs). map (\<lambda>r. r\<lparr>rec_offset := 0\<rparr>) rs) bs))"
  using decodeBatchLoop_encode [OF assms, of "[]" out] by (simp add: decodeRecordBatches_def)

theorem batches_roundtrip_witness:
  "decodeRecordBatches (encodeRecordBatch 7 [\<lparr>rec_offset = 9, rec_timestamp = 1000, rec_key = str ''k'', rec_key_null = False,
       rec_value = [], rec_value_null = True, rec_headers = []\<rparr>]) [] =
   (NoError, [\<lparr>rec_offset = 0, rec_timestamp = 1000, rec_key = str ''k'', rec_key_null = False,
       rec_value = [], rec_value_null = True, rec_headers = []\<rparr>])"
proof -
  let ?r = "\<lparr>rec_offset = 9, rec_timestamp = 1000, rec_key = str ''k'', rec_key_null = False, rec_value = [], rec_value_null = True,
    rec_headers = []\<rparr>"
  have v: "wr_varlong 0 = [0]" "wr_varlong 1 = [2]" "wr_varlong (- 1) = [1]"
    by code_simp+
  have "length (encodeRecordBody 1000 0 ?r) = 7"
    by (simp add: encodeRecordBody_def wr_varintField_def wr_varint_def v)
  moreover have "length (wr_varint 7) = 1" by code_simp
  ultimately have "batch_ok (7, [?r])"
    by (simp add: batch_ok_def record_ok_def is_int64_def baseTs_def encodeRecordBatch_eq batchTail_def Let_def)
  then show ?thesis using batches_roundtrip [of "[(7, [?r])]" "[]"] by simp
qed

text \<open>C26: A batch that cannot be accepted, first or after any number of good ones, is answered with the
  code for its fault and adds no record, while those of the batches in front of it stay in the
  output. Whatever its other fields say, a wrong magic byte is an invalid request; with the
  right magic, bytes that do not match the stated checksum are a storage error; with both
  right, a compression codec in the attributes is unsupported. A batch cut short anywhere
  is an invalid request.\<close>

theorem batch_errors:
  assumes "list_all batch_ok bs" and "is_int64 base" and "40 \<le> length tail" "length tail < 2147483639"
    and "- 2147483648 \<le> epoch" "epoch < 2147483648" and "- 128 \<le> magic" "magic < 128" and "0 \<le> crc" "crc < 4294967296"
    and "bad = wr_int64 base @ wr_int32 (int (9 + length tail)) @ wr_int32 epoch @ wr_int8 magic @ wr_uint32 crc @ tail"
  shows "(magic \<noteq> kMagicV2 \<longrightarrow>
      decodeRecordBatches (encodeBatches bs @ bad @ rest) out = (InvalidRequest, out @ batchRecords bs)) \<and>
    (magic = kMagicV2 \<and> crc \<noteq> uint (crc32c 0 tail) \<longrightarrow>
      decodeRecordBatches (encodeBatches bs @ bad @ rest) out = (KafkaStorageError, out @ batchRecords bs)) \<and>
    (magic = kMagicV2 \<and> crc = uint (crc32c 0 tail) \<and> tail = wr_int16 attr @ body \<and> - 32768 \<le> attr \<and> attr < 32768 \<and>
        attr AND kCompressionMask \<noteq> 0 \<longrightarrow>
      decodeRecordBatches (encodeBatches bs @ bad @ rest) out = (UnsupportedCompression, out @ batchRecords bs)) \<and>
    (x @ y = bad \<and> x \<noteq> [] \<and> y \<noteq> [] \<longrightarrow>
      decodeRecordBatches (encodeBatches bs @ x) out = (InvalidRequest, out @ batchRecords bs))"
proof -
  have len: "length bad = 21 + length tail" using assms(11) by simp
  then have ne: "bad @ rest \<noteq> []" by auto
  note h = decodeBatch_header [OF assms(2-11), where pre = "encodeBatches bs" and rest = rest]
  note fault = decodeRecordBatches_fault [OF assms(1) ne, of _ out]
  have "magic \<noteq> kMagicV2 \<longrightarrow> decodeRecordBatches (encodeBatches bs @ bad @ rest) out = (InvalidRequest, out @ batchRecords bs)"
    using h(1) by (intro impI fault) simp
  moreover have "magic = kMagicV2 \<and> crc \<noteq> uint (crc32c 0 tail) \<longrightarrow>
      decodeRecordBatches (encodeBatches bs @ bad @ rest) out = (KafkaStorageError, out @ batchRecords bs)"
    using h(2) by (intro impI fault) simp
  moreover have "magic = kMagicV2 \<and> crc = uint (crc32c 0 tail) \<and> tail = wr_int16 attr @ body \<and> - 32768 \<le> attr \<and> attr < 32768 \<and>
      attr AND kCompressionMask \<noteq> 0 \<longrightarrow>
      decodeRecordBatches (encodeBatches bs @ bad @ rest) out = (UnsupportedCompression, out @ batchRecords bs)"
    using h(3) by (intro impI fault) simp
  moreover have "x @ y = bad \<and> x \<noteq> [] \<and> y \<noteq> [] \<longrightarrow>
      decodeRecordBatches (encodeBatches bs @ x) out = (InvalidRequest, out @ batchRecords bs)"
    using decodeBatch_cut [OF assms(2-4,11), where x = x and y = y and pre = "encodeBatches bs"]
    by (intro impI decodeRecordBatches_fault [OF assms(1), of _ _ out]) simp_all
  ultimately show ?thesis by blast
qed

theorem batch_errors_witness:
  "decodeRecordBatches (wr_int64 0 @ wr_int32 49 @ wr_int32 0 @ wr_int8 1 @ wr_uint32 0 @ replicate 40 0) [] = (InvalidRequest, []) \<and>
   decodeRecordBatches (wr_int64 0 @ wr_int32 49 @ wr_int32 0 @ wr_int8 1 @ wr_uint32 0) [] = (InvalidRequest, [])"
  using batch_errors [where bs = "[]" and base = 0 and tail = "replicate 40 0" and epoch = 0 and magic = 1 and crc = 0
      and rest = "[]" and out = "[]" and x = "wr_int64 0 @ wr_int32 49 @ wr_int32 0 @ wr_int8 1 @ wr_uint32 0" and y = "replicate 40 0",
      OF _ _ _ _ _ _ _ _ _ _ refl]
  by (simp add: is_int64_def kMagicV2_def length_0_conv [symmetric] del: length_0_conv)

end
