(* ===== verification/Spec2Isabelle.thy ===== *)
theory Spec2Isabelle
  imports Intset Listpack_Spec Dict_Scan Hash_Value Set_Value List_Value Dtoa Strings Database Resp_Reply Kafka_Records
begin

text \<open>
  A verification library for \<open>mnemos\<close>, a Redis-compatible server written in C++.

  Under construction.
\<close>

end
